(* ===== verification/Prelude.thy ===== *)
theory Prelude
  imports Main "HOL-Library.Word"
begin

text \<open>
  Shared ground of the development: the machine types of the Go sources, the values that
  stand for Go errors and gRPC statuses, contexts, and the lemmas on words, lists and options
  that every component uses.

  \<^item> \<open>u32\<close> is Go's \<^verbatim>\<open>uint32\<close> (flow control windows, chunk sizes); arithmetic wraps.
  \<^item> \<open>i64\<close> is Go's \<^verbatim>\<open>int64\<close> (stream IDs), an \<^typ>\<open>int\<close> whose wrap-around is written out
    by \<open>i64_wrap\<close>.
  \<^item> Lengths of slices (Go's \<^verbatim>\<open>int\<close> and \<^verbatim>\<open>uint\<close>, 64 bits) are \<^typ>\<open>nat\<close>: a slice is shorter than
    \<open>2 ^ 63\<close>, so adding a 32-bit overhead to a length cannot wrap.
  \<^item> \<open>gerror\<close> is Go's \<^verbatim>\<open>error\<close>; the nil error is \<open>None\<close> of \<open>gerror option\<close>.
\<close>

named_theorems word_nat \<open>word facts read as facts on natural numbers\<close>
named_theorems go_defs \<open>definitions of operations, unfolded by the proofs on one operation\<close>

type_synonym u32 = "32 word"
type_synonym i64 = int
type_synonym bytes = "8 word list"

subsection \<open>Machine integers\<close>

definition MaxUint32 :: nat where
  "MaxUint32 = 2 ^ 32 - 1"

definition i64_wrap :: "int \<Rightarrow> i64" where
  "i64_wrap x = (x + 2 ^ 63) mod 2 ^ 64 - 2 ^ 63"

definition u32_of_len :: "'a list \<Rightarrow> u32" where
  "u32_of_len xs = word_of_nat (length xs)"

lemma i64_wrap_id: "- (2 ^ 63) \<le> x \<Longrightarrow> x < 2 ^ 63 \<Longrightarrow> i64_wrap x = x"
  by (simp add: i64_wrap_def)

lemma i64_wrap_max: "i64_wrap (2 ^ 63) = - (2 ^ 63)"
  by (simp add: i64_wrap_def)

lemma unat_u32_less [simp]: "unat (w :: u32) < 4294967296"
  using unsigned_less [where 'b = 32 and w = w and 'a = nat] by simp

lemma unat_u32_of_len [word_nat]:
  "length xs \<le> MaxUint32 \<Longrightarrow> unat (u32_of_len xs) = length xs"
  by (simp add: u32_of_len_def MaxUint32_def unat_of_nat)

lemma unat_of_nat_u32 [word_nat]:
  "n < 4294967296 \<Longrightarrow> unat (word_of_nat n :: u32) = n"
  by (simp add: unat_of_nat)

lemma unat_min_word [word_nat]: "unat (min a b :: u32) = min (unat a) (unat b)"
  by (simp add: min_def word_le_nat_alt)

lemma unat_max_word [word_nat]: "unat (max a b :: u32) = max (unat a) (unat b)"
  by (simp add: max_def word_le_nat_alt)

lemma unat_add_no_wrap [word_nat]:
  "unat (a :: u32) + unat b < 4294967296 \<Longrightarrow> unat (a + b) = unat a + unat b"
  using unat_add_lem [of a b] by simp

lemma unat_sub_no_wrap [word_nat]: "b \<le> (a :: u32) \<Longrightarrow> unat (a - b) = unat a - unat b"
  by (rule unat_sub)

lemmas word_order_nat [word_nat] = word_le_nat_alt word_less_nat_alt

lemma unat_eq_iff_word: "((a :: u32) = b) \<longleftrightarrow> unat a = unat b"
  by (simp add: word_unat_eq_iff)

subsection \<open>Errors, statuses and contexts\<close>

text \<open>
  The codes of \<^verbatim>\<open>google.golang.org/grpc/codes\<close> that the sources name; any other code, coming
  from a handler or a peer, is \<open>OtherCode\<close>.
\<close>

datatype code =
    OK | Canceled | Unknown | InvalidArgument | DeadlineExceeded | Unauthenticated
  | ResourceExhausted | FailedPrecondition | Unimplemented | Internal | Unavailable
  | OtherCode nat

text \<open>
  A formatted error message is kept as its format string and the arguments, exactly what the
  source passes to \<^verbatim>\<open>status.Errorf\<close>.
\<close>

datatype arg = AStr string | AInt int | ARevs "int list" | AMsg string "arg list"

text \<open>\<^verbatim>\<open>*status.Status\<close>: a code and a message.\<close>

record gstatus =
  Code :: code
  MsgFormat :: string
  MsgArgs :: "arg list"

datatype gerror =
    EOF                             \<comment> \<open>\<^verbatim>\<open>io.EOF\<close>\<close>
  | CtxCanceled                     \<comment> \<open>\<^verbatim>\<open>context.Canceled\<close>\<close>
  | CtxDeadlineExceeded             \<comment> \<open>\<^verbatim>\<open>context.DeadlineExceeded\<close>\<close>
  | StatusErr gstatus               \<comment> \<open>an error made by \<^verbatim>\<open>status.Errorf\<close> or \<^verbatim>\<open>Status.Err\<close>\<close>
  | ErrorsNew string                \<comment> \<open>\<^verbatim>\<open>errors.New\<close>\<close>
  | Foreign nat                     \<comment> \<open>any other error of the transport, a codec or a handler\<close>
  | Wraps nat gerror                \<comment> \<open>such an error whose \<^verbatim>\<open>Unwrap\<close> is another error\<close>

definition Errorf :: "code \<Rightarrow> string \<Rightarrow> arg list \<Rightarrow> gerror" where
  "Errorf c f as = StatusErr \<lparr>Code = c, MsgFormat = f, MsgArgs = as\<rparr>"

fun error_code :: "gerror \<Rightarrow> code option" where
  "error_code (StatusErr s) = Some (Code s)"
| "error_code _ = None"

text \<open>\<^verbatim>\<open>errors.Is\<close>, which follows \<^verbatim>\<open>Unwrap\<close>.\<close>

fun errors_Is :: "gerror \<Rightarrow> gerror \<Rightarrow> bool" where
  "errors_Is (Wraps n e) target = (Wraps n e = target \<or> errors_Is e target)"
| "errors_Is e target = (e = target)"

lemma error_code_Errorf [simp]: "error_code (Errorf c f as) = Some c"
  by (simp add: Errorf_def)

lemma Errorf_neq [simp]:
  "Errorf c f as \<noteq> EOF" "EOF \<noteq> Errorf c f as"
  "Errorf c f as \<noteq> CtxCanceled" "Errorf c f as \<noteq> CtxDeadlineExceeded"
  by (simp_all add: Errorf_def)

lemma Errorf_eq_iff [simp]:
  "Errorf c f as = Errorf c' f' as' \<longleftrightarrow> c = c' \<and> f = f' \<and> as = as'"
  by (simp add: Errorf_def)

text \<open>
  A context is its \<^verbatim>\<open>Err()\<close>: \<open>None\<close> while it is not done. The first cancellation or deadline
  wins, later ones change nothing.
\<close>

type_synonym ctx = "gerror option"

definition ctx_end :: "gerror \<Rightarrow> ctx \<Rightarrow> ctx" where
  "ctx_end e c = (case c of None \<Rightarrow> Some e | Some e' \<Rightarrow> Some e')"

abbreviation ctx_cancel :: "ctx \<Rightarrow> ctx" where
  "ctx_cancel \<equiv> ctx_end CtxCanceled"

lemma ctx_end_done [simp]: "ctx_end e c \<noteq> None"
  by (simp add: ctx_end_def split: option.splits)

lemma ctx_end_ex [simp]: "\<exists>e'. ctx_end e c = Some e'"
  by (simp add: ctx_end_def split: option.splits)

lemma ctx_end_Some [simp]: "ctx_end e (Some e') = Some e'"
  by (simp add: ctx_end_def)

lemma ctx_end_None [simp]: "ctx_end e None = Some e"
  by (simp add: ctx_end_def)

subsection \<open>Lists\<close>

lemma sum_list_map_append_nat:
  "(\<Sum>x\<leftarrow>xs @ ys. f x :: nat) = (\<Sum>x\<leftarrow>xs. f x) + (\<Sum>x\<leftarrow>ys. f x)"
  by simp

lemma length_le_sum_list_pos:
  "(\<And>x. x \<in> set xs \<Longrightarrow> 1 \<le> (f x :: nat)) \<Longrightarrow> length xs \<le> (\<Sum>x\<leftarrow>xs. f x)"
proof (induction xs)
  case Nil
  then show ?case by simp
next
  case (Cons a xs)
  then have "length xs \<le> (\<Sum>x\<leftarrow>xs. f x)" and "1 \<le> f a"
    by simp_all
  then show ?case by simp
qed

lemma member_le_sum_list_nat: "x \<in> set xs \<Longrightarrow> (f x :: nat) \<le> (\<Sum>y\<leftarrow>xs. f y)"
  by (induction xs) auto

end
