(* ===== verification/Wire.thy ===== *)
theory Wire
  imports Prelude
begin

text \<open>
  The tunnel protocol's messages (\<^verbatim>\<open>tunnelpb/tunnel.pb.go\<close>, generated from \<^verbatim>\<open>tunnel.proto\<close>), the
  protocol revisions and how they translate into flow control parameters
  (\<^verbatim>\<open>flow_control.go\<close>, \<^verbatim>\<open>handler.go\<close>), the conversion of metadata, and the two pairs of closures that
  turn a chunk into a frame and measure a frame (\<^verbatim>\<open>allocateStream\<close> in \<^verbatim>\<open>tunnel_client.go\<close>,
  \<^verbatim>\<open>createStream\<close> in \<^verbatim>\<open>tunnel_server.go\<close>). The contract the two pairs share is the locale
  \<open>framing\<close>.
\<close>

subsection \<open>Protocol revisions\<close>

text \<open>\<^verbatim>\<open>ProtocolRevision\<close> is an open enum over int32: a peer may send any number.\<close>

type_synonym ProtocolRevision = int

definition REVISION_ZERO :: ProtocolRevision where "REVISION_ZERO = 0"
definition REVISION_ONE :: ProtocolRevision where "REVISION_ONE = 1"
definition REVISION_TWO :: ProtocolRevision where "REVISION_TWO = 2"

lemmas revision_defs = REVISION_ZERO_def REVISION_ONE_def REVISION_TWO_def

definition supportedRevisions :: "ProtocolRevision list" where
  "supportedRevisions = [REVISION_ONE, REVISION_TWO]"

definition revisionTwoMessageOverhead :: u32 where
  "revisionTwoMessageOverhead = 5"

definition messageOverhead :: "ProtocolRevision \<Rightarrow> u32" where
  "messageOverhead revision =
     (if revision \<ge> REVISION_TWO then revisionTwoMessageOverhead else 0)"

definition minWindowSize :: "ProtocolRevision \<Rightarrow> u32" where
  "minWindowSize revision = messageOverhead revision + 1"

lemma messageOverhead_le: "messageOverhead r \<le> 5"
  by (simp add: messageOverhead_def revisionTwoMessageOverhead_def)

lemma unat_messageOverhead_le: "unat (messageOverhead r) \<le> 5"
  by (simp add: messageOverhead_def revisionTwoMessageOverhead_def)

lemma unat_minWindowSize: "unat (minWindowSize r) = unat (messageOverhead r) + 1"
  by (simp add: minWindowSize_def messageOverhead_def revisionTwoMessageOverhead_def)

lemma minWindowSize_le_iff:
  "minWindowSize r \<le> w \<longleftrightarrow> unat (messageOverhead r) < unat w"
  by (simp add: word_le_nat_alt unat_minWindowSize Suc_le_eq)

definition tunnelRoles :: "bool \<Rightarrow> string \<times> string" where
  "tunnelRoles reverse =
     (if reverse then (''tunnel server (network client)'', ''tunnel client (network server)'')
      else (''server'', ''client''))"

subsection \<open>Metadata\<close>

text \<open>
  \<^verbatim>\<open>metadata.MD\<close> is a Go map from keys to value lists; \<open>None\<close> is the nil map. The protobuf
  message \<^verbatim>\<open>Metadata\<close> holds the same map with a \<^verbatim>\<open>Metadata_Values\<close> message around each list.
\<close>

type_synonym MD = "(string \<rightharpoonup> string list) option"

record Metadata_Values =
  Val :: "string list"

record Metadata =
  Md :: "string \<rightharpoonup> Metadata_Values"

definition md_entries :: "MD \<Rightarrow> string \<rightharpoonup> string list" where
  "md_entries md = (case md of None \<Rightarrow> Map.empty | Some m \<Rightarrow> m)"

definition fromProto :: "Metadata option \<Rightarrow> MD" where
  "fromProto md = (case md of None \<Rightarrow> None | Some m \<Rightarrow> Some (\<lambda>k. map_option Val (Md m k)))"

definition toProto :: "MD \<Rightarrow> Metadata" where
  "toProto md = \<lparr>Md = (\<lambda>k. map_option (\<lambda>v. \<lparr>Val = v\<rparr>) (md_entries md k))\<rparr>"

lemma fromProto_toProto: "fromProto (Some (toProto md)) = Some (md_entries md)"
  by (simp add: fromProto_def toProto_def option.map_comp comp_def option.map_ident)

lemma md_entries_fromProto_toProto [simp]:
  "md_entries (fromProto (Some (toProto md))) = md_entries md"
  unfolding fromProto_toProto by (simp add: md_entries_def)

text \<open>
  The parts of \<^verbatim>\<open>google.golang.org/grpc\<close> that both ends call: \<^verbatim>\<open>status.FromError\<close>,
  \<^verbatim>\<open>status.FromContextError\<close>, \<^verbatim>\<open>status.FromProto(..).Err()\<close>, and the methods of \<^verbatim>\<open>metadata.MD\<close>;
  \<^verbatim>\<open>Append\<close> may panic (\<open>None\<close>).
\<close>

record grpc_lib =
  FromError :: "gerror \<Rightarrow> gstatus \<times> bool"
  FromContextError :: "gerror \<Rightarrow> gstatus"
  FromProto_Err :: "gstatus option \<Rightarrow> gerror option"
  md_Append :: "string \<Rightarrow> string \<Rightarrow> MD \<Rightarrow> MD option"
  md_Join :: "MD \<Rightarrow> MD \<Rightarrow> MD"
  md_Get :: "MD \<Rightarrow> string \<Rightarrow> string list"

subsection \<open>Messages\<close>

record Settings =
  SupportedProtocolRevisions :: "ProtocolRevision list"
  Settings_InitialWindowSize :: u32

record NewStream =
  MethodName :: string
  RequestHeaders :: "Metadata option"
  NewStream_InitialWindowSize :: u32
  NewStream_ProtocolRevision :: ProtocolRevision

record MessageData =
  Size :: u32
  Data :: bytes

lemma MessageData_eq: "m = \<lparr>Size = n, Data = d\<rparr> \<longleftrightarrow> Size m = n \<and> Data m = d"
  by (cases m) auto

record CloseStream =
  ResponseTrailers :: "Metadata option"
  Status :: "gstatus option"

text \<open>The \<^verbatim>\<open>oneof\<close> of each message; a message with no recognised frame has \<open>None\<close>.\<close>

datatype ClientToServerFrame =
    ClientToServer_NewStream NewStream
  | ClientToServer_RequestMessage MessageData
  | ClientToServer_MoreRequestData bytes
  | ClientToServer_HalfClose
  | ClientToServer_Cancel
  | ClientToServer_WindowUpdate u32

datatype ServerToClientFrame =
    ServerToClient_Settings Settings
  | ServerToClient_ResponseHeaders Metadata
  | ServerToClient_ResponseMessage MessageData
  | ServerToClient_MoreResponseData bytes
  | ServerToClient_CloseStream CloseStream
  | ServerToClient_WindowUpdate u32

record ClientToServer =
  C2S_StreamId :: i64
  C2S_Frame :: "ClientToServerFrame option"

record ServerToClient =
  S2C_StreamId :: i64
  S2C_Frame :: "ServerToClientFrame option"

abbreviation c2s :: "i64 \<Rightarrow> ClientToServerFrame \<Rightarrow> ClientToServer" where
  "c2s i f \<equiv> \<lparr>C2S_StreamId = i, C2S_Frame = Some f\<rparr>"

abbreviation s2c :: "i64 \<Rightarrow> ServerToClientFrame \<Rightarrow> ServerToClient" where
  "s2c i f \<equiv> \<lparr>S2C_StreamId = i, S2C_Frame = Some f\<rparr>"

text \<open>The dynamic type of a frame, as \<^verbatim>\<open>%T\<close> prints it.\<close>

fun c2s_type :: "ClientToServerFrame \<Rightarrow> string" where
  "c2s_type (ClientToServer_NewStream x) = ''*tunnelpb.ClientToServer_NewStream''"
| "c2s_type (ClientToServer_RequestMessage x) = ''*tunnelpb.ClientToServer_RequestMessage''"
| "c2s_type (ClientToServer_MoreRequestData x) = ''*tunnelpb.ClientToServer_MoreRequestData''"
| "c2s_type ClientToServer_HalfClose = ''*tunnelpb.ClientToServer_HalfClose''"
| "c2s_type ClientToServer_Cancel = ''*tunnelpb.ClientToServer_Cancel''"
| "c2s_type (ClientToServer_WindowUpdate x) = ''*tunnelpb.ClientToServer_WindowUpdate''"

fun s2c_type :: "ServerToClientFrame \<Rightarrow> string" where
  "s2c_type (ServerToClient_Settings x) = ''*tunnelpb.ServerToClient_Settings''"
| "s2c_type (ServerToClient_ResponseHeaders x) = ''*tunnelpb.ServerToClient_ResponseHeaders''"
| "s2c_type (ServerToClient_ResponseMessage x) = ''*tunnelpb.ServerToClient_ResponseMessage''"
| "s2c_type (ServerToClient_MoreResponseData x) = ''*tunnelpb.ServerToClient_MoreResponseData''"
| "s2c_type (ServerToClient_CloseStream x) = ''*tunnelpb.ServerToClient_CloseStream''"
| "s2c_type (ServerToClient_WindowUpdate x) = ''*tunnelpb.ServerToClient_WindowUpdate''"

subsection \<open>Chunks as frames\<close>

text \<open>
  What a sender hands to its \<^verbatim>\<open>sendFunc\<close>: the chunk, the size of the whole message, and whether
  it is the first chunk.
\<close>

type_synonym chunk = "bytes \<times> u32 \<times> bool"

definition client_sendData :: "bytes \<Rightarrow> u32 \<Rightarrow> bool \<Rightarrow> ClientToServerFrame" where
  "client_sendData data totalSize first =
     (if first then ClientToServer_RequestMessage \<lparr>Size = totalSize, Data = data\<rparr>
      else ClientToServer_MoreRequestData data)"

definition server_sendFunc :: "bytes \<Rightarrow> u32 \<Rightarrow> bool \<Rightarrow> ServerToClientFrame" where
  "server_sendFunc data totalSize first =
     (if first then ServerToClient_ResponseMessage \<lparr>Size = totalSize, Data = data\<rparr>
      else ServerToClient_MoreResponseData data)"

fun client_measure :: "ServerToClientFrame \<Rightarrow> nat \<times> bool" where
  "client_measure (ServerToClient_ResponseMessage m) = (length (Data m), True)"
| "client_measure (ServerToClient_MoreResponseData d) = (length d, False)"
| "client_measure _ = (0, False)"

fun server_measure :: "ClientToServerFrame \<Rightarrow> nat \<times> bool" where
  "server_measure (ClientToServer_RequestMessage m) = (length (Data m), True)"
| "server_measure (ClientToServer_MoreRequestData d) = (length d, False)"
| "server_measure _ = (0, False)"

text \<open>
  A message cut into chunks: \<open>chunk_prefix mx m cs rest\<close> says that the chunks \<open>cs\<close> are the beginning of
  \<open>m\<close>, with \<open>rest\<close> still to come, each at most \<open>mx\<close> long, carrying the size of \<open>m\<close> and marked first
  exactly where it is; \<open>is_chunking\<close> that nothing is missing.
\<close>

definition chunk_prefix :: "nat \<Rightarrow> bytes \<Rightarrow> chunk list \<Rightarrow> bytes \<Rightarrow> bool" where
  "chunk_prefix mx m cs rest \<longleftrightarrow> concat (map fst cs) @ rest = m
     \<and> map (snd \<circ> snd) cs = map (\<lambda>j. j = 0) [0..<length cs]
     \<and> (\<forall>c\<in>set cs. fst (snd c) = u32_of_len m \<and> length (fst c) \<le> mx
          \<and> (m \<noteq> [] \<longrightarrow> fst c \<noteq> []))"

definition is_chunking :: "nat \<Rightarrow> bytes \<Rightarrow> chunk list \<Rightarrow> bool" where
  "is_chunking mx m cs \<longleftrightarrow> cs \<noteq> [] \<and> (m = [] \<longrightarrow> length cs = 1) \<and> chunk_prefix mx m cs []"

lemma chunk_prefix_snoc:
  assumes "chunk_prefix mx m cs d" and "c \<le> length d" and "c \<le> mx" and "m \<noteq> [] \<longrightarrow> 0 < c \<and> d \<noteq> []"
    and "i = length cs"
  shows "chunk_prefix mx m (cs @ [(take c d, u32_of_len m, i = 0)]) (drop c d)"
  using assms
  by (auto simp: chunk_prefix_def)

lemma chunk_prefix_count:
  assumes "chunk_prefix mx m cs d" and "m \<noteq> []"
  shows "length cs \<le> length m"
proof -
  have "length cs \<le> (\<Sum>c\<leftarrow>cs. length (fst c))"
    using assms by (intro length_le_sum_list_pos) (auto simp: chunk_prefix_def Suc_le_eq)
  also have "\<dots> = length (concat (map fst cs))"
    by (simp add: length_concat comp_def)
  also have "\<dots> \<le> length m"
    using assms(1) by (auto simp: chunk_prefix_def)
  finally show ?thesis .
qed

text \<open>
  The contract between the side that frames a chunk and the side that measures the frame: the
  receiver charges exactly the data bytes of the chunk and recognises the start of a message.
\<close>

locale framing =
  fixes frame_of :: "bytes \<Rightarrow> u32 \<Rightarrow> bool \<Rightarrow> 'f"
    and measure :: "'f \<Rightarrow> nat \<times> bool"
  assumes measure_frame: "measure (frame_of d n b) = (length d, b)"
begin

definition frames :: "chunk list \<Rightarrow> 'f list" where
  "frames cs = map (\<lambda>(d, n, b). frame_of d n b) cs"

lemma frames_append: "frames (cs @ ds) = frames cs @ frames ds"
  by (simp add: frames_def)

lemma measured_bytes: "(\<Sum>f\<leftarrow>frames cs. fst (measure f)) = (\<Sum>(d, n, b)\<leftarrow>cs. length d)"
  by (induction cs) (auto simp: frames_def measure_frame)

end

interpretation req: framing client_sendData server_measure
  by unfold_locales (simp add: client_sendData_def)

interpretation resp: framing server_sendFunc client_measure
  by unfold_locales (simp add: server_sendFunc_def)

end
