(* ===== verification/Sender.thy ===== *)
theory Sender
  imports Wire
begin

text \<open>
  The sending half of flow control (\<^verbatim>\<open>type sender\<close> in \<^verbatim>\<open>flow_control.go\<close>). The record holds the
  fields that carry state; the channel \<^verbatim>\<open>windowUpdates\<close> has capacity one, so it is the flag "a
  token is in the channel". \<^verbatim>\<open>send\<close> runs concurrently with \<^verbatim>\<open>updateWindow\<close> and with the context, so it
  is cut at its atomic operations: the load of the window, the \<^verbatim>\<open>select\<close>, the compare-and-swap and the
  call of \<^verbatim>\<open>sendFunc\<close>. \<^verbatim>\<open>updateWindow\<close> is cut between the atomic add and the signal. \<open>sys_do\<close>
  performs one such operation; \<open>send_reach\<close> are the states reachable under every interleaving.
\<close>

record sender =
  snd_maxChunkSize :: u32
  snd_msgOverhead :: u32
  snd_windowUpdates :: bool
  snd_currentWindow :: u32

definition newSender :: "u32 \<Rightarrow> u32 \<Rightarrow> u32 \<Rightarrow> sender" where
  "newSender initialWindow maxChunk msgOverhead =
     (let maxChunk' = (if maxChunk > initialWindow then initialWindow else maxChunk)
      in \<lparr>snd_maxChunkSize = maxChunk', snd_msgOverhead = msgOverhead,
          snd_windowUpdates = False, snd_currentWindow = initialWindow\<rparr>)"

subsection \<open>updateWindow\<close>

text \<open>The atomic add, with the window before it; then the non-blocking send on the channel.\<close>

definition updateWindow_add :: "u32 \<Rightarrow> sender \<Rightarrow> u32 \<times> sender" where
  "updateWindow_add add s =
     (let s' = s\<lparr>snd_currentWindow := snd_currentWindow s + add\<rparr>
      in (snd_currentWindow s' - add, s'))"

definition updateWindow_signal :: "u32 \<Rightarrow> sender \<Rightarrow> sender" where
  "updateWindow_signal prevWindow s =
     (if prevWindow \<le> snd_msgOverhead s then s\<lparr>snd_windowUpdates := True\<rparr> else s)"

definition updateWindow :: "u32 \<Rightarrow> sender \<Rightarrow> sender" where
  "updateWindow add s =
     (if add = 0 then s
      else let (prevWindow, s') = updateWindow_add add s
           in updateWindow_signal prevWindow s')"

subsection \<open>send, cut at its atomic operations\<close>

text \<open>
  Where a call of \<^verbatim>\<open>send\<close> stands (\<open>Idle\<close>: none was made yet): at the head of the loop, in the \<^verbatim>\<open>select\<close>, before the
  compare-and-swap with the window it loaded, before \<^verbatim>\<open>sendFunc\<close> with the chunk size it reserved,
  or returned. Each carries the data still to be sent and \<^verbatim>\<open>chunkIndex\<close>.
\<close>

datatype send_pc =
    Idle
  | AtLoad bytes nat
  | AtSelect bytes nat
  | AtCas bytes nat u32
  | AtSend bytes nat u32
  | Returned "gerror option"

definition errTooLarge :: "bytes \<Rightarrow> gerror" where
  "errTooLarge data = Errorf ResourceExhausted
     ''serialized message is too large: %d bytes > maximum %d bytes''
     [AInt (int (length data)), AInt (int MaxUint32)]"

definition send_overhead :: "sender \<Rightarrow> nat \<Rightarrow> u32" where
  "send_overhead s chunkIndex = (if chunkIndex = 0 then snd_msgOverhead s else 0)"

definition send_needed :: "sender \<Rightarrow> bytes \<Rightarrow> nat \<Rightarrow> u32" where
  "send_needed s data chunkIndex =
     max (send_overhead s chunkIndex + min (u32_of_len data) 1) 1"

definition send_chunkSz :: "sender \<Rightarrow> bytes \<Rightarrow> nat \<Rightarrow> u32 \<Rightarrow> u32" where
  "send_chunkSz s data chunkIndex windowSz =
     min (windowSz - send_overhead s chunkIndex) (min (u32_of_len data) (snd_maxChunkSize s))"

definition send_begin :: "bytes \<Rightarrow> send_pc" where
  "send_begin data =
     (if length data > MaxUint32 then Returned (Some (errTooLarge data)) else AtLoad data 0)"

definition send_load :: "sender \<Rightarrow> bytes \<Rightarrow> nat \<Rightarrow> send_pc" where
  "send_load s data chunkIndex =
     (let windowSz = snd_currentWindow s
      in if windowSz < send_needed s data chunkIndex then AtSelect data chunkIndex
         else AtCas data chunkIndex windowSz)"

definition send_cas :: "sender \<Rightarrow> bytes \<Rightarrow> nat \<Rightarrow> u32 \<Rightarrow> sender \<times> send_pc" where
  "send_cas s data chunkIndex windowSz =
     (let chunkSz = send_chunkSz s data chunkIndex windowSz
      in if snd_currentWindow s = windowSz
         then (s\<lparr>snd_currentWindow := windowSz - send_overhead s chunkIndex - chunkSz\<rparr>,
               AtSend data chunkIndex chunkSz)
         else (s, AtLoad data chunkIndex))"

text \<open>After \<^verbatim>\<open>sendFunc\<close> returned the error \<open>res\<close> (\<open>None\<close>: no error).\<close>

definition send_after :: "bytes \<Rightarrow> nat \<Rightarrow> u32 \<Rightarrow> gerror option \<Rightarrow> send_pc" where
  "send_after data chunkIndex chunkSz res =
     (case res of
        Some e \<Rightarrow> Returned (Some e)
      | None \<Rightarrow> if chunkSz = u32_of_len data then Returned None
                else AtLoad (drop (unat chunkSz) data) (chunkIndex + 1))"

lemmas send_ops [go_defs] =
  send_begin_def send_load_def send_cas_def send_after_def updateWindow_add_def
  updateWindow_signal_def

subsection \<open>Interleavings\<close>

text \<open>
  A sender with its current call of \<^verbatim>\<open>send\<close> (the mutex admits one at a time), its context, and the
  calls of \<^verbatim>\<open>updateWindow\<close> that have added to the window but not signalled yet, each with its
  \<^verbatim>\<open>prevWindow\<close>. The last four fields record the history: the message of the call, the chunks of it
  that \<^verbatim>\<open>sendFunc\<close> took, and the bytes granted by updates and charged by chunks.
\<close>

record send_sys =
  sys_sender :: sender
  sys_pc :: send_pc
  sys_size :: u32
  sys_ctx :: ctx
  sys_upd :: "u32 list"
  sys_msg :: bytes
  sys_out :: "chunk list"
  sys_credit :: nat
  sys_charged :: nat

definition sys_init :: "sender \<Rightarrow> send_sys" where
  "sys_init s = \<lparr>sys_sender = s, sys_pc = Idle, sys_size = 0, sys_ctx = None,
     sys_upd = [], sys_msg = [], sys_out = [], sys_credit = 0, sys_charged = 0\<rparr>"

datatype send_act =
    Call bytes | Load | Wake | CtxDone | Cas | SendFunc "gerror option"
  | UpdAdd u32 | UpdSignal u32 | CtxEnd gerror

fun send_idle :: "send_pc \<Rightarrow> bool" where
  "send_idle Idle = True"
| "send_idle (Returned r) = True"
| "send_idle _ = False"

fun sys_do :: "send_act \<Rightarrow> send_sys \<Rightarrow> send_sys option" where
  "sys_do (Call d) y =
     (if send_idle (sys_pc y)
      then Some (y\<lparr>sys_pc := send_begin d, sys_size := u32_of_len d,
                   sys_msg := d, sys_out := []\<rparr>)
      else None)"
| "sys_do Load y =
     (case sys_pc y of
        AtLoad d i \<Rightarrow> Some (y\<lparr>sys_pc := send_load (sys_sender y) d i\<rparr>)
      | _ \<Rightarrow> None)"
| "sys_do Wake y =
     (case sys_pc y of
        AtSelect d i \<Rightarrow>
          if snd_windowUpdates (sys_sender y)
          then Some (y\<lparr>sys_sender := (sys_sender y)\<lparr>snd_windowUpdates := False\<rparr>,
                       sys_pc := AtLoad d i\<rparr>)
          else None
      | _ \<Rightarrow> None)"
| "sys_do CtxDone y =
     (case (sys_pc y, sys_ctx y) of
        (AtSelect d i, Some e) \<Rightarrow> Some (y\<lparr>sys_pc := Returned (Some e)\<rparr>)
      | _ \<Rightarrow> None)"
| "sys_do Cas y =
     (case sys_pc y of
        AtCas d i w \<Rightarrow>
          (case send_cas (sys_sender y) d i w of (s', pc') \<Rightarrow>
             Some (y\<lparr>sys_sender := s', sys_pc := pc',
                     sys_charged := sys_charged y +
                       (unat (snd_currentWindow (sys_sender y)) - unat (snd_currentWindow s'))\<rparr>))
      | _ \<Rightarrow> None)"
| "sys_do (SendFunc res) y =
     (case sys_pc y of
        AtSend d i c \<Rightarrow>
          Some (y\<lparr>sys_pc := send_after d i c res,
                  sys_out := (if res = None
                              then sys_out y @ [(take (unat c) d, sys_size y, i = 0)]
                              else sys_out y)\<rparr>)
      | _ \<Rightarrow> None)"
| "sys_do (UpdAdd a) y =
     (if a = 0 then Some y
      else case updateWindow_add a (sys_sender y) of (prev, s') \<Rightarrow>
             Some (y\<lparr>sys_sender := s', sys_upd := sys_upd y @ [prev],
                     sys_credit := sys_credit y + unat a\<rparr>))"
| "sys_do (UpdSignal p) y =
     (if p \<in> set (sys_upd y)
      then Some (y\<lparr>sys_sender := updateWindow_signal p (sys_sender y),
                   sys_upd := remove1 p (sys_upd y)\<rparr>)
      else None)"
| "sys_do (CtxEnd e) y = Some (y\<lparr>sys_ctx := ctx_end e (sys_ctx y)\<rparr>)"

fun sys_run :: "send_act list \<Rightarrow> send_sys \<Rightarrow> send_sys option" where
  "sys_run [] y = Some y"
| "sys_run (a # as) y = (case sys_do a y of None \<Rightarrow> None | Some z \<Rightarrow> sys_run as z)"

inductive send_reach :: "sender \<Rightarrow> send_sys \<Rightarrow> bool" for s0 where
  start: "send_reach s0 (sys_init s0)"
| step: "send_reach s0 y \<Longrightarrow> sys_do a y = Some z \<Longrightarrow> send_reach s0 z"

lemma send_reach_run: "send_reach s0 y \<Longrightarrow> sys_run as y = Some z \<Longrightarrow> send_reach s0 z"
  by (induction as arbitrary: y) (auto split: option.splits intro: send_reach.step)

lemma sys_run_append:
  "sys_run (as @ bs) y = (case sys_run as y of None \<Rightarrow> None | Some z \<Rightarrow> sys_run bs z)"
  by (induction as arbitrary: y) (auto split: option.splits)

subsection \<open>Arithmetic of one chunk\<close>

text \<open>
  Parameters a sender is made with: the overhead leaves room for one byte and chunks are not empty.
\<close>

definition sender_wf :: "sender \<Rightarrow> bool" where
  "sender_wf s \<longleftrightarrow> snd_msgOverhead s < 4294967295 \<and> 0 < snd_maxChunkSize s"

lemma sender_wf_nat:
  "sender_wf s \<longleftrightarrow> unat (snd_msgOverhead s) < 4294967295 \<and> 0 < unat (snd_maxChunkSize s)"
  by (simp add: sender_wf_def word_less_nat_alt unat_gt_0)

lemma unat_send_overhead: "unat (send_overhead s i) = (if i = 0 then unat (snd_msgOverhead s) else 0)"
  by (simp add: send_overhead_def)

lemma unat_min_len_1:
  "length d \<le> MaxUint32 \<Longrightarrow> unat (min (u32_of_len d) 1) = (if d = [] then 0 else 1)"
  by (cases d) (simp_all add: unat_min_word unat_u32_of_len)

lemma unat_send_needed:
  assumes "sender_wf s" and "length d \<le> MaxUint32"
  shows "unat (send_needed s d i) =
    max (unat (send_overhead s i) + (if d = [] then 0 else 1)) 1"
proof -
  have "unat (send_overhead s i) + unat (min (u32_of_len d) 1) < 4294967296"
    using assms by (simp add: unat_min_len_1 unat_send_overhead sender_wf_nat)
  then show ?thesis
    using assms by (simp add: send_needed_def unat_max_word unat_add_no_wrap unat_min_len_1)
qed

lemma send_needed_le_overhead:
  assumes "sender_wf s" and "length d \<le> MaxUint32" and "w < send_needed s d i"
  shows "w \<le> snd_msgOverhead s"
  using assms
  by (auto simp: word_less_nat_alt word_le_nat_alt unat_send_needed unat_send_overhead
      split: if_splits)

lemma send_chunk_fits:
  assumes "sender_wf s" and "length d \<le> MaxUint32" and "send_needed s d i \<le> w"
  shows "unat (send_chunkSz s d i w) =
      min (unat w - unat (send_overhead s i)) (min (length d) (unat (snd_maxChunkSize s)))"
    and "unat (send_overhead s i) + unat (send_chunkSz s d i w) \<le> unat w"
    and "unat (w - send_overhead s i - send_chunkSz s d i w) =
      unat w - unat (send_overhead s i) - unat (send_chunkSz s d i w)"
    and "d \<noteq> [] \<Longrightarrow> 0 < unat (send_chunkSz s d i w)"
proof -
  have le: "send_overhead s i \<le> w"
    using assms by (auto simp: word_le_nat_alt unat_send_needed)
  show chunk: "unat (send_chunkSz s d i w) =
      min (unat w - unat (send_overhead s i)) (min (length d) (unat (snd_maxChunkSize s)))"
    using assms(2) le
    by (simp add: send_chunkSz_def unat_min_word unat_u32_of_len unat_sub)
  show fits: "unat (send_overhead s i) + unat (send_chunkSz s d i w) \<le> unat w"
    using le by (simp add: chunk word_le_nat_alt)
  show "unat (w - send_overhead s i - send_chunkSz s d i w) =
      unat w - unat (send_overhead s i) - unat (send_chunkSz s d i w)"
    using le fits by (simp add: unat_sub word_le_nat_alt)
  show "d \<noteq> [] \<Longrightarrow> 0 < unat (send_chunkSz s d i w)"
    using assms by (auto simp: chunk word_le_nat_alt unat_send_needed sender_wf_nat)
qed

lemma sender_wf_newSender:
  "0 < w \<Longrightarrow> 0 < m \<Longrightarrow> v < 4294967295 \<Longrightarrow> sender_wf (newSender w m v)"
  by (simp add: sender_wf_def newSender_def Let_def)

lemma newSender_fields [simp]:
  "snd_currentWindow (newSender w m v) = w" "snd_msgOverhead (newSender w m v) = v"
  "snd_windowUpdates (newSender w m v) = False"
  "snd_maxChunkSize (newSender w m v) = min m w"
  by (auto simp: newSender_def Let_def min_def)

subsection \<open>The invariant of every interleaving\<close>

text \<open>How far the current message has been cut, at each place of \<^verbatim>\<open>send\<close>.\<close>

definition cut_ok :: "send_sys \<Rightarrow> bytes \<Rightarrow> nat \<Rightarrow> bool" where
  "cut_ok y d i \<longleftrightarrow> length (sys_msg y) \<le> MaxUint32 \<and> i = length (sys_out y)
     \<and> (i \<noteq> 0 \<longrightarrow> d \<noteq> [])
     \<and> chunk_prefix (unat (snd_maxChunkSize (sys_sender y))) (sys_msg y) (sys_out y) d"

fun pc_ok :: "send_sys \<Rightarrow> send_pc \<Rightarrow> bool" where
  "pc_ok y Idle = True"
| "pc_ok y (AtLoad d i) = cut_ok y d i"
| "pc_ok y (AtSelect d i) = (cut_ok y d i \<and>
     (send_needed (sys_sender y) d i \<le> snd_currentWindow (sys_sender y) \<longrightarrow>
        snd_windowUpdates (sys_sender y) \<or>
        (\<exists>p\<in>set (sys_upd y). p \<le> snd_msgOverhead (sys_sender y))))"
| "pc_ok y (AtCas d i w) = (cut_ok y d i \<and> send_needed (sys_sender y) d i \<le> w)"
| "pc_ok y (AtSend d i c) = (cut_ok y d i \<and> unat c \<le> length d
     \<and> unat c \<le> unat (snd_maxChunkSize (sys_sender y)) \<and> (d \<noteq> [] \<longrightarrow> 0 < unat c))"
| "pc_ok y (Returned None) =
     is_chunking (unat (snd_maxChunkSize (sys_sender y))) (sys_msg y) (sys_out y)"
| "pc_ok y (Returned (Some e)) = True"

definition send_inv :: "sender \<Rightarrow> send_sys \<Rightarrow> bool" where
  "send_inv s0 y \<longleftrightarrow> sender_wf (sys_sender y)
     \<and> snd_maxChunkSize (sys_sender y) = snd_maxChunkSize s0
     \<and> snd_msgOverhead (sys_sender y) = snd_msgOverhead s0
     \<and> sys_size y = u32_of_len (sys_msg y)
     \<and> unat (snd_currentWindow (sys_sender y)) + sys_charged y
         \<le> unat (snd_currentWindow s0) + sys_credit y
     \<and> pc_ok y (sys_pc y)"

lemma send_inv_init: "sender_wf s0 \<Longrightarrow> send_inv s0 (sys_init s0)"
  by (simp add: send_inv_def sys_init_def u32_of_len_def)

lemma send_needed_cong:
  "snd_msgOverhead s = snd_msgOverhead t \<Longrightarrow> send_needed s = send_needed t"
  by (simp add: send_needed_def send_overhead_def fun_eq_iff)

lemma cut_ok_cong:
  "sys_msg y = sys_msg z \<Longrightarrow> sys_out y = sys_out z \<Longrightarrow>
   snd_maxChunkSize (sys_sender y) = snd_maxChunkSize (sys_sender z) \<Longrightarrow> cut_ok y = cut_ok z"
  by (simp add: cut_ok_def fun_eq_iff)

lemma cut_ok_len:
  assumes "cut_ok y d i"
  shows "length d \<le> MaxUint32"
proof -
  have "sys_msg y = concat (map fst (sys_out y)) @ d" and "length (sys_msg y) \<le> MaxUint32"
    using assms by (simp_all add: cut_ok_def chunk_prefix_def)
  then show ?thesis by simp
qed

lemma send_inv_Call:
  assumes "send_inv s0 y" and "sys_do (Call d) y = Some z"
  shows "send_inv s0 z"
  using assms
  by (auto simp: send_inv_def send_begin_def cut_ok_def chunk_prefix_def split: if_splits)

lemma send_inv_Load:
  assumes "send_inv s0 y" and "sys_do Load y = Some z"
  shows "send_inv s0 z"
  using assms
  by (auto simp: send_inv_def send_load_def Let_def cut_ok_def split: send_pc.splits if_splits)

lemma send_inv_Wake:
  assumes "send_inv s0 y" and "sys_do Wake y = Some z"
  shows "send_inv s0 z"
  using assms
  by (auto simp: send_inv_def sender_wf_def cut_ok_def split: send_pc.splits if_splits)

lemma send_inv_CtxDone:
  assumes "send_inv s0 y" and "sys_do CtxDone y = Some z"
  shows "send_inv s0 z"
  using assms by (auto simp: send_inv_def split: send_pc.splits option.splits)

lemma send_inv_CtxEnd:
  assumes "send_inv s0 y" and "sys_do (CtxEnd e) y = Some z"
  shows "send_inv s0 z"
proof -
  have z: "z = y\<lparr>sys_ctx := ctx_end e (sys_ctx y)\<rparr>"
    using assms(2) by simp
  have "pc_ok z (sys_pc y) = pc_ok y (sys_pc y)"
    by (cases "(z, sys_pc y)" rule: pc_ok.cases) (simp_all add: z cut_ok_def)
  then show ?thesis
    using assms(1) by (simp add: send_inv_def z)
qed

lemma send_inv_Cas:
  assumes inv: "send_inv s0 y" and "sys_do Cas y = Some z"
  shows "send_inv s0 z"
proof -
  let ?s = "sys_sender y"
  from assms obtain d i w where pc: "sys_pc y = AtCas d i w"
    by (auto split: send_pc.splits)
  with inv have ok: "cut_ok y d i" "send_needed ?s d i \<le> w" and wf: "sender_wf ?s"
    by (simp_all add: send_inv_def)
  note fits = send_chunk_fits [OF wf cut_ok_len [OF ok(1)] ok(2)]
  show ?thesis
  proof (cases "snd_currentWindow ?s = w")
    case False
    with assms pc ok show ?thesis
      by (auto simp: send_inv_def send_cas_def Let_def cut_ok_def)
  next
    case True
    let ?c = "send_chunkSz ?s d i w"
    let ?s' = "?s\<lparr>snd_currentWindow := w - send_overhead ?s i - ?c\<rparr>"
    have z: "z = y\<lparr>sys_sender := ?s', sys_pc := AtSend d i ?c,
        sys_charged := sys_charged y + (unat w - unat (snd_currentWindow ?s'))\<rparr>"
      using assms(2) pc True by (simp add: send_cas_def Let_def)
    have "cut_ok z d i"
      using ok(1) by (simp add: z cut_ok_def)
    moreover have "unat ?c \<le> length d" "unat ?c \<le> unat (snd_maxChunkSize ?s)"
      by (simp_all add: fits(1))
    moreover have "unat (snd_currentWindow ?s') \<le> unat w"
      by (simp add: fits(3))
    ultimately show ?thesis
      using inv True fits(4) by (auto simp: send_inv_def z sender_wf_def)
  qed
qed

lemma send_inv_SendFunc:
  assumes inv: "send_inv s0 y" and "sys_do (SendFunc res) y = Some z"
  shows "send_inv s0 z"
proof -
  let ?mx = "unat (snd_maxChunkSize (sys_sender y))"
  from assms obtain d i c where pc: "sys_pc y = AtSend d i c"
    by (auto split: send_pc.splits)
  with inv have ok: "cut_ok y d i" and c: "unat c \<le> length d" "unat c \<le> ?mx"
    "d \<noteq> [] \<longrightarrow> 0 < unat c" and sz: "sys_size y = u32_of_len (sys_msg y)"
    by (auto simp: send_inv_def)
  show ?thesis
  proof (cases res)
    case (Some e)
    with assms pc show ?thesis by (auto simp: send_inv_def send_after_def)
  next
    case None
    let ?out = "sys_out y @ [(take (unat c) d, sys_size y, i = 0)]"
    have nonempty: "sys_msg y \<noteq> [] \<Longrightarrow> d \<noteq> []"
      using ok by (auto simp: cut_ok_def chunk_prefix_def)
    have cp: "chunk_prefix ?mx (sys_msg y) ?out (drop (unat c) d)"
      unfolding sz using ok c nonempty
      by (intro chunk_prefix_snoc) (auto simp: cut_ok_def)
    have last: "(c = u32_of_len d) = (unat c = length d)"
      using cut_ok_len [OF ok] by (simp add: unat_eq_iff_word unat_u32_of_len)
    have z: "z = y\<lparr>sys_pc := send_after d i c None, sys_out := ?out\<rparr>"
      using assms(2) pc None by simp
    show ?thesis
    proof (cases "unat c = length d")
      case True
      moreover have "sys_msg y = [] \<Longrightarrow> sys_out y = []"
        using ok by (auto simp: cut_ok_def chunk_prefix_def)
      ultimately show ?thesis
        using inv cp last by (simp add: send_inv_def z send_after_def is_chunking_def)
    next
      case False
      then have "cut_ok z (drop (unat c) d) (i + 1)"
        using ok c cp by (simp add: z cut_ok_def)
      with False show ?thesis
        using inv last by (simp add: send_inv_def z send_after_def)
    qed
  qed
qed

lemma send_inv_UpdAdd:
  assumes inv: "send_inv s0 y" and do: "sys_do (UpdAdd a) y = Some z"
  shows "send_inv s0 z"
proof (cases "a = 0")
  case True
  with assms show ?thesis by simp
next
  case False
  let ?s = "sys_sender y" and ?s' = "(sys_sender y)\<lparr>snd_currentWindow := snd_currentWindow (sys_sender y) + a\<rparr>"
  have z: "z = y\<lparr>sys_sender := ?s', sys_upd := sys_upd y @ [snd_currentWindow ?s],
      sys_credit := sys_credit y + unat a\<rparr>"
    using do False by (simp add: updateWindow_add_def Let_def)
  have wf: "sender_wf ?s" and ok: "pc_ok y (sys_pc y)"
    using inv by (simp_all add: send_inv_def)
  have need: "send_needed ?s' = send_needed ?s"
    by (rule send_needed_cong) simp
  have cut: "cut_ok z = cut_ok y"
    by (rule cut_ok_cong) (simp_all add: z)
  have "pc_ok z (sys_pc y)"
  proof (cases "\<exists>d i. sys_pc y = AtSelect d i")
    case True
    then obtain d i where pc: "sys_pc y = AtSelect d i" by blast
    with ok have "cut_ok y d i" by simp
    note low = send_needed_le_overhead [OF wf cut_ok_len [OF this]]
    show ?thesis
      using ok low [of "snd_currentWindow ?s" i] by (auto simp: pc z need cut [unfolded z] not_le)
  next
    case False
    then show ?thesis
      using ok by (cases "(z, sys_pc y)" rule: pc_ok.cases) (simp_all add: z need cut [unfolded z])
  qed
  moreover have "unat (snd_currentWindow ?s + a) \<le> unat (snd_currentWindow ?s) + unat a"
    by (simp add: unat_word_ariths)
  ultimately show ?thesis
    using inv by (auto simp: send_inv_def z sender_wf_def)
qed

lemma send_inv_UpdSignal:
  assumes inv: "send_inv s0 y" and do: "sys_do (UpdSignal p) y = Some z"
  shows "send_inv s0 z"
proof -
  let ?s' = "updateWindow_signal p (sys_sender y)"
  have z: "z = y\<lparr>sys_sender := ?s', sys_upd := remove1 p (sys_upd y)\<rparr>"
    using do by (simp split: if_splits)
  have fields: "snd_maxChunkSize ?s' = snd_maxChunkSize (sys_sender y)"
    "snd_msgOverhead ?s' = snd_msgOverhead (sys_sender y)"
    "snd_currentWindow ?s' = snd_currentWindow (sys_sender y)"
    "snd_windowUpdates ?s' = (snd_windowUpdates (sys_sender y) \<or> p \<le> snd_msgOverhead (sys_sender y))"
    by (auto simp: updateWindow_signal_def)
  have need: "send_needed ?s' = send_needed (sys_sender y)"
    by (rule send_needed_cong) (simp add: fields)
  have cut: "cut_ok z = cut_ok y"
    by (rule cut_ok_cong) (simp_all add: z fields)
  have ok: "pc_ok y (sys_pc y)"
    using inv by (simp add: send_inv_def)
  have keep: "q \<in> set (sys_upd y) \<Longrightarrow> q = p \<or> q \<in> set (remove1 p (sys_upd y))" for q
    by (cases "q = p") (simp_all add: in_set_remove1)
  have "pc_ok z (sys_pc y)"
    using ok keep
    by (cases "(z, sys_pc y)" rule: pc_ok.cases)
       (auto simp: z need cut [unfolded z] fields)
  then show ?thesis
    using inv by (auto simp: send_inv_def z sender_wf_def fields)
qed

lemmas send_inv_steps =
  send_inv_Call send_inv_Load send_inv_Wake send_inv_CtxDone send_inv_CtxEnd send_inv_Cas
  send_inv_SendFunc send_inv_UpdAdd send_inv_UpdSignal

lemma send_inv_step: "send_inv s0 y \<Longrightarrow> sys_do a y = Some z \<Longrightarrow> send_inv s0 z"
  by (cases a; hypsubst; erule (1) send_inv_steps)

lemma send_reach_inv: "send_reach s0 y \<Longrightarrow> sender_wf s0 \<Longrightarrow> send_inv s0 y"
  by (induction rule: send_reach.induct) (auto intro: send_inv_init send_inv_step)

subsection \<open>Steps of a call and its sender\<close>

text \<open>The operations that belong to the call of \<^verbatim>\<open>send\<close> itself.\<close>

fun send_own :: "send_act \<Rightarrow> bool" where
  "send_own Load = True"
| "send_own Wake = True"
| "send_own CtxDone = True"
| "send_own Cas = True"
| "send_own (SendFunc res) = True"
| "send_own _ = False"

lemma updateWindow_wf [simp]: "sender_wf (updateWindow a s) = sender_wf s"
  by (simp add: sender_wf_def updateWindow_def updateWindow_add_def updateWindow_signal_def Let_def)

lemma sys_do_wf:
  "sys_do a y = Some z \<Longrightarrow> sender_wf (sys_sender z) = sender_wf (sys_sender y)"
  by (cases a) (auto simp: sender_wf_def send_cas_def updateWindow_add_def updateWindow_signal_def Let_def
      split: send_pc.splits if_splits option.splits prod.splits)

end
