(* ===== verification/Receiver.thy ===== *)
theory Receiver
  imports Wire
begin

text \<open>
  The receiving half of flow control (\<^verbatim>\<open>type receiver\<close> in \<^verbatim>\<open>flow_control.go\<close>): a queue of frames whose
  total charge is bounded by the window, and the acknowledgements that give the window back.
  Every operation runs under the receiver's mutex, so it is one state transformer. The generic
  \<^verbatim>\<open>measure\<close> closure is a parameter. \<^verbatim>\<open>rcv_waiting\<close> is the goroutine parked in \<^verbatim>\<open>cond.Wait\<close> (callers
  hold \<^verbatim>\<open>readMu\<close>, so there is at most one); \<^verbatim>\<open>Signal\<close> and \<^verbatim>\<open>Broadcast\<close> clear it. The contract of the
  queue is the locale \<open>credit_queue\<close>, interpreted on these operations.
\<close>

record 'a receiver =
  rcv_minUpdateSize :: u32
  rcv_msgOverhead :: u32
  rcv_closed :: bool
  rcv_cancelled :: bool
  rcv_items :: "'a list"
  rcv_currentWindow :: u32
  rcv_windowUpdate :: u32
  rcv_waiting :: bool

type_synonym 'a measure = "'a \<Rightarrow> nat \<times> bool"

definition errFlowControlWindowExceeded :: gerror where
  "errFlowControlWindowExceeded = Errorf ResourceExhausted ''flow control window exceeded'' []"

definition newReceiver :: "u32 \<Rightarrow> u32 \<Rightarrow> u32 \<Rightarrow> 'a receiver" where
  "newReceiver initialWindow minUpdate msgOverhead =
     (let minUpdate' = (if minUpdate > initialWindow then initialWindow else minUpdate)
      in \<lparr>rcv_minUpdateSize = minUpdate', rcv_msgOverhead = msgOverhead, rcv_closed = False,
          rcv_cancelled = False, rcv_items = [], rcv_currentWindow = initialWindow,
          rcv_windowUpdate = 0, rcv_waiting = False\<rparr>)"

definition charge :: "'a measure \<Rightarrow> 'a receiver \<Rightarrow> 'a \<Rightarrow> nat" where
  "charge meas r item =
     (case meas item of (sz, msgStart) \<Rightarrow>
        if msgStart then sz + unat (rcv_msgOverhead r) else sz)"

definition accept :: "'a measure \<Rightarrow> 'a \<Rightarrow> 'a receiver \<Rightarrow> gerror option \<times> 'a receiver" where
  "accept meas item r =
     (let sz = charge meas r item
      in if rcv_closed r then (None, r)
         else if sz > unat (rcv_currentWindow r) then (Some errFlowControlWindowExceeded, r)
         else let signal = (rcv_items r = []);
                  r' = r\<lparr>rcv_currentWindow := rcv_currentWindow r - word_of_nat sz,
                         rcv_items := rcv_items r @ [item]\<rparr>
              in (None, if signal then r'\<lparr>rcv_waiting := False\<rparr> else r'))"

text \<open>\<^verbatim>\<open>handleClosure\<close> sets the flag its pointer argument names.\<close>

datatype closure_flag = FlagClosed | FlagCancelled

fun closure_flag_val :: "closure_flag \<Rightarrow> 'a receiver \<Rightarrow> bool" where
  "closure_flag_val FlagClosed r = rcv_closed r"
| "closure_flag_val FlagCancelled r = rcv_cancelled r"

fun closure_flag_set :: "closure_flag \<Rightarrow> 'a receiver \<Rightarrow> 'a receiver" where
  "closure_flag_set FlagClosed r = r\<lparr>rcv_closed := True\<rparr>"
| "closure_flag_set FlagCancelled r = r\<lparr>rcv_cancelled := True\<rparr>"

definition handleClosure :: "closure_flag \<Rightarrow> 'a receiver \<Rightarrow> 'a receiver" where
  "handleClosure b r =
     (if closure_flag_val b r then r
      else let r' = closure_flag_set b r
           in if rcv_items r' = [] then r'\<lparr>rcv_waiting := False\<rparr> else r')"

definition close_receiver :: "'a receiver \<Rightarrow> 'a receiver" where
  "close_receiver r = handleClosure FlagClosed r"

definition cancel_receiver :: "'a receiver \<Rightarrow> 'a receiver" where
  "cancel_receiver r = (handleClosure FlagCancelled r)\<lparr>rcv_items := []\<rparr>"

text \<open>
  One pass of the loop of \<^verbatim>\<open>dequeue\<close>: an item with the size of the window update that the deferred
  function sends once the mutex is released (0: none), the end of the queue, or a wait on the
  condition variable, after which the pass is run again.
\<close>

datatype 'a deq = DeqItem 'a u32 | DeqEnd | DeqWait

definition ack_due :: "'a receiver \<Rightarrow> u32 \<Rightarrow> bool" where
  "ack_due r newWindowUpdate \<longleftrightarrow> newWindowUpdate \<ge> rcv_minUpdateSize r
     \<or> (rcv_msgOverhead r > 0 \<and> newWindowUpdate > 0 \<and> rcv_currentWindow r \<le> rcv_msgOverhead r)"

definition dequeue :: "'a measure \<Rightarrow> 'a receiver \<Rightarrow> 'a deq \<times> 'a receiver" where
  "dequeue meas r =
     (if rcv_cancelled r then (DeqEnd, r)
      else case rcv_items r of
        item # rest \<Rightarrow>
          (let sz = charge meas r item;
               newWindowUpdate = rcv_windowUpdate r + word_of_nat sz;
               r1 = r\<lparr>rcv_items := rest\<rparr>
           in if ack_due r newWindowUpdate
              then (DeqItem item newWindowUpdate,
                    r1\<lparr>rcv_currentWindow := rcv_currentWindow r + newWindowUpdate,
                       rcv_windowUpdate := 0\<rparr>)
              else (DeqItem item 0, r1\<lparr>rcv_windowUpdate := newWindowUpdate\<rparr>))
      | [] \<Rightarrow> if rcv_closed r then (DeqEnd, r) else (DeqWait, r\<lparr>rcv_waiting := True\<rparr>))"

lemmas receiver_ops [go_defs] =
  accept_def handleClosure_def close_receiver_def cancel_receiver_def dequeue_def ack_due_def

lemma newReceiver_fields [simp]:
  "rcv_minUpdateSize (newReceiver w u v) = min u w" "rcv_msgOverhead (newReceiver w u v) = v"
  "rcv_closed (newReceiver w u v) = False" "rcv_cancelled (newReceiver w u v) = False"
  "rcv_items (newReceiver w u v) = []" "rcv_currentWindow (newReceiver w u v) = w"
  "rcv_windowUpdate (newReceiver w u v) = 0" "rcv_waiting (newReceiver w u v) = False"
  by (auto simp: newReceiver_def Let_def min_def)

lemma charge_cong: "rcv_msgOverhead r = rcv_msgOverhead r' \<Longrightarrow> charge m r = charge m r'"
  by (simp add: charge_def fun_eq_iff split: prod.split)

lemma charge_update [simp]:
  "charge m (r\<lparr>rcv_closed := a\<rparr>) = charge m r"
  "charge m (r\<lparr>rcv_cancelled := a\<rparr>) = charge m r"
  "charge m (r\<lparr>rcv_items := is\<rparr>) = charge m r"
  "charge m (r\<lparr>rcv_currentWindow := w\<rparr>) = charge m r"
  "charge m (r\<lparr>rcv_windowUpdate := w\<rparr>) = charge m r"
  "charge m (r\<lparr>rcv_waiting := a\<rparr>) = charge m r"
  by (rule charge_cong, simp)+

subsection \<open>Invariant\<close>

definition queued :: "'a measure \<Rightarrow> 'a receiver \<Rightarrow> nat" where
  "queued m r = (\<Sum>x\<leftarrow>rcv_items r. charge m r x)"

text \<open>
  \<open>W\<close> is the initial window. Window, queued charge and unacknowledged bytes add up to \<open>W\<close> (an
  upper bound once the queue was dropped by \<^verbatim>\<open>cancel\<close>); an empty queue leaves room for the
  overhead and one byte; nobody waits while there is something to take or the queue has ended.
\<close>

definition recv_inv :: "'a measure \<Rightarrow> nat \<Rightarrow> 'a receiver \<Rightarrow> bool" where
  "recv_inv m W r \<longleftrightarrow>
     W < 2 ^ 32 \<and> unat (rcv_msgOverhead r) < W \<and> unat (rcv_minUpdateSize r) \<le> W
     \<and> unat (rcv_currentWindow r) + queued m r + unat (rcv_windowUpdate r) \<le> W
     \<and> (\<not> rcv_cancelled r \<longrightarrow>
          unat (rcv_currentWindow r) + queued m r + unat (rcv_windowUpdate r) = W)
     \<and> (rcv_windowUpdate r < rcv_minUpdateSize r \<or> rcv_windowUpdate r = 0)
     \<and> (\<not> rcv_cancelled r \<and> rcv_items r = [] \<longrightarrow> rcv_msgOverhead r < rcv_currentWindow r)
     \<and> (rcv_waiting r \<longrightarrow> rcv_items r = [] \<and> \<not> rcv_closed r \<and> \<not> rcv_cancelled r)"

lemma recv_inv_new:
  "v < w \<Longrightarrow> recv_inv m (unat w) (newReceiver w u v)"
  by (auto simp: recv_inv_def queued_def word_less_nat_alt unat_min_word)

lemma accept_cases [case_names closed exceeded queued]:
  obtains "rcv_closed r" "accept m x r = (None, r)"
  | "\<not> rcv_closed r" "unat (rcv_currentWindow r) < charge m r x"
    "accept m x r = (Some errFlowControlWindowExceeded, r)"
  | "\<not> rcv_closed r" "charge m r x \<le> unat (rcv_currentWindow r)"
    "accept m x r = (None, r\<lparr>rcv_currentWindow := rcv_currentWindow r - word_of_nat (charge m r x),
       rcv_items := rcv_items r @ [x],
       rcv_waiting := (rcv_waiting r \<and> rcv_items r \<noteq> [])\<rparr>)"
  by (cases "rcv_closed r"; cases "unat (rcv_currentWindow r) < charge m r x")
     (auto simp: accept_def Let_def)

lemma unat_window_minus_charge:
  "n \<le> unat (w :: u32) \<Longrightarrow> unat (w - word_of_nat n) = unat w - n"
  using le_less_trans [OF _ unat_u32_less, of n w]
  by (simp add: unat_sub word_le_nat_alt unat_of_nat_u32)

lemma recv_inv_accept: "recv_inv m W r \<Longrightarrow> recv_inv m W (snd (accept m x r))"
  by (cases rule: accept_cases [where r = r and m = m and x = x])
     (auto simp: recv_inv_def queued_def unat_window_minus_charge)

lemma recv_inv_handleClosure: "recv_inv m W r \<Longrightarrow> recv_inv m W (handleClosure b r)"
  by (cases b) (auto simp: handleClosure_def Let_def recv_inv_def queued_def)

lemma recv_inv_close: "recv_inv m W r \<Longrightarrow> recv_inv m W (close_receiver r)"
  by (simp add: close_receiver_def recv_inv_handleClosure)

lemma recv_inv_cancel: "recv_inv m W r \<Longrightarrow> recv_inv m W (cancel_receiver r)"
  by (auto simp: cancel_receiver_def handleClosure_def Let_def recv_inv_def queued_def)

lemma dequeue_cases [case_names ended waits acks keeps]:
  obtains "rcv_cancelled r \<or> (rcv_items r = [] \<and> rcv_closed r)" "dequeue m r = (DeqEnd, r)"
  | "\<not> rcv_cancelled r" "rcv_items r = []" "\<not> rcv_closed r"
    "dequeue m r = (DeqWait, r\<lparr>rcv_waiting := True\<rparr>)"
  | x rest u where "\<not> rcv_cancelled r" "rcv_items r = x # rest"
    "u = rcv_windowUpdate r + word_of_nat (charge m r x)" "ack_due r u"
    "dequeue m r = (DeqItem x u, r\<lparr>rcv_items := rest,
       rcv_currentWindow := rcv_currentWindow r + u, rcv_windowUpdate := 0\<rparr>)"
  | x rest u where "\<not> rcv_cancelled r" "rcv_items r = x # rest"
    "u = rcv_windowUpdate r + word_of_nat (charge m r x)" "\<not> ack_due r u"
    "dequeue m r = (DeqItem x 0, r\<lparr>rcv_items := rest, rcv_windowUpdate := u\<rparr>)"
  by (cases "rcv_cancelled r"; cases "rcv_items r"; cases "rcv_closed r")
     (auto simp: dequeue_def Let_def split: if_splits)

text \<open>The bytes to acknowledge never wrap around: they are part of the initial window.\<close>

lemma unat_new_windowUpdate:
  assumes "recv_inv m W r" and "rcv_items r = x # rest"
  shows "unat (rcv_windowUpdate r + word_of_nat (charge m r x)) =
           unat (rcv_windowUpdate r) + charge m r x"
    and "unat (rcv_currentWindow r) + (unat (rcv_windowUpdate r) + charge m r x) < 4294967296"
  using assms by (auto simp: recv_inv_def queued_def unat_add_no_wrap unat_of_nat_u32)

lemma recv_inv_dequeue:
  assumes inv: "recv_inv m W r"
  shows "recv_inv m W (snd (dequeue m r))"
proof (cases rule: dequeue_cases [where r = r and m = m])
  case ended
  then show ?thesis using inv by simp
next
  case waits
  then show ?thesis using inv by (simp add: recv_inv_def queued_def)
next
  case (acks x rest u)
  note u = unat_new_windowUpdate [OF inv acks(2)]
  have "unat (rcv_currentWindow r + u) = unat (rcv_currentWindow r) + unat u"
    using u acks(3) by (simp add: unat_add_no_wrap)
  then show ?thesis
    using inv acks u
    by (auto simp: recv_inv_def queued_def ack_due_def word_less_nat_alt word_le_nat_alt)
next
  case (keeps x rest u)
  note u = unat_new_windowUpdate [OF inv keeps(2)]
  show ?thesis
    using inv keeps u
    by (auto simp: recv_inv_def queued_def ack_due_def word_less_nat_alt word_le_nat_alt)
qed

subsection \<open>The contract of the queue\<close>

text \<open>The charge of a frame for a given per-message overhead.\<close>

definition frame_cost :: "'a measure \<Rightarrow> u32 \<Rightarrow> 'a \<Rightarrow> nat" where
  "frame_cost m v x = fst (m x) + (if snd (m x) then unat v else 0)"

lemma charge_frame_cost: "charge m r = frame_cost m (rcv_msgOverhead r)"
  by (simp add: charge_def frame_cost_def fun_eq_iff split: prod.split)

datatype 'a qop = Put 'a | Take

text \<open>
  A sequence of queue operations, with the frames that were accepted, the frames that were taken
  and the final queue.
\<close>

fun queue_run :: "('a \<Rightarrow> 'q \<Rightarrow> gerror option \<times> 'q) \<Rightarrow> ('q \<Rightarrow> 'a deq \<times> 'q) \<Rightarrow> 'a qop list \<Rightarrow> 'q
    \<Rightarrow> 'a list \<times> 'a list \<times> 'q" where
  "queue_run put get [] q = ([], [], q)"
| "queue_run put get (Put x # ops) q =
     (case put x q of (e, q') \<Rightarrow> case queue_run put get ops q' of (ins, outs, q'') \<Rightarrow>
        (if e = None then (x # ins, outs, q'') else (ins, outs, q'')))"
| "queue_run put get (Take # ops) q =
     (case get q of (d, q') \<Rightarrow> case queue_run put get ops q' of (ins, outs, q'') \<Rightarrow>
        (case d of DeqItem x u \<Rightarrow> (ins, x # outs, q'') | _ \<Rightarrow> (ins, outs, q'')))"

text \<open>
  What a stream relies on while the queue is neither closed nor cancelled: frames come out in the
  order they went in, a frame that does not fit is refused and changes nothing, and the queue
  never holds more than the initial window \<open>W\<close> accounts for.
\<close>

locale credit_queue =
  fixes put :: "'a \<Rightarrow> 'q \<Rightarrow> gerror option \<times> 'q"
    and get :: "'q \<Rightarrow> 'a deq \<times> 'q"
    and cost :: "'a \<Rightarrow> nat"
    and contents :: "'q \<Rightarrow> 'a list"
    and credit :: "'q \<Rightarrow> nat"
    and invar :: "nat \<Rightarrow> 'q \<Rightarrow> bool"
  assumes put_fits: "invar W q \<Longrightarrow> cost x \<le> credit q \<Longrightarrow>
      fst (put x q) = None \<and> contents (snd (put x q)) = contents q @ [x]
      \<and> credit (snd (put x q)) = credit q - cost x"
    and put_exceeds: "invar W q \<Longrightarrow> credit q < cost x \<Longrightarrow>
      put x q = (Some errFlowControlWindowExceeded, q)"
    and take_Cons: "invar W q \<Longrightarrow> contents q = x # xs \<Longrightarrow>
      \<exists>u. fst (get q) = DeqItem x u \<and> contents (snd (get q)) = xs
        \<and> credit (snd (get q)) = credit q + unat u"
    and take_Nil: "invar W q \<Longrightarrow> contents q = [] \<Longrightarrow>
      fst (get q) = DeqWait \<and> contents (snd (get q)) = []"
    and invar_put: "invar W q \<Longrightarrow> invar W (snd (put x q))"
    and invar_take: "invar W q \<Longrightarrow> invar W (snd (get q))"
    and bounded: "invar W q \<Longrightarrow> credit q + (\<Sum>x\<leftarrow>contents q. cost x) \<le> W"
begin

lemma run_invar: "invar W q \<Longrightarrow> queue_run put get ops q = (ins, outs, q') \<Longrightarrow> invar W q'"
proof (induction ops arbitrary: q ins outs)
  case Nil
  then show ?case by simp
next
  case (Cons a ops)
  show ?case
  proof (cases a)
    case (Put x)
    with Cons show ?thesis
      using invar_put [of W q x] by (auto split: prod.splits if_splits)
  next
    case Take
    with Cons show ?thesis
      using invar_take [of W q] by (auto split: prod.splits deq.splits)
  qed
qed

lemma run_fifo:
  "invar W q \<Longrightarrow> queue_run put get ops q = (ins, outs, q') \<Longrightarrow>
   contents q @ ins = outs @ contents q'"
proof (induction ops arbitrary: q ins outs q')
  case Nil
  then show ?case by simp
next
  case (Cons a ops)
  show ?case
  proof (cases a)
    case (Put x)
    obtain i o' q'' where run: "queue_run put get ops (snd (put x q)) = (i, o', q'')"
      by (metis prod_cases3)
    have IH: "contents (snd (put x q)) @ i = o' @ contents q''"
      using Cons.IH [OF invar_put run] Cons.prems(1) by simp
    show ?thesis
      using Cons.prems Put run IH put_fits [OF Cons.prems(1), of x] put_exceeds [OF Cons.prems(1), of x]
      by (cases "cost x \<le> credit q") (auto split: prod.splits if_splits)
  next
    case Take
    obtain i o' q'' where run: "queue_run put get ops (snd (get q)) = (i, o', q'')"
      by (metis prod_cases3)
    have IH: "contents (snd (get q)) @ i = o' @ contents q''"
      using Cons.IH [OF invar_take run] Cons.prems(1) by simp
    show ?thesis
      using Cons.prems Take run IH take_Nil [OF Cons.prems(1)] take_Cons [OF Cons.prems(1)]
      by (cases "contents q") (fastforce split: prod.splits)+
  qed
qed

lemma run_bounded:
  "invar W q \<Longrightarrow> queue_run put get ops q = (ins, outs, q') \<Longrightarrow>
   (\<Sum>x\<leftarrow>contents q'. cost x) \<le> W"
  using bounded run_invar add_leE by blast

end

definition recv_open :: "'a measure \<Rightarrow> u32 \<Rightarrow> nat \<Rightarrow> 'a receiver \<Rightarrow> bool" where
  "recv_open m v W r \<longleftrightarrow> recv_inv m W r \<and> \<not> rcv_closed r \<and> \<not> rcv_cancelled r
     \<and> rcv_msgOverhead r = v"

lemma recv_open_accept: "recv_open m v W r \<Longrightarrow> recv_open m v W (snd (accept m x r))"
  using recv_inv_accept [of m W r x]
  by (cases rule: accept_cases [where r = r and m = m and x = x]) (auto simp: recv_open_def)

lemma recv_open_dequeue: "recv_open m v W r \<Longrightarrow> recv_open m v W (snd (dequeue m r))"
  using recv_inv_dequeue [of m W r]
  by (cases rule: dequeue_cases [where r = r and m = m]) (auto simp: recv_open_def)

lemma dequeue_credit:
  assumes "recv_inv m W r" and "\<not> rcv_cancelled r" and "rcv_items r = x # xs"
  shows "\<exists>u. fst (dequeue m r) = DeqItem x u \<and> rcv_items (snd (dequeue m r)) = xs
    \<and> unat (rcv_currentWindow (snd (dequeue m r))) = unat (rcv_currentWindow r) + unat u"
proof (cases rule: dequeue_cases [where r = r and m = m])
  case (acks y rest u)
  then show ?thesis
    using assms unat_new_windowUpdate [OF assms(1,3)] by (auto simp: unat_add_no_wrap)
qed (use assms in auto)

interpretation rq: credit_queue "accept m" "dequeue m" "frame_cost m v" rcv_items
    "\<lambda>r. unat (rcv_currentWindow r)" "recv_open m v" for m :: "'a measure" and v
proof unfold_locales
  fix W q x and xs :: "'a list"
  assume inv: "recv_open m v W q"
  then have q: "recv_inv m W q" "\<not> rcv_closed q" "\<not> rcv_cancelled q" "charge m q = frame_cost m v"
    by (auto simp: recv_open_def charge_frame_cost)
  show "frame_cost m v x \<le> unat (rcv_currentWindow q) \<Longrightarrow> fst (accept m x q) = None \<and>
      rcv_items (snd (accept m x q)) = rcv_items q @ [x] \<and>
      unat (rcv_currentWindow (snd (accept m x q))) = unat (rcv_currentWindow q) - frame_cost m v x"
    using q by (simp add: accept_def Let_def unat_window_minus_charge)
  show "unat (rcv_currentWindow q) < frame_cost m v x \<Longrightarrow>
      accept m x q = (Some errFlowControlWindowExceeded, q)"
    using q by (simp add: accept_def)
  show "rcv_items q = x # xs \<Longrightarrow> \<exists>u. fst (dequeue m q) = DeqItem x u \<and>
      rcv_items (snd (dequeue m q)) = xs \<and> unat (rcv_currentWindow (snd (dequeue m q))) =
      unat (rcv_currentWindow q) + unat u"
    using dequeue_credit [OF q(1,3)] by blast
  show "rcv_items q = [] \<Longrightarrow> fst (dequeue m q) = DeqWait \<and> rcv_items (snd (dequeue m q)) = []"
    using q by (simp add: dequeue_def)
  show "recv_open m v W (snd (accept m x q))" "recv_open m v W (snd (dequeue m q))"
    using inv by (rule recv_open_accept, rule recv_open_dequeue)
  show "unat (rcv_currentWindow q) + (\<Sum>x\<leftarrow>rcv_items q. frame_cost m v x) \<le> W"
    using q by (auto simp: recv_inv_def queued_def)
qed

subsection \<open>Flags\<close>

lemma close_receiver_fields [simp]:
  "rcv_closed (close_receiver r)" "rcv_cancelled (close_receiver r) = rcv_cancelled r"
  "rcv_items (close_receiver r) = rcv_items r"
  by (auto simp: close_receiver_def handleClosure_def Let_def)

lemma cancel_receiver_fields [simp]:
  "rcv_cancelled (cancel_receiver r)" "rcv_closed (cancel_receiver r) = rcv_closed r"
  "rcv_items (cancel_receiver r) = []"
  by (auto simp: cancel_receiver_def handleClosure_def Let_def)

lemma accept_flags:
  "rcv_closed (snd (accept m x r)) = rcv_closed r" "rcv_cancelled (snd (accept m x r)) = rcv_cancelled r"
  by (cases rule: accept_cases [where r = r and m = m and x = x]; simp)+

lemma recv_inv_dequeue_eq:
  "dequeue m r = (d, r') \<Longrightarrow> recv_inv m W r \<Longrightarrow> recv_inv m W r'"
  using recv_inv_dequeue [of m W r] by simp

end
