(* ===== verification/Flow_Link.thy ===== *)
theory Flow_Link
  imports Sender Receiver
begin

text \<open>
  One direction of a stream, end to end: a sender, the frames in flight on the tunnel, the
  receiver at the other end and the window updates on their way back. The two ends agree on the
  initial window (the receiver announces it in Settings or NewStream) and on the per-message
  overhead (it follows from the protocol revision of the stream). The tunnel is a gRPC stream:
  frames and updates arrive in the order they were sent. \<open>link_do\<close> performs one atomic operation of
  either end or of the tunnel.

  Shown for every interleaving: an honest sender never exceeds the window; the window is conserved;
  frames are read in the order they were sent; there is no deadlock; and every run is finite until
  the next call of \<^verbatim>\<open>send\<close>, ending with everything sent and read. The lemmas are proved once from the
  law of \<open>framing\<close> and hold for requests (\<open>req\<close>) and responses (\<open>resp\<close>).
\<close>

record 'f link =
  lk_snd :: send_sys
  lk_data :: "'f list"
  lk_rcv :: "'f receiver"
  lk_ack :: "u32 list"
  lk_err :: "gerror option"
  lk_all :: "'f list"
  lk_read :: "'f list"

definition link_init :: "u32 \<Rightarrow> u32 \<Rightarrow> u32 \<Rightarrow> u32 \<Rightarrow> 'f link" where
  "link_init w maxChunk minUpdate overhead =
     \<lparr>lk_snd = sys_init (newSender w maxChunk overhead), lk_data = [],
      lk_rcv = newReceiver w minUpdate overhead, lk_ack = [], lk_err = None,
      lk_all = [], lk_read = []\<rparr>"

text \<open>\<open>LLoad\<close>, \<open>LWake\<close>, \<open>LCas\<close> and \<open>LSend\<close> are steps of \<^verbatim>\<open>send\<close>; \<open>LAck\<close> and \<open>LSignal\<close> the two
  steps of \<^verbatim>\<open>updateWindow\<close>; \<open>LDeliver\<close> is \<^verbatim>\<open>accept\<close> on the next frame of the tunnel; \<open>LDequeue\<close> a
  consumer taking a frame (it is not enabled while \<^verbatim>\<open>dequeue\<close> would wait).\<close>

datatype link_act = LLoad | LWake | LCas | LSend | LSignal u32 | LDeliver | LDequeue | LAck

definition link_snd :: "send_act \<Rightarrow> 'f link \<Rightarrow> 'f link option" where
  "link_snd a y = map_option (\<lambda>s. y\<lparr>lk_snd := s\<rparr>) (sys_do a (lk_snd y))"

definition outgoing :: "(bytes \<Rightarrow> u32 \<Rightarrow> bool \<Rightarrow> 'f) \<Rightarrow> send_sys \<Rightarrow> 'f list" where
  "outgoing fr s =
     (case sys_pc s of AtSend d i c \<Rightarrow> [fr (take (unat c) d) (sys_size s) (i = 0)] | _ \<Rightarrow> [])"

fun link_do :: "(bytes \<Rightarrow> u32 \<Rightarrow> bool \<Rightarrow> 'f) \<Rightarrow> 'f measure \<Rightarrow> link_act \<Rightarrow> 'f link \<Rightarrow> 'f link option" where
  "link_do fr m LLoad y = link_snd Load y"
| "link_do fr m LWake y = link_snd Wake y"
| "link_do fr m LCas y = link_snd Cas y"
| "link_do fr m LSend y =
     map_option (\<lambda>z. z\<lparr>lk_data := lk_data y @ outgoing fr (lk_snd y),
                       lk_all := lk_all y @ outgoing fr (lk_snd y)\<rparr>)
       (link_snd (SendFunc None) y)"
| "link_do fr m (LSignal p) y = link_snd (UpdSignal p) y"
| "link_do fr m LDeliver y =
     (case lk_data y of
        [] \<Rightarrow> None
      | f # fs \<Rightarrow> (case accept m f (lk_rcv y) of (e, r) \<Rightarrow>
          Some (y\<lparr>lk_data := fs, lk_rcv := r, lk_err := (if e = None then lk_err y else e)\<rparr>)))"
| "link_do fr m LDequeue y =
     (case dequeue m (lk_rcv y) of
        (DeqItem x u, r) \<Rightarrow>
          Some (y\<lparr>lk_rcv := r, lk_read := lk_read y @ [x],
                  lk_ack := (if u > 0 then lk_ack y @ [u] else lk_ack y)\<rparr>)
      | _ \<Rightarrow> None)"
| "link_do fr m LAck y =
     (case lk_ack y of
        [] \<Rightarrow> None
      | a # as \<Rightarrow> link_snd (UpdAdd a) (y\<lparr>lk_ack := as\<rparr>))"

fun link_run :: "(bytes \<Rightarrow> u32 \<Rightarrow> bool \<Rightarrow> 'f) \<Rightarrow> 'f measure \<Rightarrow> link_act list \<Rightarrow> 'f link \<Rightarrow> 'f link option" where
  "link_run fr m [] y = Some y"
| "link_run fr m (a # as) y =
     (case link_do fr m a y of None \<Rightarrow> None | Some z \<Rightarrow> link_run fr m as z)"

text \<open>Reachable states: any number of messages, any interleaving.\<close>

inductive link_reach :: "(bytes \<Rightarrow> u32 \<Rightarrow> bool \<Rightarrow> 'f) \<Rightarrow> 'f measure \<Rightarrow> 'f link \<Rightarrow> 'f link \<Rightarrow> bool"
  for fr m y0 where
  start: "link_reach fr m y0 y0"
| call: "link_reach fr m y0 y \<Longrightarrow> link_snd (Call d) y = Some z \<Longrightarrow> link_reach fr m y0 z"
| step: "link_reach fr m y0 y \<Longrightarrow> link_do fr m a y = Some z \<Longrightarrow> link_reach fr m y0 z"

definition link_stuck :: "(bytes \<Rightarrow> u32 \<Rightarrow> bool \<Rightarrow> 'f) \<Rightarrow> 'f measure \<Rightarrow> 'f link \<Rightarrow> bool" where
  "link_stuck fr m y \<longleftrightarrow> (\<forall>a. link_do fr m a y = None)"

subsection \<open>Conservation of the window\<close>

definition reserved :: "send_sys \<Rightarrow> nat" where
  "reserved s = (case sys_pc s of
     AtSend d i c \<Rightarrow> unat (send_overhead (sys_sender s) i) + unat c | _ \<Rightarrow> 0)"

definition link_inv :: "'f measure \<Rightarrow> u32 \<Rightarrow> sender \<Rightarrow> 'f link \<Rightarrow> bool" where
  "link_inv m w s0 y \<longleftrightarrow> send_inv s0 (lk_snd y)
     \<and> recv_open m (snd_msgOverhead s0) (unat w) (lk_rcv y)
     \<and> unat (rcv_currentWindow (lk_rcv y)) =
         unat (snd_currentWindow (sys_sender (lk_snd y))) + reserved (lk_snd y)
         + (\<Sum>f\<leftarrow>lk_data y. frame_cost m (snd_msgOverhead s0) f) + (\<Sum>a\<leftarrow>lk_ack y. unat a)
     \<and> 0 \<notin> set (lk_ack y) \<and> lk_err y = None
     \<and> lk_all y = lk_read y @ rcv_items (lk_rcv y) @ lk_data y"

lemma link_inv_init:
  assumes "v < w" and "0 < mx"
  shows "link_inv m w (newSender w mx v) (link_init w mx mu v)"
proof -
  have "unat v < unat w" and "unat w < 4294967296"
    using assms(1) by (simp_all add: word_less_nat_alt)
  then have "unat v < 4294967295" "0 < unat w" by linarith+
  then have "v < 4294967295" "0 < w"
    by (simp_all add: word_less_nat_alt)
  then have "send_inv (newSender w mx v) (sys_init (newSender w mx v))"
    using assms by (intro send_inv_init sender_wf_newSender)
  moreover have "recv_open m v (unat w) (newReceiver w mu v)"
    using recv_inv_new [OF assms(1)] by (simp add: recv_open_def)
  ultimately show ?thesis
    by (simp add: link_inv_def link_init_def sys_init_def reserved_def)
qed

lemma link_inv_local:
  assumes inv: "link_inv m w s0 y" and "sys_do a (lk_snd y) = Some s'"
    and "unat (snd_currentWindow (sys_sender s')) + reserved s' =
         unat (snd_currentWindow (sys_sender (lk_snd y))) + reserved (lk_snd y)"
  shows "link_inv m w s0 (y\<lparr>lk_snd := s'\<rparr>)"
  using assms send_inv_step [of s0 "lk_snd y" a s'] by (simp add: link_inv_def)

lemma link_inv_Call:
  assumes "link_inv m w s0 y" and "link_snd (Call d) y = Some z"
  shows "link_inv m w s0 z"
  using assms
  by (auto simp: link_snd_def send_begin_def reserved_def intro!: link_inv_local [where a = "Call d"]
      split: if_splits send_pc.splits)

lemma link_inv_LLoad:
  assumes "link_inv m w s0 y" and "link_do fr m LLoad y = Some z"
  shows "link_inv m w s0 z"
  using assms
  by (auto simp: link_snd_def send_load_def Let_def reserved_def
      intro!: link_inv_local [where a = Load] split: if_splits send_pc.splits)

lemma link_inv_LWake:
  assumes "link_inv m w s0 y" and "link_do fr m LWake y = Some z"
  shows "link_inv m w s0 z"
  using assms
  by (auto simp: link_snd_def reserved_def
      intro!: link_inv_local [where a = Wake] split: if_splits send_pc.splits)

lemma link_inv_LSignal:
  assumes "link_inv m w s0 y" and "link_do fr m (LSignal p) y = Some z"
  shows "link_inv m w s0 z"
  using assms
  by (auto simp: link_snd_def reserved_def updateWindow_signal_def send_overhead_def
      intro!: link_inv_local [where a = "UpdSignal p"] split: if_splits send_pc.splits)

lemma reserved_Cas:
  assumes inv: "send_inv s0 s" and "sys_do Cas s = Some s'"
  shows "unat (snd_currentWindow (sys_sender s')) + reserved s' =
         unat (snd_currentWindow (sys_sender s)) + reserved s"
proof -
  obtain d i v where pc: "sys_pc s = AtCas d i v"
    using assms(2) by (auto split: send_pc.splits)
  then have ok: "cut_ok s d i" "send_needed (sys_sender s) d i \<le> v" "sender_wf (sys_sender s)"
    using inv by (simp_all add: send_inv_def)
  note fits = send_chunk_fits [OF ok(3) cut_ok_len [OF ok(1)] ok(2)]
  show ?thesis
  proof (cases "snd_currentWindow (sys_sender s) = v")
    case True
    then show ?thesis
      using assms(2) pc fits(2,3)
      by (auto simp: send_cas_def Let_def reserved_def send_overhead_def)
  next
    case False
    then show ?thesis
      using assms(2) pc by (auto simp: send_cas_def Let_def reserved_def)
  qed
qed

lemma link_inv_LCas:
  assumes inv: "link_inv m w s0 y" and "link_do fr m LCas y = Some z"
  shows "link_inv m w s0 z"
proof -
  obtain s' where s': "sys_do Cas (lk_snd y) = Some s'" and z: "z = y\<lparr>lk_snd := s'\<rparr>"
    using assms(2) by (auto simp: link_snd_def simp del: sys_do.simps)
  have "send_inv s0 (lk_snd y)"
    using inv by (simp add: link_inv_def)
  from link_inv_local [OF inv s' reserved_Cas [OF this s']] show ?thesis
    by (simp add: z)
qed

lemma link_inv_LAck:
  assumes inv: "link_inv m w s0 y" and "link_do fr m LAck y = Some z"
  shows "link_inv m w s0 z"
proof -
  let ?cw = "snd_currentWindow (sys_sender (lk_snd y))"
  obtain a as where ack: "lk_ack y = a # as" and "a \<noteq> 0"
    using assms by (auto simp: link_inv_def split: list.splits)
  have "unat ?cw + unat a \<le> unat (rcv_currentWindow (lk_rcv y))"
    using inv ack by (simp add: link_inv_def)
  then have "unat ?cw + unat a < 4294967296"
    using unat_u32_less le_less_trans by blast
  then have add: "unat (?cw + a) = unat ?cw + unat a"
    by (rule unat_add_no_wrap)
  obtain s' where s': "sys_do (UpdAdd a) (lk_snd y) = Some s'" and z: "z = y\<lparr>lk_ack := as, lk_snd := s'\<rparr>"
    using assms(2) ack by (auto simp: link_snd_def)
  then have "reserved s' = reserved (lk_snd y)"
    using \<open>a \<noteq> 0\<close> by (auto simp: reserved_def updateWindow_add_def Let_def send_overhead_def
        split: send_pc.splits)
  moreover have "sys_sender s' = (sys_sender (lk_snd y))\<lparr>snd_currentWindow := ?cw + a\<rparr>"
    using s' \<open>a \<noteq> 0\<close> by (auto simp: updateWindow_add_def Let_def)
  ultimately show ?thesis
    using inv z ack add send_inv_step [OF _ s', of s0] by (simp add: link_inv_def)
qed

lemma link_inv_LDeliver:
  assumes inv: "link_inv m w s0 y" and "link_do fr m LDeliver y = Some z"
  shows "link_inv m w s0 z"
proof -
  let ?v = "snd_msgOverhead s0"
  obtain f fs where data: "lk_data y = f # fs"
    using assms(2) by (cases "lk_data y") auto
  have op: "recv_open m ?v (unat w) (lk_rcv y)"
    using inv by (simp add: link_inv_def)
  have "frame_cost m ?v f \<le> unat (rcv_currentWindow (lk_rcv y))"
    using inv data by (simp add: link_inv_def)
  note fits = rq.put_fits [OF op this]
  obtain r where r: "accept m f (lk_rcv y) = (None, r)"
    using fits by (cases "accept m f (lk_rcv y)") auto
  show ?thesis
    using assms data r fits rq.invar_put [OF op, of f]
    by (auto simp: link_inv_def)
qed

lemma link_inv_LDequeue:
  assumes inv: "link_inv m w s0 y" and "link_do fr m LDequeue y = Some z"
  shows "link_inv m w s0 z"
proof -
  let ?r = "lk_rcv y"
  have op: "recv_open m (snd_msgOverhead s0) (unat w) ?r"
    using inv by (simp add: link_inv_def)
  obtain x xs where items: "rcv_items ?r = x # xs"
    using rq.take_Nil [OF op] assms(2) by (cases "rcv_items ?r") (auto split: deq.splits prod.splits)
  obtain u where u: "fst (dequeue m ?r) = DeqItem x u" "rcv_items (snd (dequeue m ?r)) = xs"
    "unat (rcv_currentWindow (snd (dequeue m ?r))) = unat (rcv_currentWindow ?r) + unat u"
    using rq.take_Cons [OF op items] by blast
  show ?thesis
    using assms u items rq.invar_take [OF op]
    by (cases "dequeue m ?r") (auto simp: link_inv_def word_gt_0 split: if_splits)
qed

context framing
begin

lemma cost_frame: "frame_cost measure v (frame_of d n b) = length d + (if b then unat v else 0)"
  by (simp add: frame_cost_def measure_frame)

lemma link_inv_LSend:
  assumes inv: "link_inv measure w s0 y" and "link_do frame_of measure LSend y = Some z"
  shows "link_inv measure w s0 z"
proof -
  let ?s = "lk_snd y"
  obtain s' where s': "sys_do (SendFunc None) ?s = Some s'"
    and z: "z = y\<lparr>lk_snd := s', lk_data := lk_data y @ outgoing frame_of ?s,
                  lk_all := lk_all y @ outgoing frame_of ?s\<rparr>"
    using assms(2) by (auto simp: link_snd_def)
  then obtain d i c where pc: "sys_pc ?s = AtSend d i c"
    by (auto split: send_pc.splits)
  have snd: "sys_sender s' = sys_sender ?s" and "reserved s' = 0"
    using s' pc by (auto simp: reserved_def send_after_def)
  moreover have "unat c \<le> length d" "snd_msgOverhead (sys_sender ?s) = snd_msgOverhead s0"
    using inv pc by (simp_all add: link_inv_def send_inv_def)
  ultimately show ?thesis
    using inv z pc send_inv_step [OF _ s', of s0]
    by (simp add: link_inv_def outgoing_def cost_frame reserved_def unat_send_overhead)
qed

lemmas link_inv_steps =
  link_inv_LLoad link_inv_LWake link_inv_LCas link_inv_LSignal link_inv_LSend link_inv_LDeliver
  link_inv_LDequeue link_inv_LAck

lemma link_inv_do:
  "link_inv measure w s0 y \<Longrightarrow> link_do frame_of measure a y = Some z \<Longrightarrow> link_inv measure w s0 z"
  by (cases a; hypsubst; erule (1) link_inv_steps)

lemma link_reach_inv:
  assumes "link_reach frame_of measure (link_init w mx mu v) y" and "v < w" and "0 < mx"
  shows "link_inv measure w (newSender w mx v) y"
  using assms(1)
  by (induction rule: link_reach.induct)
     (auto intro: link_inv_init assms(2,3) link_inv_Call link_inv_do)

end

subsection \<open>No deadlock, and every run ends\<close>

lemma link_stuck_drained:
  assumes "link_stuck fr m y" and op: "recv_open m v W (lk_rcv y)"
  shows "lk_data y = [] \<and> lk_ack y = [] \<and> rcv_items (lk_rcv y) = []"
proof -
  have none: "link_do fr m a y = None" for a
    using assms(1) by (simp add: link_stuck_def)
  have "lk_data y = []"
    using none [of LDeliver] by (auto split: list.splits prod.splits)
  moreover have "lk_ack y = []"
    using none [of LAck] by (auto simp: link_snd_def split: list.splits if_splits prod.splits)
  moreover have "rcv_items (lk_rcv y) = []"
    using none [of LDequeue] rq.take_Cons [OF op] by (cases "rcv_items (lk_rcv y)")
      (fastforce split: prod.splits deq.splits)+
  ultimately show ?thesis by simp
qed

text \<open>A sender blocked in its \<^verbatim>\<open>select\<close> is woken by something that is still under way.\<close>

lemma link_no_deadlock:
  assumes inv: "link_inv m w s0 y" and pc: "sys_pc (lk_snd y) = AtSelect d i"
  shows "\<exists>a. link_do fr m a y \<noteq> None"
proof (rule ccontr)
  let ?s = "sys_sender (lk_snd y)" and ?r = "lk_rcv y"
  assume "\<nexists>a. link_do fr m a y \<noteq> None"
  then have none: "link_do fr m a y = None" for a by blast
  have op: "recv_open m (snd_msgOverhead s0) (unat w) ?r" and wf: "sender_wf ?s"
    and v: "snd_msgOverhead ?s = snd_msgOverhead s0" and ok: "pc_ok (lk_snd y) (AtSelect d i)"
    using inv pc by (auto simp: link_inv_def send_inv_def)
  have data: "lk_data y = []" and ack: "lk_ack y = []" and items: "rcv_items ?r = []"
    using link_stuck_drained [OF _ op, of fr] none by (simp_all add: link_stuck_def)
  have "snd_msgOverhead s0 < rcv_currentWindow ?r"
    using op items by (auto simp: recv_open_def recv_inv_def)
  then have room: "unat (snd_msgOverhead ?s) < unat (snd_currentWindow ?s)"
    using inv data ack pc by (simp add: link_inv_def reserved_def v word_less_nat_alt)
  have len: "length d \<le> MaxUint32"
    using ok cut_ok_len by auto
  have "send_needed ?s d i \<le> snd_currentWindow ?s"
    using room by (auto simp: word_le_nat_alt unat_send_needed [OF wf len] unat_send_overhead)
  with ok consider "snd_windowUpdates ?s" | p where "p \<in> set (sys_upd (lk_snd y))"
    by auto
  then show False
  proof cases
    case 1
    then show False
      using none [of LWake] pc by (simp add: link_snd_def)
  next
    case (2 p)
    then show False
      using none [of "LSignal p"] by (simp add: link_snd_def)
  qed
qed

text \<open>The work left, counted so that every operation decreases it.\<close>

definition pc_work :: "send_sys \<Rightarrow> nat" where
  "pc_work s = (case sys_pc s of
     Idle \<Rightarrow> 0
   | Returned _ \<Rightarrow> 0
   | AtLoad d i \<Rightarrow> 11 * max 1 (length d) + 3
   | AtSelect d i \<Rightarrow> 11 * max 1 (length d) + 2
   | AtCas d i w \<Rightarrow> 11 * max 1 (length d) + (if snd_currentWindow (sys_sender s) = w then 2 else 4)
   | AtSend d i c \<Rightarrow> 11 * max 1 (length d) + 1)"

definition snd_work :: "send_sys \<Rightarrow> nat" where
  "snd_work s = pc_work s + 3 * length (sys_upd s)
     + (if snd_windowUpdates (sys_sender s) then 2 else 0)"

definition link_work :: "'f link \<Rightarrow> nat" where
  "link_work y = snd_work (lk_snd y) + 8 * length (lk_data y) + 7 * length (rcv_items (lk_rcv y))
     + 6 * length (lk_ack y)"

lemma snd_work_Load: "sys_do Load s = Some s' \<Longrightarrow> snd_work s' < snd_work s"
  by (auto simp: snd_work_def pc_work_def send_load_def Let_def split: send_pc.splits if_splits)

lemma snd_work_Wake: "sys_do Wake s = Some s' \<Longrightarrow> snd_work s' < snd_work s"
  by (auto simp: snd_work_def pc_work_def split: send_pc.splits if_splits)

lemma snd_work_Cas: "sys_do Cas s = Some s' \<Longrightarrow> snd_work s' < snd_work s"
  by (auto simp: snd_work_def pc_work_def send_cas_def Let_def split: send_pc.splits if_splits)

lemma snd_work_UpdSignal:
  assumes "sys_do (UpdSignal p) s = Some s'"
  shows "snd_work s' < snd_work s"
proof -
  have p: "p \<in> set (sys_upd s)"
    and s': "s' = s\<lparr>sys_sender := updateWindow_signal p (sys_sender s), sys_upd := remove1 p (sys_upd s)\<rparr>"
    using assms by (auto split: if_splits)
  have "pc_work s' = pc_work s"
    by (simp add: s' pc_work_def updateWindow_signal_def split: send_pc.splits)
  moreover have "length (sys_upd s) = Suc (length (sys_upd s'))"
    using p by (simp add: s' length_remove1) (use length_pos_if_in_set in fastforce)
  ultimately show ?thesis
    by (auto simp: snd_work_def s' updateWindow_signal_def)
qed

lemma snd_work_UpdAdd: "sys_do (UpdAdd a) s = Some s' \<Longrightarrow> snd_work s' \<le> snd_work s + 5"
  by (auto simp: snd_work_def pc_work_def updateWindow_add_def Let_def
      split: send_pc.splits if_splits)

lemma snd_work_SendFunc:
  assumes "send_inv s0 s" and "sys_do (SendFunc None) s = Some s'"
  shows "snd_work s' + 9 \<le> snd_work s"
proof -
  obtain d i c where pc: "sys_pc s = AtSend d i c"
    using assms(2) by (auto split: send_pc.splits)
  then have ok: "cut_ok s d i" "unat c \<le> length d" "d \<noteq> [] \<longrightarrow> 0 < unat c"
    using assms(1) by (simp_all add: send_inv_def)
  have "(c = u32_of_len d) = (unat c = length d)"
    using cut_ok_len [OF ok(1)] by (simp add: unat_eq_iff_word unat_u32_of_len)
  then show ?thesis
    using assms(2) pc ok(2,3)
    by (auto simp: snd_work_def pc_work_def send_after_def max_def)
qed

lemma link_do_work:
  assumes inv: "link_inv m w s0 y" and "link_do fr m a y = Some z"
  shows "link_work z < link_work y"
proof -
  have op: "recv_open m (snd_msgOverhead s0) (unat w) (lk_rcv y)" and si: "send_inv s0 (lk_snd y)"
    using inv by (simp_all add: link_inv_def)
  show ?thesis
  proof (cases a)
    case LSend
    then obtain s' where "sys_do (SendFunc None) (lk_snd y) = Some s'"
      and z: "z = y\<lparr>lk_snd := s', lk_data := lk_data y @ outgoing fr (lk_snd y),
                    lk_all := lk_all y @ outgoing fr (lk_snd y)\<rparr>"
      using assms(2) by (auto simp: link_snd_def simp del: sys_do.simps)
    from snd_work_SendFunc [OF si this(1)] show ?thesis
      by (simp add: z link_work_def outgoing_def split: send_pc.splits)
  next
    case LDeliver
    then show ?thesis
      using assms(2) rq.put_fits [OF op] rq.put_exceeds [OF op]
      by (cases "lk_data y") (auto simp: link_work_def accept_def Let_def split: prod.splits if_splits)
  next
    case LDequeue
    then show ?thesis
      using assms(2) rq.take_Cons [OF op] rq.take_Nil [OF op]
      by (cases "rcv_items (lk_rcv y)")
         (fastforce simp: link_work_def split: prod.splits deq.splits if_splits)+
  next
    case LAck
    then show ?thesis
      using assms(2) snd_work_UpdAdd [of _ "lk_snd y"]
      by (cases "lk_ack y") (fastforce simp: link_work_def link_snd_def simp del: sys_do.simps)+
  qed (use assms(2) in \<open>auto simp: link_work_def link_snd_def simp del: sys_do.simps
         dest: snd_work_Load snd_work_Wake snd_work_Cas snd_work_UpdSignal\<close>)
qed

text \<open>In a state where nothing is enabled, everything has been sent and read.\<close>

lemma link_stuck_done:
  assumes inv: "link_inv m w s0 y" and stuck: "link_stuck fr m y"
  shows "send_idle (sys_pc (lk_snd y)) \<and> lk_read y = lk_all y \<and> lk_ack y = []"
proof -
  have none: "link_do fr m a y = None" for a
    using stuck by (simp add: link_stuck_def)
  have op: "recv_open m (snd_msgOverhead s0) (unat w) (lk_rcv y)"
    using inv by (simp add: link_inv_def)
  note link_stuck_drained [OF stuck op]
  moreover have "send_idle (sys_pc (lk_snd y))"
  proof (cases "sys_pc (lk_snd y)")
    case (AtSelect d i)
    then show ?thesis
      using link_no_deadlock [OF inv AtSelect, of fr] none by simp
  next
    case (AtCas d i v)
    then show ?thesis
      using none [of LCas] by (simp add: link_snd_def split: prod.splits)
  qed (use none [of LLoad] none [of LSend] in \<open>simp_all add: link_snd_def\<close>)
  ultimately show ?thesis
    using inv by (simp add: link_inv_def)
qed

context framing
begin

lemma link_run_inv:
  "link_inv measure w s0 y \<Longrightarrow> link_run frame_of measure as y = Some z \<Longrightarrow> link_inv measure w s0 z"
  by (induction as arbitrary: y) (auto split: option.splits dest: link_inv_do)

lemma link_run_bounded:
  "link_inv measure w s0 y \<Longrightarrow> link_run frame_of measure as y = Some z \<Longrightarrow>
   length as + link_work z \<le> link_work y"
proof (induction as arbitrary: y)
  case Nil
  then show ?case by simp
next
  case (Cons a as)
  then obtain y' where y': "link_do frame_of measure a y = Some y'"
    and run: "link_run frame_of measure as y' = Some z"
    by (auto split: option.splits)
  have "link_work y' < link_work y"
    using link_do_work [OF Cons.prems(1) y'] .
  moreover have "length as + link_work z \<le> link_work y'"
    using Cons.IH [OF link_inv_do [OF Cons.prems(1) y'] run] .
  ultimately show ?case by simp
qed

text \<open>Whatever the scheduler does, it comes to an end, with everything sent and read.\<close>

lemma link_completes:
  assumes "link_inv measure w s0 y"
  shows "\<exists>as z. link_run frame_of measure as y = Some z \<and> link_stuck frame_of measure z"
  using assms
proof (induction "link_work y" arbitrary: y rule: less_induct)
  case less
  show ?case
  proof (cases "link_stuck frame_of measure y")
    case True
    then show ?thesis
      by (intro exI [of _ "[]"]) simp
  next
    case False
    then obtain a y' where y': "link_do frame_of measure a y = Some y'"
      by (auto simp: link_stuck_def)
    obtain as z where "link_run frame_of measure as y' = Some z" "link_stuck frame_of measure z"
      using less.hyps [OF link_do_work [OF less.prems y'] link_inv_do [OF less.prems y']] by blast
    with y' show ?thesis
      by (intro exI [of _ "a # as"]) simp
  qed
qed

end

end
