(* ===== verification/Reassembly.thy ===== *)
theory Reassembly
  imports Receiver
begin

text \<open>
  The loops of \<^verbatim>\<open>readMsgLocked\<close> (\<^verbatim>\<open>tunnel_client.go\<close>, \<^verbatim>\<open>tunnel_server.go\<close>): frames are taken from the
  receiver and put together until a whole message is there. A run of a loop ends by returning what
  the source returns (data, whether the error is one the stream already knows, error), or by waiting
  in \<^verbatim>\<open>dequeue\<close> with the loop's variables \<^verbatim>\<open>msgLen\<close> and \<^verbatim>\<open>b\<close>; it is resumed from there. The list is the
  calls of the receiver's \<^verbatim>\<open>updateWindow\<close>, in order.

  What both loops owe the sender's side is the locale \<open>chunk_reader\<close>, from which the round trip is
  proved once: the chunks of a message, however cut and whenever they arrive, read as that message.
\<close>

type_synonym read_ret = "bytes \<times> bool \<times> gerror option"

datatype read_res = RdRet read_ret | RdBlock int bytes

definition acked :: "u32 \<Rightarrow> u32 list" where
  "acked u = (if u > 0 then [u] else [])"

definition then_read :: "u32 \<Rightarrow> read_res \<times> 'r \<times> u32 list \<Rightarrow> read_res \<times> 'r \<times> u32 list" where
  "then_read u res = (case res of (x, r, us) \<Rightarrow> (x, r, acked u @ us))"

lemma dequeue_item_front:
  "dequeue m r = (DeqItem x u, r') \<Longrightarrow> rcv_items r = x # rcv_items r'"
  by (cases rule: dequeue_cases [where r = r and m = m]) auto

lemma dequeue_shrinks:
  "dequeue m r = (DeqItem x u, r') \<Longrightarrow> length (rcv_items r') < length (rcv_items r)"
  by (simp add: dequeue_item_front)

subsection \<open>Client side\<close>

definition errClientEnvelope :: "string \<Rightarrow> bytes \<Rightarrow> int \<Rightarrow> gerror" where
  "errClientEnvelope peer b msgLen = Errorf Internal
     ''%s sent response message envelope before previous message finished (%d/%d)''
     [AStr peer, AInt (int (length b)), AInt msgLen]"

definition errClientTooMuch :: "string \<Rightarrow> gerror" where
  "errClientTooMuch peer = Errorf Internal
     ''%s sent more data than indicated by response message envelope'' [AStr peer]"

definition errClientNoEnvelope :: "string \<Rightarrow> gerror" where
  "errClientNoEnvelope peer = Errorf Internal
     ''%s never sent envelope for response message'' [AStr peer]"

definition errUnrecognized :: "code \<Rightarrow> string \<Rightarrow> gerror" where
  "errUnrecognized c T = Errorf c ''unrecognized frame type: %T'' [AStr T]"

text \<open>
  The type switch of the loop: what it returns at this frame, or the loop's variables after it.
\<close>

fun client_switch :: "string \<Rightarrow> int \<Rightarrow> bytes \<Rightarrow> ServerToClientFrame \<Rightarrow> read_ret + int \<times> bytes" where
  "client_switch peer msgLen b (ServerToClient_ResponseMessage m) =
     (if msgLen \<noteq> -1 then Inl ([], False, Some (errClientEnvelope peer b msgLen))
      else if int (length (Data m)) > int (unat (Size m))
      then Inl ([], False, Some (errClientTooMuch peer))
      else if int (length (Data m)) = int (unat (Size m)) then Inl (Data m, True, None)
      else Inr (int (unat (Size m)), Data m))"
| "client_switch peer msgLen b (ServerToClient_MoreResponseData d) =
     (if msgLen = -1 then Inl ([], False, Some (errClientNoEnvelope peer))
      else if int (length (b @ d)) > msgLen then Inl ([], False, Some (errClientTooMuch peer))
      else if int (length (b @ d)) = msgLen then Inl (b @ d, True, None)
      else Inr (msgLen, b @ d))"
| "client_switch peer msgLen b f = Inl ([], False, Some (errUnrecognized Internal (s2c_type f)))"

function client_read_loop :: "string \<Rightarrow> gerror option \<Rightarrow> int \<Rightarrow> bytes \<Rightarrow> ServerToClientFrame receiver
    \<Rightarrow> read_res \<times> ServerToClientFrame receiver \<times> u32 list" where
  "client_read_loop peer dn msgLen b r =
     (case dequeue client_measure r of
        (DeqWait, r') \<Rightarrow> (RdBlock msgLen b, r', [])
      | (DeqEnd, r') \<Rightarrow> (RdRet ([], True, dn), r', [])
      | (DeqItem f u, r') \<Rightarrow>
          (case client_switch peer msgLen b f of
             Inl ret \<Rightarrow> (RdRet ret, r', acked u)
           | Inr (msgLen', b') \<Rightarrow> then_read u (client_read_loop peer dn msgLen' b' r')))"
  by pat_completeness auto
termination
  by (relation "Wellfounded.measure (\<lambda>(p, dn, k, b, r). length (rcv_items r))")
     (auto dest: dequeue_shrinks [OF sym])

declare client_read_loop.simps [simp del]

subsection \<open>Server side\<close>

definition errServerEnvelope :: "bytes \<Rightarrow> int \<Rightarrow> gerror" where
  "errServerEnvelope b msgLen = Errorf InvalidArgument
     ''received request message envelope before previous message finished (%d/%d)''
     [AInt (int (length b)), AInt msgLen]"

definition errServerTooMuch :: gerror where
  "errServerTooMuch = Errorf InvalidArgument
     ''received more data than indicated by request message envelope'' []"

definition errServerNoEnvelope :: gerror where
  "errServerNoEnvelope = Errorf InvalidArgument
     ''never received envelope for request message'' []"

fun server_switch :: "int \<Rightarrow> bytes \<Rightarrow> ClientToServerFrame \<Rightarrow> read_ret + int \<times> bytes" where
  "server_switch msgLen b (ClientToServer_RequestMessage m) =
     (if msgLen \<noteq> -1 then Inl ([], False, Some (errServerEnvelope b msgLen))
      else if int (length (Data m)) > int (unat (Size m)) then Inl ([], False, Some errServerTooMuch)
      else if int (length (Data m)) = int (unat (Size m)) then Inl (Data m, True, None)
      else Inr (int (unat (Size m)), Data m))"
| "server_switch msgLen b (ClientToServer_MoreRequestData d) =
     (if msgLen = -1 then Inl ([], False, Some errServerNoEnvelope)
      else if int (length (b @ d)) > msgLen then Inl ([], False, Some errServerTooMuch)
      else if int (length (b @ d)) = msgLen then Inl (b @ d, True, None)
      else Inr (msgLen, b @ d))"
| "server_switch msgLen b f =
     Inl ([], False, Some (errUnrecognized InvalidArgument (c2s_type f)))"

text \<open>
  The server's loop looks at its context at the head of each iteration only: a loop that waits in
  \<^verbatim>\<open>dequeue\<close> is resumed behind that check (\<open>atHead\<close> is false). \<open>hc\<close> is the error stored in
  \<^verbatim>\<open>halfClosed\<close>.
\<close>

function server_read_loop :: "ctx \<Rightarrow> gerror option \<Rightarrow> bool \<Rightarrow> int \<Rightarrow> bytes
    \<Rightarrow> ClientToServerFrame receiver \<Rightarrow> read_res \<times> ClientToServerFrame receiver \<times> u32 list" where
  "server_read_loop c hc atHead msgLen b r =
     (if atHead \<and> c \<noteq> None then (RdRet ([], True, c), r, [])
      else case dequeue server_measure r of
        (DeqWait, r') \<Rightarrow> (RdBlock msgLen b, r', [])
      | (DeqEnd, r') \<Rightarrow> (RdRet ([], True, hc), r', [])
      | (DeqItem f u, r') \<Rightarrow>
          (case server_switch msgLen b f of
             Inl ret \<Rightarrow> (RdRet ret, r', acked u)
           | Inr (msgLen', b') \<Rightarrow> then_read u (server_read_loop c hc True msgLen' b' r')))"
  by pat_completeness auto
termination
  by (relation "Wellfounded.measure (\<lambda>(c, hc, h, k, b, r). length (rcv_items r))")
     (auto dest: dequeue_shrinks [OF sym])

declare server_read_loop.simps [simp del]

subsection \<open>Facts about one run\<close>

lemma dequeue_flags:
  "dequeue m r = (d, r') \<Longrightarrow> rcv_closed r' = rcv_closed r \<and> rcv_cancelled r' = rcv_cancelled r
     \<and> rcv_msgOverhead r' = rcv_msgOverhead r"
  by (cases rule: dequeue_cases [where r = r and m = m]) auto

lemma server_read_loop_past:
  "\<not> (h \<and> c \<noteq> None) \<Longrightarrow> server_read_loop c hc h k b r =
     (case dequeue server_measure r of
        (DeqWait, r') \<Rightarrow> (RdBlock k b, r', [])
      | (DeqEnd, r') \<Rightarrow> (RdRet ([], True, hc), r', [])
      | (DeqItem f u, r') \<Rightarrow>
          (case server_switch k b f of
             Inl ret \<Rightarrow> (RdRet ret, r', acked u)
           | Inr (k', b') \<Rightarrow> then_read u (server_read_loop c hc True k' b' r')))"
  by (subst server_read_loop.simps) (simp only: if_False)

subsection \<open>The contract of the two loops\<close>

text \<open>
  A loop that takes frames one by one, with a switch that returns or goes on. Whatever every
  \<^verbatim>\<open>dequeue\<close> keeps, a run of the loop keeps.
\<close>

locale frame_loop =
  fixes measure :: "'f \<Rightarrow> nat \<times> bool"
    and switch :: "int \<Rightarrow> bytes \<Rightarrow> 'f \<Rightarrow> read_ret + int \<times> bytes"
    and ending :: "gerror option"
    and loop :: "int \<Rightarrow> bytes \<Rightarrow> 'f receiver \<Rightarrow> read_res \<times> 'f receiver \<times> u32 list"
  assumes loop_unfold: "loop k b r =
     (case dequeue measure r of
        (DeqWait, r') \<Rightarrow> (RdBlock k b, r', [])
      | (DeqEnd, r') \<Rightarrow> (RdRet ([], True, ending), r', [])
      | (DeqItem f u, r') \<Rightarrow>
          (case switch k b f of
             Inl ret \<Rightarrow> (RdRet ret, r', acked u)
           | Inr (k', b') \<Rightarrow> then_read u (loop k' b' r')))"
begin

lemma loop_cases [consumes 1, case_names waits ends returns continues]:
  assumes "loop k b r = (res, r', us)"
  obtains "dequeue measure r = (DeqWait, r')" "res = RdBlock k b" "us = []"
  | "dequeue measure r = (DeqEnd, r')" "res = RdRet ([], True, ending)" "us = []"
  | f u ret where "dequeue measure r = (DeqItem f u, r')" "switch k b f = Inl ret" "res = RdRet ret"
    "us = acked u"
  | f u r1 k' b' us' where "dequeue measure r = (DeqItem f u, r1)" "switch k b f = Inr (k', b')"
    "loop k' b' r1 = (res, r', us')" "length (rcv_items r1) < length (rcv_items r)" "us = acked u @ us'"
proof -
  obtain d r1 where deq: "dequeue measure r = (d, r1)" by (cases "dequeue measure r")
  show ?thesis
  proof (cases d)
    case (DeqItem f u)
    show ?thesis
    proof (cases "switch k b f")
      case (Inr kb)
      obtain k' b' where kb: "kb = (k', b')" by (cases kb)
      obtain res' r2 us' where rec: "loop k' b' r1 = (res', r2, us')"
        by (metis prod_cases3)
      show ?thesis
        using that(4) [OF deq [unfolded DeqItem] Inr [unfolded kb]] rec
          dequeue_shrinks [OF deq [unfolded DeqItem]] assms deq DeqItem Inr kb
        by (simp add: loop_unfold [of k b r] then_read_def)
    qed (use that(3) assms deq DeqItem in \<open>simp add: loop_unfold [of k b r]\<close>)
  qed (use that(1,2) assms deq in \<open>simp_all add: loop_unfold [of k b r]\<close>)
qed

lemma loop_keeps:
  assumes keep: "\<And>r d r'. dequeue measure r = (d, r') \<Longrightarrow> P r \<Longrightarrow> P r'"
    and "loop k b r = (res, r', us)" and "P r"
  shows "P r'"
  using assms(2,3)
proof (induction "length (rcv_items r)" arbitrary: k b r us rule: less_induct)
  case less
  from less.prems(1) show ?case
  proof (cases rule: loop_cases)
    case (continues f u r1 k' b' us')
    then show ?thesis
      using less.hyps [OF continues(4,3)] keep [OF continues(1) less.prems(2)] by simp
  qed (use keep less.prems(2) in blast)+
qed

end

text \<open>
  What the switches owe the sender's framing: an envelope opens a message, further data extends it,
  it is complete when its length is reached, and nothing else counts as a message.
\<close>

locale chunk_reader = framing frame_of measure + frame_loop measure switch ending loop
  for frame_of :: "bytes \<Rightarrow> u32 \<Rightarrow> bool \<Rightarrow> 'f" and measure :: "'f \<Rightarrow> nat \<times> bool"
    and switch ending loop +
  assumes switch_first: "length d < unat n \<Longrightarrow>
      switch (-1) b (frame_of d n True) = Inr (int (unat n), d)"
    and switch_whole: "length d = unat n \<Longrightarrow>
      switch (-1) b (frame_of d n True) = Inl (d, True, None)"
    and switch_more: "int (length (b @ d)) < k \<Longrightarrow>
      switch k b (frame_of d n False) = Inr (k, b @ d)"
    and switch_last: "int (length (b @ d)) = k \<Longrightarrow>
      switch k b (frame_of d n False) = Inl (b @ d, True, None)"
    and switch_complete: "switch k b f = Inl (x, ok, None) \<Longrightarrow>
      (k = -1 \<and> (\<exists>n. f = frame_of x n True \<and> length x = unat n)) \<or>
      (k \<noteq> -1 \<and> (\<exists>d. (\<forall>n. f = frame_of d n False) \<and> x = b @ d \<and> int (length x) = k))"
    and switch_goes_on: "switch k b f = Inr (k', b') \<Longrightarrow>
      (k = -1 \<and> (\<exists>n. f = frame_of b' n True \<and> k' = int (unat n))) \<or>
      (k \<noteq> -1 \<and> (\<exists>d. (\<forall>n. f = frame_of d n False) \<and> b' = b @ d \<and> k' = k))"
begin

lemma loop_first:
  "dequeue measure r = (DeqItem (frame_of d n True) u, r') \<Longrightarrow> length d < unat n \<Longrightarrow>
   loop (-1) b r = then_read u (loop (int (unat n)) d r')"
  by (simp add: loop_unfold [of _ _ r] switch_first)

lemma loop_whole:
  "dequeue measure r = (DeqItem (frame_of d n True) u, r') \<Longrightarrow> length d = unat n \<Longrightarrow>
   loop (-1) b r = (RdRet (d, True, None), r', acked u)"
  by (simp add: loop_unfold [of _ _ r] switch_whole)

lemma loop_more:
  "dequeue measure r = (DeqItem (frame_of d n False) u, r') \<Longrightarrow> int (length (b @ d)) < k \<Longrightarrow>
   loop k b r = then_read u (loop k (b @ d) r')"
  by (simp add: loop_unfold [of _ _ r] switch_more)

lemma loop_last:
  "dequeue measure r = (DeqItem (frame_of d n False) u, r') \<Longrightarrow> int (length (b @ d)) = k \<Longrightarrow>
   loop k b r = (RdRet (b @ d, True, None), r', acked u)"
  by (simp add: loop_unfold [of _ _ r] switch_last)

lemma dequeue_front:
  assumes "\<not> rcv_cancelled r" and "rcv_items r = f # fs"
  obtains u r' where "dequeue measure r = (DeqItem f u, r')" "rcv_items r' = fs"
    "\<not> rcv_cancelled r'" "rcv_closed r' = rcv_closed r"
  using assms by (cases rule: dequeue_cases [where r = r and m = measure]) auto

text \<open>The chunks after the first: the loop holds the bytes read so far.\<close>

lemma read_rest:
  assumes "\<not> rcv_cancelled r" and "rcv_items r = frames cs @ fs"
    and "\<forall>c\<in>set cs. \<not> snd (snd c) \<and> fst c \<noteq> []" and "cs \<noteq> []"
    and "k = int (length (b @ concat (map fst cs)))"
  shows "\<exists>r' us. loop k b r = (RdRet (b @ concat (map fst cs), True, None), r', us)
    \<and> rcv_items r' = fs \<and> \<not> rcv_cancelled r'"
  using assms
proof (induction cs arbitrary: b r)
  case Nil
  then show ?case by simp
next
  case (Cons c cs)
  obtain d n where c: "c = (d, n, False)" and d: "d \<noteq> []"
    using Cons.prems(3) by (cases c) auto
  have "rcv_items r = frame_of d n False # (frames cs @ fs)"
    using Cons.prems(2) by (simp add: c frames_def)
  from dequeue_front [OF Cons.prems(1) this]
  obtain u r1 where r1: "dequeue measure r = (DeqItem (frame_of d n False) u, r1)"
    "rcv_items r1 = frames cs @ fs" "\<not> rcv_cancelled r1" by blast
  show ?case
  proof (cases "cs = []")
    case True
    then show ?thesis
      using r1 loop_last [OF r1(1), of b k] Cons.prems(5) by (simp add: c frames_def)
  next
    case False
    have "concat (map fst cs) \<noteq> []"
      using False Cons.prems(3) by (cases cs) auto
    then have "int (length (b @ d)) < k"
      using Cons.prems(5) by (simp add: c)
    then have step: "loop k b r = then_read u (loop k (b @ d) r1)"
      by (rule loop_more [OF r1(1)])
    obtain r' us where "loop k (b @ d) r1 =
        (RdRet ((b @ d) @ concat (map fst cs), True, None), r', us)"
      "rcv_items r' = fs" "\<not> rcv_cancelled r'"
      using Cons.IH [OF r1(3,2) _ False, of "b @ d"] Cons.prems(3,5) by (auto simp: c)
    then show ?thesis
      by (simp add: step then_read_def c)
  qed
qed

lemma read_message:
  assumes "is_chunking mx msg cs" and "length msg \<le> MaxUint32"
    and "\<not> rcv_cancelled r" and "rcv_items r = frames cs @ fs"
  shows "\<exists>r' us. loop (-1) [] r = (RdRet (msg, True, None), r', us) \<and> rcv_items r' = fs
    \<and> \<not> rcv_cancelled r'"
proof -
  have ch: "cs \<noteq> []" "concat (map fst cs) = msg"
    "map (snd \<circ> snd) cs = map (\<lambda>j. j = 0) [0..<length cs]"
    "\<forall>c\<in>set cs. fst (snd c) = u32_of_len msg \<and> (msg \<noteq> [] \<longrightarrow> fst c \<noteq> [])"
    using assms(1) by (auto simp: is_chunking_def chunk_prefix_def)
  obtain c0 cs' where cs: "cs = c0 # cs'"
    using ch(1) by (cases cs) auto
  have flags: "\<forall>c\<in>set cs'. \<not> snd (snd c)"
  proof
    fix c assume "c \<in> set cs'"
    then obtain j where j: "j < length cs'" "c = cs' ! j"
      by (auto simp: in_set_conv_nth)
    then show "\<not> snd (snd c)"
      using arg_cong [OF ch(3), of "\<lambda>l. l ! Suc j"] by (simp add: cs nth_append del: upt_Suc)
  qed
  obtain d where c0: "c0 = (d, u32_of_len msg, True)"
    using ch(3,4) by (cases c0) (auto simp: cs upt_conv_Cons simp del: upt_Suc)
  have n: "unat (u32_of_len msg) = length msg"
    using assms(2) by (rule unat_u32_of_len)
  have "rcv_items r = frame_of d (u32_of_len msg) True # (frames cs' @ fs)"
    using assms(4) by (simp add: cs c0 frames_def)
  from dequeue_front [OF assms(3) this]
  obtain u r1 where r1: "dequeue measure r = (DeqItem (frame_of d (u32_of_len msg) True) u, r1)"
    "rcv_items r1 = frames cs' @ fs" "\<not> rcv_cancelled r1" by blast
  have msg: "msg = d @ concat (map fst cs')"
    using ch(2) by (simp add: cs c0)
  show ?thesis
  proof (cases "cs' = []")
    case True
    then show ?thesis
      using loop_whole [OF r1(1), of "[]"] r1 n msg by (simp add: frames_def)
  next
    case False
    have "msg \<noteq> []"
      using assms(1) False by (auto simp: is_chunking_def cs)
    then have ne: "\<forall>c\<in>set cs'. \<not> snd (snd c) \<and> fst c \<noteq> []"
      using flags ch(4) by (auto simp: cs)
    then have "concat (map fst cs') \<noteq> []"
      using False by (cases cs') auto
    then have "length d < unat (u32_of_len msg)"
      unfolding n by (simp add: msg)
    then have "loop (-1) [] r = then_read u (loop (int (length msg)) d r1)"
      using loop_first [OF r1(1)] n by simp
    moreover obtain r' us where "loop (int (length msg)) d r1 =
        (RdRet (d @ concat (map fst cs'), True, None), r', us)" "rcv_items r' = fs" "\<not> rcv_cancelled r'"
      using read_rest [OF r1(3,2) ne False, of "int (length msg)" d] msg by auto
    ultimately show ?thesis
      by (simp add: then_read_def msg)
  qed
qed

text \<open>
  Conversely, what the loop returns without an error while the stream is open is what the frames it
  took carry, and it took exactly these.
\<close>

lemma loop_genuine:
  assumes "loop k b r = (RdRet (x, ok, None), r', us)"
    and "ending \<noteq> None \<or> \<not> rcv_closed r \<and> \<not> rcv_cancelled r"
  shows "\<exists>cs. rcv_items r = frames cs @ rcv_items r' \<and> cs \<noteq> []
    \<and> (k \<noteq> -1 \<longrightarrow> x = b @ concat (map fst cs) \<and> int (length x) = k)
    \<and> (k = -1 \<longrightarrow> x = concat (map fst cs) \<and> snd (snd (hd cs)) \<and> unat (fst (snd (hd cs))) = length x)
    \<and> (\<forall>c\<in>set (if k = -1 then tl cs else cs). \<not> snd (snd c))"
  using assms
proof (induction "length (rcv_items r)" arbitrary: k b r us rule: less_induct)
  case less
  from less.prems(1) show ?case
  proof (cases rule: loop_cases)
    case waits
    then show ?thesis by simp
  next
    case ends
    then show ?thesis
      using less.prems(2) by (cases rule: dequeue_cases [where r = r and m = measure]) auto
  next
    case (returns f u ret)
    then have items: "rcv_items r = f # rcv_items r'" and sw: "switch k b f = Inl (x, ok, None)"
      by (simp_all add: dequeue_item_front)
    show ?thesis
      using switch_complete [OF sw]
    proof (elim disjE conjE exE)
      fix n assume "k = -1" "f = frame_of x n True" "length x = unat n"
      then show ?thesis
        using items by (intro exI [of _ "[(x, n, True)]"]) (simp add: frames_def)
    next
      fix d assume "k \<noteq> -1" "\<forall>n. f = frame_of d n False" "x = b @ d" "int (length x) = k"
      then show ?thesis
        using items by (intro exI [of _ "[(d, 0, False)]"]) (auto simp: frames_def)
    qed
  next
    case (continues f u r1 k' b' us')
    have items: "rcv_items r = f # rcv_items r1" and sw: "switch k b f = Inr (k', b')"
      using continues(1,2) by (simp_all add: dequeue_item_front)
    have "ending \<noteq> None \<or> \<not> rcv_closed r1 \<and> \<not> rcv_cancelled r1"
      using less.prems(2) dequeue_flags [OF continues(1)] by simp
    note IH = less.hyps [OF continues(4,3) this]
    show ?thesis
      using switch_goes_on [OF sw]
    proof (elim disjE conjE exE)
      fix n assume "k = -1" "f = frame_of b' n True" "k' = int (unat n)"
      moreover from this obtain cs where "rcv_items r1 = frames cs @ rcv_items r'"
        "x = b' @ concat (map fst cs)" "length x = unat n" "\<forall>c\<in>set cs. \<not> snd (snd c)"
        using IH by (auto simp del: of_nat_unat)
      ultimately show ?thesis
        using items by (intro exI [of _ "(b', n, True) # cs"]) (simp add: frames_def)
    next
      fix d assume "k \<noteq> -1" "\<forall>n. f = frame_of d n False" "b' = b @ d" "k' = k"
      moreover from this obtain cs where "rcv_items r1 = frames cs @ rcv_items r'"
        "x = b' @ concat (map fst cs)" "int (length x) = k" "\<forall>c\<in>set cs. \<not> snd (snd c)"
        using IH by auto
      ultimately show ?thesis
        using items by (intro exI [of _ "(d, 0, False) # cs"]) (auto simp: frames_def)
    qed
  qed
qed

end

lemma client_switch_complete:
  "client_switch peer k b f = Inl (x, ok, None) \<Longrightarrow>
    (k = -1 \<and> (\<exists>n. f = server_sendFunc x n True \<and> length x = unat n)) \<or>
    (k \<noteq> -1 \<and> (\<exists>d. (\<forall>n. f = server_sendFunc d n False) \<and> x = b @ d \<and> int (length x) = k))"
  by (cases f) (auto simp: server_sendFunc_def MessageData_eq simp del: of_nat_unat split: if_splits)

lemma server_switch_complete:
  "server_switch k b f = Inl (x, ok, None) \<Longrightarrow>
    (k = -1 \<and> (\<exists>n. f = client_sendData x n True \<and> length x = unat n)) \<or>
    (k \<noteq> -1 \<and> (\<exists>d. (\<forall>n. f = client_sendData d n False) \<and> x = b @ d \<and> int (length x) = k))"
  by (cases f) (auto simp: client_sendData_def MessageData_eq simp del: of_nat_unat split: if_splits)

lemma client_switch_goes_on:
  "client_switch peer k b f = Inr (k', b') \<Longrightarrow>
    (k = -1 \<and> (\<exists>n. f = server_sendFunc b' n True \<and> k' = int (unat n))) \<or>
    (k \<noteq> -1 \<and> (\<exists>d. (\<forall>n. f = server_sendFunc d n False) \<and> b' = b @ d \<and> k' = k))"
  by (cases f) (auto simp: server_sendFunc_def MessageData_eq simp del: of_nat_unat split: if_splits)

lemma server_switch_goes_on:
  "server_switch k b f = Inr (k', b') \<Longrightarrow>
    (k = -1 \<and> (\<exists>n. f = client_sendData b' n True \<and> k' = int (unat n))) \<or>
    (k \<noteq> -1 \<and> (\<exists>d. (\<forall>n. f = client_sendData d n False) \<and> b' = b @ d \<and> k' = k))"
  by (cases f) (auto simp: client_sendData_def MessageData_eq simp del: of_nat_unat split: if_splits)

lemma client_switch_frames:
  "length d < unat n \<Longrightarrow> client_switch peer (-1) b (server_sendFunc d n True) = Inr (int (unat n), d)"
  "length d = unat n \<Longrightarrow> client_switch peer (-1) b (server_sendFunc d n True) = Inl (d, True, None)"
  "int (length (b @ d)) < k \<Longrightarrow> client_switch peer k b (server_sendFunc d n False) = Inr (k, b @ d)"
  "int (length (b @ d)) = k \<Longrightarrow> client_switch peer k b (server_sendFunc d n False) = Inl (b @ d, True, None)"
  by (auto simp: server_sendFunc_def simp del: of_nat_unat)

lemma server_switch_frames:
  "length d < unat n \<Longrightarrow> server_switch (-1) b (client_sendData d n True) = Inr (int (unat n), d)"
  "length d = unat n \<Longrightarrow> server_switch (-1) b (client_sendData d n True) = Inl (d, True, None)"
  "int (length (b @ d)) < k \<Longrightarrow> server_switch k b (client_sendData d n False) = Inr (k, b @ d)"
  "int (length (b @ d)) = k \<Longrightarrow> server_switch k b (client_sendData d n False) = Inl (b @ d, True, None)"
  by (auto simp: client_sendData_def simp del: of_nat_unat)

interpretation client_reader: chunk_reader server_sendFunc client_measure "client_switch peer" dn
    "client_read_loop peer dn" for peer dn
  by unfold_locales (rule client_read_loop.simps client_switch_frames client_switch_complete
      client_switch_goes_on; assumption?)+

interpretation server_reader: chunk_reader client_sendData server_measure server_switch hc
    "server_read_loop None hc True" for hc
  by unfold_locales (rule server_read_loop_past server_switch_frames server_switch_complete
      server_switch_goes_on; assumption?; simp?)+

lemma server_read_loop_keeps:
  assumes keep: "\<And>r d r'. dequeue server_measure r = (d, r') \<Longrightarrow> P r \<Longrightarrow> P r'"
    and loop: "server_read_loop c hc h k b r = (res, r', us)" and "P r"
  shows "P r'"
  using assms(2,3)
proof (induction "length (rcv_items r)" arbitrary: h k b r us rule: less_induct)
  case less
  show ?case
  proof (cases "h \<and> c \<noteq> None")
    case True
    then show ?thesis
      using less.prems by (auto simp: server_read_loop.simps [of c hc True k b r])
  next
    case False
    obtain d r1 where deq: "dequeue server_measure r = (d, r1)" by (cases "dequeue server_measure r")
    have r1: "P r1" by (rule keep [OF deq less.prems(2)])
    show ?thesis
      using less.prems(1) deq r1 less.hyps [OF dequeue_shrinks _ r1]
      by (cases d) (fastforce simp: server_read_loop_past [OF False] then_read_def
          split: sum.splits prod.splits)+
  qed
qed

end
