(* ===== verification/Options.thy ===== *)
theory Options
  imports Wire
begin

text \<open>
  \<^verbatim>\<open>options.go\<close>: the options of a tunnel and how \<^verbatim>\<open>initOptions\<close> fills in defaults. Durations are
  nanoseconds (\<^verbatim>\<open>time.Duration\<close>, an int64).
\<close>

definition defaultInitialWindowSize :: u32 where "defaultInitialWindowSize = 64 * 1024"
definition minInitialWindowSize :: u32 where "minInitialWindowSize = 1024"
definition defaultChunkMax :: u32 where "defaultChunkMax = 16 * 1024"
definition defaultUpdateMin :: u32 where "defaultUpdateMin = 16 * 1024"
definition defaultEstablishmentTimeout :: i64 where
  "defaultEstablishmentTimeout = 15 * 1000000000"

lemmas option_constants =
  defaultInitialWindowSize_def minInitialWindowSize_def defaultChunkMax_def
  defaultUpdateMin_def defaultEstablishmentTimeout_def

record tunnelOpts =
  initialWindowSize :: u32
  maxChunkSize :: u32
  minWindowUpdateSize :: u32
  establishmentTimeout :: i64

type_synonym TunnelOption = "tunnelOpts \<Rightarrow> tunnelOpts"

definition WithInitialWindowSize :: "u32 \<Rightarrow> TunnelOption" where
  "WithInitialWindowSize sz = (\<lambda>t. t\<lparr>initialWindowSize := sz\<rparr>)"

definition WithMaxChunkSize :: "u32 \<Rightarrow> TunnelOption" where
  "WithMaxChunkSize sz = (\<lambda>t. t\<lparr>maxChunkSize := sz\<rparr>)"

definition WithMinWindowUpdateSize :: "u32 \<Rightarrow> TunnelOption" where
  "WithMinWindowUpdateSize sz = (\<lambda>t. t\<lparr>minWindowUpdateSize := sz\<rparr>)"

definition WithEstablishmentTimeout :: "i64 \<Rightarrow> TunnelOption" where
  "WithEstablishmentTimeout timeout =
     (let timeout' = (if timeout \<le> 0 then -1 else timeout)
      in (\<lambda>t. t\<lparr>establishmentTimeout := timeout'\<rparr>))"

lemmas with_option_defs =
  WithInitialWindowSize_def WithMaxChunkSize_def WithMinWindowUpdateSize_def
  WithEstablishmentTimeout_def

text \<open>The defaulting part of \<^verbatim>\<open>initOptions\<close>, after the options have been applied.\<close>

definition fillDefaults :: "tunnelOpts \<Rightarrow> tunnelOpts" where
  "fillDefaults t =
     (let t1 = (if initialWindowSize t = 0
                then t\<lparr>initialWindowSize := defaultInitialWindowSize\<rparr>
                else if initialWindowSize t < minInitialWindowSize
                then t\<lparr>initialWindowSize := minInitialWindowSize\<rparr> else t);
          t2 = (if maxChunkSize t1 = 0 then t1\<lparr>maxChunkSize := defaultChunkMax\<rparr> else t1);
          t3 = (if minWindowUpdateSize t2 = 0
                then t2\<lparr>minWindowUpdateSize := defaultUpdateMin\<rparr> else t2)
      in if establishmentTimeout t3 = 0
         then t3\<lparr>establishmentTimeout := defaultEstablishmentTimeout\<rparr> else t3)"

definition initOptions :: "tunnelOpts \<Rightarrow> TunnelOption list \<Rightarrow> tunnelOpts" where
  "initOptions t opts = fillDefaults (fold (\<lambda>opt. opt) opts t)"

text \<open>What every user of the options relies on.\<close>

definition opts_wf :: "tunnelOpts \<Rightarrow> bool" where
  "opts_wf t \<longleftrightarrow> minInitialWindowSize \<le> initialWindowSize t \<and> 0 < maxChunkSize t
     \<and> 0 < minWindowUpdateSize t \<and> establishmentTimeout t \<noteq> 0"

lemma fillDefaults_fields:
  "initialWindowSize (fillDefaults t) =
     (if initialWindowSize t = 0 then defaultInitialWindowSize
      else max (initialWindowSize t) minInitialWindowSize)"
  "maxChunkSize (fillDefaults t) =
     (if maxChunkSize t = 0 then defaultChunkMax else maxChunkSize t)"
  "minWindowUpdateSize (fillDefaults t) =
     (if minWindowUpdateSize t = 0 then defaultUpdateMin else minWindowUpdateSize t)"
  "establishmentTimeout (fillDefaults t) =
     (if establishmentTimeout t = 0 then defaultEstablishmentTimeout
      else establishmentTimeout t)"
  by (auto simp: fillDefaults_def Let_def max_def)

lemma opts_wf_fillDefaults: "opts_wf (fillDefaults t)"
  by (simp add: opts_wf_def fillDefaults_fields option_constants max_def word_less_nat_alt
      word_le_nat_alt unat_gt_0)

lemma fillDefaults_wf_id: "opts_wf t \<Longrightarrow> fillDefaults t = t"
  by (auto simp: opts_wf_def fillDefaults_def Let_def option_constants word_le_nat_alt
      word_less_nat_alt)

lemma opts_wf_initOptions [simp]: "opts_wf (initOptions t opts)"
  by (simp add: initOptions_def opts_wf_fillDefaults)

lemma opts_wf_minWindowSize: "opts_wf t \<Longrightarrow> minWindowSize r \<le> initialWindowSize t"
  using unat_messageOverhead_le [of r]
  by (simp add: opts_wf_def word_le_nat_alt unat_minWindowSize option_constants)

end
