(* ===== verification/Flow_Properties.thy ===== *)
theory Flow_Properties
  imports Flow_Link Reassembly Options
begin

text \<open>
  The properties of flow control and of messages: the sender alone, the receiver alone, both
  ends of a direction with the tunnel between them, and the way of a message through chunks and
  back. \<open>flow_eval\<close> evaluates the definitions on concrete inputs.
\<close>

lemmas flow_eval =
  link_init_def link_snd_def sys_init_def newSender_def newReceiver_def Let_def send_begin_def
  send_load_def send_needed_def send_overhead_def send_cas_def send_chunkSz_def send_after_def
  u32_of_len_def MaxUint32_def outgoing_def client_sendData_def server_sendFunc_def accept_def
  charge_def dequeue_def ack_due_def updateWindow_add_def updateWindow_signal_def min_def max_def
  acked_def then_read_def

lemma link_reach_run:
  "link_reach fr m y0 y \<Longrightarrow> link_run fr m as y = Some z \<Longrightarrow> link_reach fr m y0 z"
  by (induction as arbitrary: y) (auto split: option.splits intro: link_reach.step)

lemma link_reach_call_run:
  "link_snd (Call d) y0 = Some y \<Longrightarrow> link_run fr m as y = Some z \<Longrightarrow> link_reach fr m y0 z"
  using link_reach.call [OF link_reach.start] link_reach_run by metis

subsection \<open>One direction of a stream\<close>

text \<open>
  C1. Requests: in every interleaving of the client's sender, the tunnel and the server's receiver, the
  server never finds the flow control window exceeded; what the client holds, what is in flight,
  queued or waiting to be acknowledged always adds up to the announced window; and the frames are read in
  the order they were sent, none lost, none twice.
\<close>

theorem requests_never_exceed_window:
  assumes "link_reach client_sendData server_measure (link_init w mx mu v) y"
    and "v < w" and "0 < mx"
  shows "lk_err y = None
    \<and> unat (rcv_currentWindow (lk_rcv y)) =
         unat (snd_currentWindow (sys_sender (lk_snd y))) + reserved (lk_snd y)
         + (\<Sum>f\<leftarrow>lk_data y. frame_cost server_measure v f) + (\<Sum>a\<leftarrow>lk_ack y. unat a)
    \<and> unat (rcv_currentWindow (lk_rcv y)) + queued server_measure (lk_rcv y)
         + unat (rcv_windowUpdate (lk_rcv y)) = unat w
    \<and> lk_all y = lk_read y @ rcv_items (lk_rcv y) @ lk_data y"
proof -
  have inv: "link_inv server_measure w (newSender w mx v) y"
    by (rule req.link_reach_inv [OF assms])
  then have "unat (rcv_currentWindow (lk_rcv y)) + queued server_measure (lk_rcv y)
      + unat (rcv_windowUpdate (lk_rcv y)) = unat w"
    by (auto simp: link_inv_def recv_open_def recv_inv_def)
  then show ?thesis
    using inv unfolding link_inv_def newSender_fields by blast
qed

theorem requests_never_exceed_window_witness:
  "\<exists>z. link_reach client_sendData server_measure (link_init 8 2 1 5) z \<and> lk_err z = None
     \<and> lk_read z = [client_sendData [1, 2] 3 True]"
proof -
  obtain y where y: "link_snd (Call [1, 2, 3]) (link_init 8 2 1 5 :: ClientToServerFrame link) = Some y"
    by (simp add: flow_eval)
  obtain z where z: "link_run client_sendData server_measure [LLoad, LCas, LSend, LDeliver, LDequeue, LAck] y = Some z"
    "lk_read z = [client_sendData [1, 2] 3 True]"
    using y by (auto simp: flow_eval)
  have "link_reach client_sendData server_measure (link_init 8 2 1 5) z"
    by (rule link_reach_call_run [OF y z(1)])
  moreover from requests_never_exceed_window [OF this] have "lk_err z = None"
    by (simp add: word_less_nat_alt)
  ultimately show ?thesis using z(2) by blast
qed

text \<open>
  C2. Responses: the same for the server's sender and the client's receiver.
\<close>

theorem responses_never_exceed_window:
  assumes "link_reach server_sendFunc client_measure (link_init w mx mu v) y"
    and "v < w" and "0 < mx"
  shows "lk_err y = None
    \<and> unat (rcv_currentWindow (lk_rcv y)) =
         unat (snd_currentWindow (sys_sender (lk_snd y))) + reserved (lk_snd y)
         + (\<Sum>f\<leftarrow>lk_data y. frame_cost client_measure v f) + (\<Sum>a\<leftarrow>lk_ack y. unat a)
    \<and> unat (rcv_currentWindow (lk_rcv y)) + queued client_measure (lk_rcv y)
         + unat (rcv_windowUpdate (lk_rcv y)) = unat w
    \<and> lk_all y = lk_read y @ rcv_items (lk_rcv y) @ lk_data y"
proof -
  have inv: "link_inv client_measure w (newSender w mx v) y"
    by (rule resp.link_reach_inv [OF assms])
  then have "unat (rcv_currentWindow (lk_rcv y)) + queued client_measure (lk_rcv y)
      + unat (rcv_windowUpdate (lk_rcv y)) = unat w"
    by (auto simp: link_inv_def recv_open_def recv_inv_def)
  then show ?thesis
    using inv unfolding link_inv_def newSender_fields by blast
qed

theorem responses_never_exceed_window_witness:
  "\<exists>z. link_reach server_sendFunc client_measure (link_init 6 4 1 0) z \<and> lk_err z = None
     \<and> rcv_items (lk_rcv z) = [server_sendFunc [7] 1 True]"
proof -
  obtain y where y: "link_snd (Call [7]) (link_init 6 4 1 0 :: ServerToClientFrame link) = Some y"
    by (simp add: flow_eval)
  obtain z where z: "link_run server_sendFunc client_measure [LLoad, LCas, LSend, LDeliver] y = Some z"
    "rcv_items (lk_rcv z) = [server_sendFunc [7] 1 True]"
    using y by (auto simp: flow_eval)
  have "link_reach server_sendFunc client_measure (link_init 6 4 1 0) z"
    by (rule link_reach_call_run [OF y z(1)])
  moreover from responses_never_exceed_window [OF this] have "lk_err z = None"
    by (simp add: word_less_nat_alt)
  ultimately show ?thesis using z(2) by blast
qed

text \<open>
  C3. A request is carried to the end: from every reachable state all runs are bounded, some run leads to a
  state where nothing is left to do, and in such a state the call of send has returned and every frame
  has been read; there is no deadlock and no lost wake-up on the way.
\<close>

theorem request_transfer_completes:
  assumes "link_reach client_sendData server_measure (link_init w mx mu v) y"
    and "v < w" and "0 < mx"
  shows "(\<exists>n. \<forall>as z. link_run client_sendData server_measure as y = Some z \<longrightarrow> length as \<le> n)
    \<and> (\<exists>as z. link_run client_sendData server_measure as y = Some z \<and> link_stuck client_sendData server_measure z)
    \<and> (\<forall>as z. link_run client_sendData server_measure as y = Some z \<and> link_stuck client_sendData server_measure z
         \<longrightarrow> send_idle (sys_pc (lk_snd z)) \<and> lk_read z = lk_all z \<and> lk_ack z = [])"
proof (intro conjI allI impI)
  have inv: "link_inv server_measure w (newSender w mx v) y"
    by (rule req.link_reach_inv [OF assms])
  show "\<exists>n. \<forall>as z. link_run client_sendData server_measure as y = Some z \<longrightarrow> length as \<le> n"
    using req.link_run_bounded [OF inv] add_leE by blast
  show "\<exists>as z. link_run client_sendData server_measure as y = Some z \<and> link_stuck client_sendData server_measure z"
    by (rule req.link_completes [OF inv])
  fix as z assume "link_run client_sendData server_measure as y = Some z \<and> link_stuck client_sendData server_measure z"
  with link_stuck_done [OF req.link_run_inv [OF inv]]
  show "send_idle (sys_pc (lk_snd z))" "lk_read z = lk_all z" "lk_ack z = []"
    by blast+
qed

theorem request_transfer_completes_witness:
  "\<exists>y as z. link_snd (Call [1, 2, 3]) (link_init 8 2 1 5) = Some y
     \<and> link_run client_sendData server_measure as y = Some z \<and> send_idle (sys_pc (lk_snd z))
     \<and> lk_read z = lk_all z"
proof -
  obtain y where y: "link_snd (Call [1, 2, 3]) (link_init 8 2 1 5 :: ClientToServerFrame link) = Some y"
    by (simp add: flow_eval)
  have r: "link_reach client_sendData server_measure (link_init 8 2 1 5) y"
    by (rule link_reach.call [OF link_reach.start y])
  have p: "(5 :: u32) < 8" "(0 :: u32) < 2" by (simp_all add: word_less_nat_alt)
  obtain as z where z: "link_run client_sendData server_measure as y = Some z"
    "link_stuck client_sendData server_measure z"
    using request_transfer_completes [OF r p] by blast
  with request_transfer_completes [OF r p] show ?thesis
    using y by blast
qed

text \<open>C4. A response is carried to the end, in the same sense.\<close>

theorem response_transfer_completes:
  assumes "link_reach server_sendFunc client_measure (link_init w mx mu v) y"
    and "v < w" and "0 < mx"
  shows "(\<exists>n. \<forall>as z. link_run server_sendFunc client_measure as y = Some z \<longrightarrow> length as \<le> n)
    \<and> (\<exists>as z. link_run server_sendFunc client_measure as y = Some z \<and> link_stuck server_sendFunc client_measure z)
    \<and> (\<forall>as z. link_run server_sendFunc client_measure as y = Some z \<and> link_stuck server_sendFunc client_measure z
         \<longrightarrow> send_idle (sys_pc (lk_snd z)) \<and> lk_read z = lk_all z \<and> lk_ack z = [])"
proof (intro conjI allI impI)
  have inv: "link_inv client_measure w (newSender w mx v) y"
    by (rule resp.link_reach_inv [OF assms])
  show "\<exists>n. \<forall>as z. link_run server_sendFunc client_measure as y = Some z \<longrightarrow> length as \<le> n"
    using resp.link_run_bounded [OF inv] add_leE by blast
  show "\<exists>as z. link_run server_sendFunc client_measure as y = Some z \<and> link_stuck server_sendFunc client_measure z"
    by (rule resp.link_completes [OF inv])
  fix as z assume "link_run server_sendFunc client_measure as y = Some z \<and> link_stuck server_sendFunc client_measure z"
  with link_stuck_done [OF resp.link_run_inv [OF inv]]
  show "send_idle (sys_pc (lk_snd z))" "lk_read z = lk_all z" "lk_ack z = []"
    by blast+
qed

theorem response_transfer_completes_witness:
  "\<exists>y as z. link_snd (Call [9]) (link_init 6 4 1 0) = Some y
     \<and> link_run server_sendFunc client_measure as y = Some z \<and> send_idle (sys_pc (lk_snd z))
     \<and> lk_read z = lk_all z"
proof -
  obtain y where y: "link_snd (Call [9]) (link_init 6 4 1 0 :: ServerToClientFrame link) = Some y"
    by (simp add: flow_eval)
  have r: "link_reach server_sendFunc client_measure (link_init 6 4 1 0) y"
    by (rule link_reach.call [OF link_reach.start y])
  have p: "(0 :: u32) < 6" "(0 :: u32) < 4" by (simp_all add: word_less_nat_alt)
  obtain as z where z: "link_run server_sendFunc client_measure as y = Some z"
    "link_stuck server_sendFunc client_measure z"
    using response_transfer_completes [OF r p] by blast
  with response_transfer_completes [OF r p] show ?thesis
    using y by blast
qed

subsection \<open>Messages\<close>

text \<open>
  C5. Requests: however the client's sender cuts a message into chunks, the server's read loop puts it
  together again, takes exactly its frames from the queue and leaves the rest.
\<close>

theorem request_round_trip:
  assumes "is_chunking mx msg cs" and "length msg \<le> MaxUint32"
    and "\<not> rcv_cancelled r" and "rcv_items r = map (\<lambda>(d, n, b). client_sendData d n b) cs @ fs"
  shows "\<exists>r' us. server_read_loop None hc True (-1) [] r = (RdRet (msg, True, None), r', us)
    \<and> rcv_items r' = fs \<and> \<not> rcv_cancelled r'"
  using server_reader.read_message [OF assms(1-3)] assms(4) by (simp add: req.frames_def)

theorem request_round_trip_witness:
  "\<exists>r' us. server_read_loop None None True (-1) []
      ((newReceiver 8 1 5)\<lparr>rcv_items := [client_sendData [1, 2] 3 True, client_sendData [3] 3 False]\<rparr>)
    = (RdRet ([1, 2, 3], True, None), r', us) \<and> rcv_items r' = [] \<and> \<not> rcv_cancelled r'"
proof -
  have "is_chunking 2 [1, 2, 3] [([1, 2], 3, True), ([3], 3, False)]"
    by (simp add: is_chunking_def chunk_prefix_def u32_of_len_def)
  then show ?thesis
    by (rule request_round_trip) (simp_all add: MaxUint32_def)
qed

text \<open>C6. Responses: the same for the server's sender and the client's read loop.\<close>

theorem response_round_trip:
  assumes "is_chunking mx msg cs" and "length msg \<le> MaxUint32"
    and "\<not> rcv_cancelled r" and "rcv_items r = map (\<lambda>(d, n, b). server_sendFunc d n b) cs @ fs"
  shows "\<exists>r' us. client_read_loop peer dn (-1) [] r = (RdRet (msg, True, None), r', us)
    \<and> rcv_items r' = fs \<and> \<not> rcv_cancelled r'"
  using client_reader.read_message [OF assms(1-3)] assms(4) by (simp add: resp.frames_def)

theorem response_round_trip_witness:
  "\<exists>r' us. client_read_loop ''server'' None (-1) []
      ((newReceiver 8 1 5)\<lparr>rcv_items := [server_sendFunc [] 0 True, server_sendFunc [4] 1 True]\<rparr>)
    = (RdRet ([], True, None), r', us) \<and> rcv_items r' = [server_sendFunc [4] 1 True] \<and> \<not> rcv_cancelled r'"
proof -
  have "is_chunking 2 [] [([], 0, True)]"
    by (simp add: is_chunking_def chunk_prefix_def u32_of_len_def)
  then show ?thesis
    by (rule response_round_trip) (simp_all add: MaxUint32_def)
qed

text \<open>
  C7. The sender cuts a message completely: when a call of send returns without an error, in any interleaving,
  the chunks it sent are the message, in order, each of them not longer than the maximum chunk size,
  carrying the size of the message and marked as first exactly where it is.
\<close>

theorem send_cuts_message:
  assumes "send_reach s0 y" and "sender_wf s0" and "sys_pc y = Returned None"
  shows "is_chunking (unat (snd_maxChunkSize s0)) (sys_msg y) (sys_out y)"
  using send_reach_inv [OF assms(1,2)] assms(3) by (auto simp: send_inv_def)

theorem send_cuts_message_witness:
  "\<exists>y. send_reach (newSender 8 2 5) y \<and> is_chunking 2 [1, 2, 3] (sys_out y)
     \<and> sys_out y = [([1, 2], 3, True), ([3], 3, False)]"
proof -
  obtain y where y: "sys_run [Call [1, 2, 3], Load, Cas, SendFunc None, Load, Cas, SendFunc None]
      (sys_init (newSender 8 2 5)) = Some y"
    "sys_pc y = Returned None" "sys_msg y = [1, 2, 3]" "sys_out y = [([1, 2], 3, True), ([3], 3, False)]"
    by (simp add: flow_eval)
  have r: "send_reach (newSender 8 2 5) y"
    by (rule send_reach_run [OF send_reach.start y(1)])
  have "sender_wf (newSender 8 2 5)"
    by (simp add: sender_wf_def newSender_def word_less_nat_alt)
  from send_cuts_message [OF r this y(2)] show ?thesis
    using r y by (auto simp: unat_min_word min_def)
qed

text \<open>
  C8. No lost wake-up: while a call of send waits for window although the window suffices for its next
  chunk, a token is in the channel it waits on, or an update that has yet to signal will put one there.
\<close>

theorem sender_no_lost_wakeup:
  assumes "send_reach s0 y" and "sender_wf s0" and "sys_pc y = AtSelect d i"
    and "send_needed (sys_sender y) d i \<le> snd_currentWindow (sys_sender y)"
  shows "snd_windowUpdates (sys_sender y) \<or>
    (\<exists>p\<in>set (sys_upd y). snd_windowUpdates (updateWindow_signal p (sys_sender y)))"
  using send_reach_inv [OF assms(1,2)] assms(3,4)
  by (auto simp: send_inv_def updateWindow_signal_def)

theorem sender_no_lost_wakeup_witness:
  "\<exists>y. send_reach (newSender 6 4 5) y \<and> sys_pc y = AtSelect [2, 3] 1
     \<and> (snd_windowUpdates (sys_sender y) \<or>
        (\<exists>p\<in>set (sys_upd y). snd_windowUpdates (updateWindow_signal p (sys_sender y))))"
proof -
  have "\<exists>y. sys_run [Call [1, 2, 3], Load, Cas, SendFunc None, Load, UpdAdd 6]
      (sys_init (newSender 6 4 5)) = Some y \<and> sys_pc y = AtSelect [2, 3] 1
      \<and> send_needed (sys_sender y) [2, 3] 1 \<le> snd_currentWindow (sys_sender y)"
    by (simp add: flow_eval word_le_nat_alt word_less_nat_alt)
  then obtain y where y: "sys_run [Call [1, 2, 3], Load, Cas, SendFunc None, Load, UpdAdd 6]
      (sys_init (newSender 6 4 5)) = Some y"
    "sys_pc y = AtSelect [2, 3] 1"
    "send_needed (sys_sender y) [2, 3] 1 \<le> snd_currentWindow (sys_sender y)"
    by blast
  have r: "send_reach (newSender 6 4 5) y"
    by (rule send_reach_run [OF send_reach.start y(1)])
  have "sender_wf (newSender 6 4 5)"
    by (simp add: sender_wf_def newSender_def word_less_nat_alt)
  from sender_no_lost_wakeup [OF r this y(2,3)] show ?thesis
    using r y by blast
qed

text \<open>
  The sender never spends more than it was given: the bytes and overheads it has charged, with the window it
  still holds, never exceed the initial window and the updates received; nothing wraps around.
\<close>

lemma sender_within_credit:
  assumes "send_reach s0 y" and "sender_wf s0"
  shows "sys_charged y + unat (snd_currentWindow (sys_sender y))
    \<le> unat (snd_currentWindow s0) + sys_credit y"
  using send_reach_inv [OF assms] by (simp add: send_inv_def)

text \<open>
  C22. The receiver's queue: for every sequence of accept and dequeue on an open receiver, the frames come
  out in the order they were accepted, and the queue never holds more than the window accounts for.
\<close>

theorem receiver_fifo_bounded:
  assumes "v < w" and "queue_run (accept m) (dequeue m) ops (newReceiver w mu v) = (ins, outs, q)"
  shows "ins = outs @ rcv_items q \<and> (\<Sum>x\<leftarrow>rcv_items q. frame_cost m v x) \<le> unat w"
proof -
  have op: "recv_open m v (unat w) (newReceiver w mu v)"
    using recv_inv_new [OF assms(1)] by (simp add: recv_open_def)
  show ?thesis
    using rq.run_fifo [OF op assms(2)] rq.run_bounded [OF op assms(2)] by simp
qed

theorem receiver_fifo_bounded_witness:
  "\<exists>q. queue_run (accept server_measure) (dequeue server_measure)
      [Put (client_sendData [1] 2 True), Put (client_sendData [2, 3, 4] 2 False), Put (client_sendData [2] 2 False), Take]
      (newReceiver 8 1 5)
    = ([client_sendData [1] 2 True, client_sendData [2] 2 False], [client_sendData [1] 2 True], q)
    \<and> (\<Sum>x\<leftarrow>rcv_items q. frame_cost server_measure 5 x) \<le> unat (8 :: u32)"
proof -
  let ?ops = "[Put (client_sendData [1] 2 True), Put (client_sendData [2, 3, 4] 2 False),
    Put (client_sendData [2] 2 False), Take]"
  obtain q where q: "queue_run (accept server_measure) (dequeue server_measure) ?ops (newReceiver 8 1 5)
      = ([client_sendData [1] 2 True, client_sendData [2] 2 False], [client_sendData [1] 2 True], q)"
    by (simp add: flow_eval)
  have "(5 :: u32) < 8" by (simp add: word_less_nat_alt)
  from receiver_fifo_bounded [OF this q] show ?thesis using q by blast
qed

subsection \<open>Options and metadata\<close>

text \<open>
  Whatever options are given, the tunnel's options are usable: the window leaves room for a message's overhead
  and a byte in every protocol revision, chunks are not empty, updates are not of size zero; and setting
  defaults a second time changes nothing.
\<close>

lemma options_usable:
  "opts_wf (initOptions t opts) \<and> minWindowSize rv \<le> initialWindowSize (initOptions t opts)
    \<and> fillDefaults (initOptions t opts) = initOptions t opts"
  by (simp add: opts_wf_minWindowSize fillDefaults_wf_id)

text \<open>
  Metadata survives the conversion to the wire and back: the same keys with the same values; only a nil map
  comes back as an empty one.
\<close>

lemma metadata_round_trip:
  "fromProto (Some (toProto md)) = Some (md_entries md)
    \<and> md_entries (fromProto (Some (toProto md))) k = md_entries md k"
  by (simp add: fromProto_toProto) (simp add: md_entries_def)

end
