(* ===== verification/Contracts.thy ===== *)
theory Contracts
  imports Prelude
begin

text \<open>
  Contracts that several components meet. \<open>latch\<close>: a value that is set once, where the first setting
  wins (the errors that end a stream, a channel or a context). \<open>stream_registry\<close>: the table of streams of
  one end of a tunnel, which must tell a frame for a finished stream (ignored) from a frame for a
  stream that never existed (a protocol error). \<open>shutdown_gate\<close>: the flag that refuses new streams
  once shutdown began. The components interpret them on their own operations.
\<close>

locale latch =
  fixes store :: "'v \<Rightarrow> 's \<Rightarrow> 's"
    and val :: "'s \<Rightarrow> 'e option"
    and norm :: "'v \<Rightarrow> 'e"
  assumes store_first: "val s = None \<Longrightarrow> val (store v s) = Some (norm v)"
    and store_again: "val s = Some e \<Longrightarrow> val (store v s) = Some e"
begin

lemma kept: "val s = Some e \<Longrightarrow> val (fold store vs s) = Some e"
  by (induction vs arbitrary: s) (simp_all add: store_again)

lemma first_wins: "val s = None \<Longrightarrow> val (fold store (v # vs) s) = Some (norm v)"
  by (simp add: kept store_first)

lemma set_stays: "val (fold store vs s) = None \<Longrightarrow> vs = [] \<and> val s = None"
  using first_wins kept by (cases vs; cases "val s") (auto simp del: fold.simps)

end

interpretation ctx_latch: latch ctx_end "\<lambda>c. c" "\<lambda>e. e"
  by unfold_locales (simp_all add: ctx_end_def)

locale stream_registry =
  fixes lookup :: "i64 \<Rightarrow> 't \<Rightarrow> gerror + i64 option"
    and remove :: "i64 \<Rightarrow> 't \<Rightarrow> 't"
    and live :: "'t \<Rightarrow> i64 set"
    and used :: "'t \<Rightarrow> i64 \<Rightarrow> bool"
  assumes lookup_live: "i \<in> live t \<Longrightarrow> lookup i t = Inr (Some i)"
    and lookup_used: "i \<notin> live t \<Longrightarrow> used t i \<Longrightarrow> lookup i t = Inr None"
    and lookup_unknown: "i \<notin> live t \<Longrightarrow> \<not> used t i \<Longrightarrow> \<exists>e. lookup i t = Inl e \<and> error_code e = Some Internal"
    and live_remove: "live (remove i t) = live t - {i}"
    and used_remove: "used (remove i t) = used t"
begin

definition registry_ok :: "'t \<Rightarrow> bool" where
  "registry_ok t \<longleftrightarrow> (\<forall>i\<in>live t. used t i)"

lemma registry_ok_remove: "registry_ok t \<Longrightarrow> registry_ok (remove i t)"
  by (simp add: registry_ok_def live_remove used_remove)

lemma late_frame_ignored: "registry_ok t \<Longrightarrow> i \<in> live t \<Longrightarrow> lookup i (remove i t) = Inr None"
  by (intro lookup_used) (simp_all add: live_remove used_remove registry_ok_def)

lemma remove_other: "i \<noteq> j \<Longrightarrow> lookup i (remove j t) = lookup i t \<or> i \<notin> live t \<and> \<not> used t i"
  using lookup_live [of i] lookup_used [of i] by (cases "i \<in> live t"; cases "used t i")
    (auto simp: live_remove used_remove)

lemma fails_iff: "registry_ok t \<Longrightarrow> isl (lookup i t) \<longleftrightarrow> \<not> used t i"
  using lookup_live [of i t] lookup_used [of i t] lookup_unknown [of i t]
  by (cases "i \<in> live t"; cases "used t i") (auto simp: registry_ok_def)

lemma removes_never_fail:
  "registry_ok t \<Longrightarrow> used t i \<Longrightarrow> \<not> isl (lookup i (fold remove js t))"
  by (induction js arbitrary: t) (simp_all add: fails_iff registry_ok_remove used_remove)

end

locale shutdown_gate =
  fixes closing :: "'s \<Rightarrow> bool"
    and step :: "'o \<Rightarrow> 's \<Rightarrow> 's"
    and shuts :: "'o \<Rightarrow> bool"
  assumes closing_step: "closing s \<Longrightarrow> closing (step x s)"
    and closing_shut: "shuts x \<Longrightarrow> closing (step x s)"
begin

lemma closing_stays: "closing s \<Longrightarrow> closing (fold step xs s)"
  by (induction xs arbitrary: s) (simp_all add: closing_step)

lemma closing_after: "x \<in> set xs \<Longrightarrow> shuts x \<Longrightarrow> closing (fold step xs s)"
  by (induction xs arbitrary: s) (auto simp: closing_shut closing_stays)

end

end
