(* ===== verification/Client_Stream.thy ===== *)
theory Client_Stream
  imports Contracts Options Sender Reassembly
begin

text \<open>
  The client's end of one RPC (\<^verbatim>\<open>tunnelClientStream\<close> in \<^verbatim>\<open>tunnel_client.go\<close>). Go channels that are only
  ever closed are flags. Operations on the stream alone are functions on its record; those that
  reach into the channel (\<^verbatim>\<open>finishStream\<close> removes the stream from it) are in \<open>Client_Channel\<close>.
  \<open>cs_pc\<close> and \<open>cs_sendSize\<close> are the call of \<^verbatim>\<open>sender.send\<close> in progress, under \<^verbatim>\<open>writeMu\<close>: an operation
  that needs the mutex is \<open>None\<close> (it waits) while there is one.
\<close>

record tunnelClientStream =
  cs_ctx :: ctx
  cs_streamID :: i64
  cs_method :: string
  cs_headersTargets :: "nat list"
  cs_trailersTargets :: "nat list"
  cs_isClientStream :: bool
  cs_isServerStream :: bool
  cs_sender :: sender
  cs_receiver :: "ServerToClientFrame receiver"
  cs_done :: "gerror option"
  cs_gotHeaders :: bool
  cs_gotHeadersSignal :: bool
  cs_headers :: MD
  cs_doneSignal :: bool
  cs_trailers :: MD
  cs_readErr :: "gerror option"
  cs_numSent :: u32
  cs_halfClosed :: bool
  cs_pc :: send_pc
  cs_sendSize :: u32

datatype 'a wait = Blocks | Ready 'a

subsection \<open>Headers, trailers, half-close\<close>

definition client_Header :: "tunnelClientStream \<Rightarrow> (MD \<times> gerror option) wait" where
  "client_Header st =
     (if cs_gotHeadersSignal st then Ready (cs_headers st, None)
      else case cs_ctx st of None \<Rightarrow> Blocks | Some e \<Rightarrow> Ready (None, Some e))"

definition client_Trailer :: "tunnelClientStream \<Rightarrow> MD" where
  "client_Trailer st = (if cs_doneSignal st then cs_trailers st else None)"

text \<open>
  \<^verbatim>\<open>CloseSend\<close>: what it returns when \<^verbatim>\<open>Send\<close> returns \<open>sendRes\<close>, the stream, and the frame it sends,
  if any.
\<close>

definition client_CloseSend :: "gerror option \<Rightarrow> tunnelClientStream
    \<Rightarrow> (gerror option \<times> tunnelClientStream \<times> ClientToServerFrame list) option" where
  "client_CloseSend sendRes st =
     (if \<not> send_idle (cs_pc st) then None
      else if cs_doneSignal st then Some (None, st, [])
      else if cs_halfClosed st then Some (Some (ErrorsNew ''already half-closed''), st, [])
      else Some (sendRes, st\<lparr>cs_halfClosed := True\<rparr>, [ClientToServer_HalfClose]))"

subsection \<open>Sending messages\<close>

definition errAlreadySent :: "string \<Rightarrow> gerror" where
  "errAlreadySent method = Errorf Internal
     ''Already sent response for non-server-stream method %s'' [AStr method]"

text \<open>
  \<^verbatim>\<open>SendMsg\<close> up to its call of \<^verbatim>\<open>sender.send\<close>, which then stands at its beginning; or the error
  it returns before. \<open>marshal\<close> is \<^verbatim>\<open>proto.Marshal\<close>.
\<close>

definition client_SendMsg :: "('m \<Rightarrow> gerror + bytes) \<Rightarrow> 'm \<Rightarrow> tunnelClientStream
    \<Rightarrow> (gerror option \<times> tunnelClientStream) option" where
  "client_SendMsg marshal m st =
     (if \<not> send_idle (cs_pc st) then None
      else if \<not> cs_isClientStream st \<and> cs_numSent st = 1
      then Some (Some (errAlreadySent (cs_method st)), st)
      else let st' = st\<lparr>cs_numSent := cs_numSent st + 1\<rparr>
           in case marshal m of
                Inl e \<Rightarrow> Some (Some e, st')
              | Inr b \<Rightarrow> if length b > MaxUint32 then Some (Some (errTooLarge b), st')
                         else Some (None, st'\<lparr>cs_pc := send_begin b, cs_sendSize := u32_of_len b\<rparr>))"

text \<open>
  One atomic operation of the call of \<^verbatim>\<open>send\<close> in progress, as in \<open>Sender\<close>, and the frame that
  \<^verbatim>\<open>sendData\<close> sends with it.
\<close>

definition client_send_do :: "send_act \<Rightarrow> tunnelClientStream
    \<Rightarrow> (tunnelClientStream \<times> ClientToServerFrame list) option" where
  "client_send_do a st =
     (case sys_do a ((sys_init (cs_sender st))\<lparr>sys_pc := cs_pc st, sys_size := cs_sendSize st,
                       sys_ctx := cs_ctx st\<rparr>) of
        None \<Rightarrow> None
      | Some y \<Rightarrow> Some (st\<lparr>cs_sender := sys_sender y, cs_pc := sys_pc y\<rparr>,
                        map (\<lambda>(d, n, b). client_sendData d n b) (sys_out y)))"

subsection \<open>Reading messages\<close>

text \<open>
  Where a call of \<^verbatim>\<open>readMsg\<close> waits for a frame: in its first read, or in the second, eager one, with the
  data of the first. \<^verbatim>\<open>readMsgLocked\<close> is entered afresh (\<open>None\<close>) or resumed with its variables.
\<close>

datatype read_phase = FirstRead int bytes | SecondRead bytes int bytes

datatype msg_res = MsgRet read_ret | MsgBlock read_phase

definition client_readMsgLocked :: "string \<Rightarrow> (int \<times> bytes) option \<Rightarrow> tunnelClientStream
    \<Rightarrow> read_res \<times> tunnelClientStream \<times> u32 list" where
  "client_readMsgLocked peer entry st =
     (if entry = None \<and> cs_readErr st \<noteq> None then (RdRet ([], True, cs_readErr st), st, [])
      else let (msgLen, b) = (case entry of None \<Rightarrow> (-1, []) | Some e \<Rightarrow> e)
           in case client_read_loop peer (cs_done st) msgLen b (cs_receiver st) of (res, r, us) \<Rightarrow>
                let st' = st\<lparr>cs_receiver := r\<rparr>
                in case res of
                     RdRet (d, ok, Some e) \<Rightarrow> (res, st'\<lparr>cs_readErr := Some e\<rparr>, us)
                   | _ \<Rightarrow> (res, st', us))"

definition errMultipleResponses :: "string \<Rightarrow> string \<Rightarrow> gerror" where
  "errMultipleResponses peer method = Errorf Internal
     ''%s sent multiple responses for non-server-stream method %s'' [AStr peer, AStr method]"

definition client_readSecond :: "string \<Rightarrow> bytes \<Rightarrow> (int \<times> bytes) option \<Rightarrow> tunnelClientStream
    \<Rightarrow> msg_res \<times> tunnelClientStream \<times> u32 list" where
  "client_readSecond peer data entry st =
     (case client_readMsgLocked peer entry st of
        (RdBlock k b, st', us) \<Rightarrow> (MsgBlock (SecondRead data k b), st', us)
      | (RdRet (_, ok, None), st', us) \<Rightarrow>
          (let err = errMultipleResponses peer (cs_method st)
           in (MsgRet ([], False, Some err), st'\<lparr>cs_readErr := Some err\<rparr>, us))
      | (RdRet (_, ok, Some e), st', us) \<Rightarrow>
          (if e \<noteq> EOF \<or> \<not> ok then (MsgRet ([], ok, Some e), st', us)
           else (MsgRet (data, True, None), st', us)))"

definition client_readFirst :: "string \<Rightarrow> (int \<times> bytes) option \<Rightarrow> tunnelClientStream
    \<Rightarrow> msg_res \<times> tunnelClientStream \<times> u32 list" where
  "client_readFirst peer entry st =
     (case client_readMsgLocked peer entry st of
        (RdBlock k b, st', us) \<Rightarrow> (MsgBlock (FirstRead k b), st', us)
      | (RdRet (d, ok, err), st', us) \<Rightarrow>
          (if err = None \<and> \<not> cs_isServerStream st
           then (case client_readSecond peer d None st' of (res, st'', us') \<Rightarrow> (res, st'', us @ us'))
           else (MsgRet (d, ok, err), st', us)))"

definition client_readMsg :: "string \<Rightarrow> read_phase option \<Rightarrow> tunnelClientStream
    \<Rightarrow> msg_res \<times> tunnelClientStream \<times> u32 list" where
  "client_readMsg peer phase st =
     (case phase of
        None \<Rightarrow> client_readFirst peer None st
      | Some (FirstRead k b) \<Rightarrow> client_readFirst peer (Some (k, b)) st
      | Some (SecondRead d k b) \<Rightarrow> client_readSecond peer d (Some (k, b)) st)"

text \<open>The receiver's \<^verbatim>\<open>updateWindow\<close> closure: no update is sent once the stream is done.\<close>

definition client_sendUpdates :: "u32 list \<Rightarrow> tunnelClientStream \<Rightarrow> ClientToServerFrame list" where
  "client_sendUpdates us st =
     (if cs_done st \<noteq> None then [] else map ClientToServer_WindowUpdate us)"

subsection \<open>Finishing\<close>

definition finish_err :: "gerror option \<Rightarrow> gerror" where
  "finish_err err = (case err of
      None \<Rightarrow> EOF
    | Some CtxDeadlineExceeded \<Rightarrow> Errorf DeadlineExceeded ''context deadline exceeded'' []
    | Some CtxCanceled \<Rightarrow> Errorf Canceled ''context canceled'' []
    | Some e \<Rightarrow> e)"

text \<open>What \<^verbatim>\<open>finishStream\<close> does to the stream itself: \<open>None\<close> if it was finished before.\<close>

definition client_finish :: "gerror option \<Rightarrow> MD \<Rightarrow> tunnelClientStream \<Rightarrow> tunnelClientStream option" where
  "client_finish err trailers st =
     (if cs_done st \<noteq> None then None
      else Some (st\<lparr>cs_done := Some (finish_err err), cs_trailers := trailers,
                   cs_gotHeaders := True, cs_gotHeadersSignal := True, cs_doneSignal := True,
                   cs_receiver := close_receiver (cs_receiver st),
                   cs_ctx := ctx_cancel (cs_ctx st)\<rparr>))"

definition client_gotHeaders :: "Metadata \<Rightarrow> tunnelClientStream \<Rightarrow> tunnelClientStream option" where
  "client_gotHeaders h st =
     (if cs_gotHeaders st then None
      else Some (st\<lparr>cs_gotHeaders := True, cs_headers := fromProto (Some h),
                   cs_gotHeadersSignal := True\<rparr>))"

lemmas client_stream_ops [go_defs] =
  client_Header_def client_Trailer_def client_CloseSend_def client_SendMsg_def
  client_finish_def client_gotHeaders_def

subsection \<open>Invariant\<close>

text \<open>
  A stream that is not finished has an open receiver; once it is finished the reader finds an end
  and an error, the headers are settled and the context is done. \<open>W\<close> is the window the channel
  announced for its streams.
\<close>

definition client_stream_ok :: "nat \<Rightarrow> tunnelClientStream \<Rightarrow> bool" where
  "client_stream_ok W st \<longleftrightarrow>
     (cs_done st \<noteq> None \<longleftrightarrow> cs_doneSignal st)
     \<and> (cs_gotHeaders st \<longleftrightarrow> cs_gotHeadersSignal st)
     \<and> (cs_done st \<noteq> None \<longrightarrow> cs_gotHeaders st \<and> rcv_closed (cs_receiver st) \<and> cs_ctx st \<noteq> None)
     \<and> (rcv_closed (cs_receiver st) \<or> rcv_cancelled (cs_receiver st) \<longrightarrow> cs_done st \<noteq> None)
     \<and> recv_inv client_measure W (cs_receiver st) \<and> sender_wf (cs_sender st)"

lemma client_finish_ok:
  "client_stream_ok W st \<Longrightarrow> client_finish err tr st = Some st' \<Longrightarrow> client_stream_ok W st'"
  by (auto simp: client_stream_ok_def client_finish_def recv_inv_close split: if_splits)

lemma client_gotHeaders_ok:
  "client_stream_ok W st \<Longrightarrow> client_gotHeaders h st = Some st' \<Longrightarrow> client_stream_ok W st'"
  by (auto simp: client_stream_ok_def client_gotHeaders_def split: if_splits)

lemma client_CloseSend_ok:
  "client_stream_ok W st \<Longrightarrow> client_CloseSend e st = Some (r, st', fs) \<Longrightarrow> client_stream_ok W st'"
  by (auto simp: client_stream_ok_def client_CloseSend_def split: if_splits)

lemma client_SendMsg_ok:
  "client_stream_ok W st \<Longrightarrow> client_SendMsg ms m st = Some (r, st') \<Longrightarrow> client_stream_ok W st'"
  by (auto simp: client_stream_ok_def client_SendMsg_def Let_def split: if_splits sum.splits)

lemma client_send_do_ok:
  "client_stream_ok W st \<Longrightarrow> client_send_do a st = Some (st', fs) \<Longrightarrow> client_stream_ok W st'"
  by (auto simp: client_stream_ok_def client_send_do_def sys_init_def split: option.splits dest!: sys_do_wf)

subsection \<open>Reading keeps the invariant\<close>

lemma client_read_loop_keeps:
  assumes "client_read_loop peer dn k b r = (res, r', us)"
  shows "rcv_closed r' = rcv_closed r" and "rcv_cancelled r' = rcv_cancelled r"
    and "recv_inv client_measure W r \<Longrightarrow> recv_inv client_measure W r'"
proof -
  show "rcv_closed r' = rcv_closed r"
    by (rule client_reader.loop_keeps [OF _ assms, of "\<lambda>s. rcv_closed s = rcv_closed r"])
       (simp_all add: dequeue_flags)
  show "rcv_cancelled r' = rcv_cancelled r"
    by (rule client_reader.loop_keeps [OF _ assms, of "\<lambda>s. rcv_cancelled s = rcv_cancelled r"])
       (simp_all add: dequeue_flags)
  show "recv_inv client_measure W r \<Longrightarrow> recv_inv client_measure W r'"
    by (rule client_reader.loop_keeps [OF _ assms, of "recv_inv client_measure W"])
       (simp_all add: recv_inv_dequeue_eq)
qed

text \<open>What reading may change of a stream.\<close>

definition reads_from :: "tunnelClientStream \<Rightarrow> tunnelClientStream \<Rightarrow> bool" where
  "reads_from st st' \<longleftrightarrow>
     st'\<lparr>cs_receiver := cs_receiver st, cs_readErr := cs_readErr st\<rparr> = st
     \<and> rcv_closed (cs_receiver st') = rcv_closed (cs_receiver st)
     \<and> rcv_cancelled (cs_receiver st') = rcv_cancelled (cs_receiver st)
     \<and> (\<forall>W. recv_inv client_measure W (cs_receiver st) \<longrightarrow> recv_inv client_measure W (cs_receiver st'))"

lemma reads_from_refl [simp]: "reads_from st st"
  by (simp add: reads_from_def)

lemma reads_from_fields:
  assumes "reads_from st st'"
  shows "cs_done st' = cs_done st" "cs_ctx st' = cs_ctx st" "cs_streamID st' = cs_streamID st"
    "cs_method st' = cs_method st" "cs_isServerStream st' = cs_isServerStream st"
    "cs_doneSignal st' = cs_doneSignal st" "cs_gotHeaders st' = cs_gotHeaders st"
    "cs_gotHeadersSignal st' = cs_gotHeadersSignal st" "cs_sender st' = cs_sender st"
  using assms by (cases st; cases st'; simp add: reads_from_def)+

lemma reads_from_trans: "reads_from st st' \<Longrightarrow> reads_from st' st'' \<Longrightarrow> reads_from st st''"
  by (cases st; cases st'; cases st''; simp add: reads_from_def)

lemma reads_from_readErr: "reads_from st st' \<Longrightarrow> reads_from st (st'\<lparr>cs_readErr := e\<rparr>)"
  by (simp add: reads_from_def)

lemma reads_from_ok: "reads_from st st' \<Longrightarrow> client_stream_ok W st \<Longrightarrow> client_stream_ok W st'"
  using reads_from_fields [of st st'] by (auto simp: reads_from_def client_stream_ok_def)

lemma client_readMsgLocked_reads:
  "client_readMsgLocked peer e st = (res, st', us) \<Longrightarrow> reads_from st st'"
proof -
  assume *: "client_readMsgLocked peer e st = (res, st', us)"
  show ?thesis
  proof (cases "e = None \<and> cs_readErr st \<noteq> None")
    case True
    then show ?thesis using * by (auto simp: client_readMsgLocked_def)
  next
    case False
    obtain k b where kb: "(case e of None \<Rightarrow> (-1, []) | Some x \<Rightarrow> x) = (k, b)" by fastforce
    obtain res' r us' where lp: "client_read_loop peer (cs_done st) k b (cs_receiver st) = (res', r, us')"
      by (metis prod_cases3)
    have "\<exists>err. st' = st\<lparr>cs_receiver := r, cs_readErr := err\<rparr>"
      using * False kb lp
      by (auto simp: client_readMsgLocked_def Let_def split: read_res.splits option.splits prod.splits if_splits
          intro: exI [of _ "cs_readErr st"])
    then show ?thesis
      using client_read_loop_keeps [OF lp] by (auto simp: reads_from_def)
  qed
qed

lemma client_readSecond_reads:
  "client_readSecond peer d e st = (res, st', us) \<Longrightarrow> reads_from st st'"
  by (auto simp: client_readSecond_def Let_def intro: reads_from_readErr dest!: client_readMsgLocked_reads
      split: prod.splits read_res.splits option.splits if_splits)

lemma client_readFirst_reads:
  "client_readFirst peer e st = (res, st', us) \<Longrightarrow> reads_from st st'"
  by (auto simp: client_readFirst_def split: prod.splits read_res.splits option.splits if_splits
      intro: reads_from_trans dest!: client_readMsgLocked_reads client_readSecond_reads)

lemma client_readMsg_reads:
  "client_readMsg peer ph st = (res, st', us) \<Longrightarrow> reads_from st st'"
  by (auto simp: client_readMsg_def split: option.splits read_phase.splits
      dest!: client_readFirst_reads client_readSecond_reads)

end
