(* ===== verification/Client_Channel.thy ===== *)
theory Client_Channel
  imports Client_Stream
begin

text \<open>
  The client's end of a tunnel (\<^verbatim>\<open>tunnelChannel\<close> in \<^verbatim>\<open>tunnel_client.go\<close>): negotiation, the table of streams,
  allocation of stream IDs, the receive loop, and the operations of streams that reach into the
  channel. Streams are objects that outlive their entry in the table, so \<open>ch_heap\<close> holds every stream
  ever allocated and \<^verbatim>\<open>streams\<close> is the set of the registered ones, \<open>None\<close> once the map is nil.
  Each operation is what runs under the channel's or the stream's mutex.

  The last fields are the channel's surroundings: the variables of callers that call options point to, how
  often \<^verbatim>\<open>tearDown\<close> was called and the receive loop ended (which calls \<^verbatim>\<open>streamDone\<close>, if there is one), the frames the transport took, the frames that a
  goroutine of \<^verbatim>\<open>cancelStream\<close> has yet to send, and the streams whose context a goroutine of
  \<^verbatim>\<open>newStream\<close> watches. What the transport's \<^verbatim>\<open>Send\<close> and \<^verbatim>\<open>Recv\<close> return is an argument.
\<close>

subsection \<open>State\<close>

record Peer =
  Addr :: string
  AuthInfo :: bool

text \<open>Credentials as their methods; the map \<^verbatim>\<open>GetRequestMetadata\<close> returns, in iteration order.\<close>

record Creds =
  Creds_type :: string
  RequireTransportSecurity :: bool
  GetRequestMetadata :: "string \<Rightarrow> gerror + (string \<times> string) list"

datatype CallOption =
    HeaderCallOption nat
  | TrailerCallOption nat
  | PeerCallOption nat
  | PerRPCCredsCallOption Creds
  | TunnelChannelCallOption nat
  | OtherCallOption

record caller_mem =
  mem_md :: "nat \<Rightarrow> MD"
  mem_peer :: "nat \<Rightarrow> Peer option"
  mem_ch :: "nat \<Rightarrow> bool"

text \<open>Where the goroutine of \<^verbatim>\<open>recvLoop\<close> stands: before its loop, in it, or ended.\<close>

datatype loop_pc = LoopStart | LoopRunning | LoopEnded

record tunnelChannel =
  ch_tunnelMetadata :: MD
  ch_serverSendsSettings :: bool
  ch_reverse :: bool
  ch_tunnelOpts :: tunnelOpts
  ch_ctx :: ctx
  ch_peer :: "Peer option"
  ch_awaitSettings :: bool
  ch_settings :: "Settings option"
  ch_useRevision :: ProtocolRevision
  ch_streams :: "i64 set option"
  ch_lastStreamID :: i64
  ch_streamCreated :: bool
  ch_err :: "gerror option"
  ch_finished :: bool
  ch_heap :: "i64 \<rightharpoonup> tunnelClientStream"
  ch_mem :: caller_mem
  ch_tearDowns :: nat
  ch_streamDone :: nat
  ch_sent :: "ClientToServer list"
  ch_jobs :: "ClientToServer list"
  ch_watched :: "i64 set"
  ch_loop :: loop_pc

definition newTunnelChannel :: "ctx \<Rightarrow> Peer option \<Rightarrow> MD \<Rightarrow> bool \<Rightarrow> bool \<Rightarrow> tunnelOpts \<Rightarrow> caller_mem
    \<Rightarrow> tunnelChannel" where
  "newTunnelChannel streamCtx pr tunnelMetadata serverSendsSettings reverse opts mem =
     \<lparr>ch_tunnelMetadata = tunnelMetadata, ch_serverSendsSettings = serverSendsSettings,
      ch_reverse = reverse, ch_tunnelOpts = opts, ch_ctx = streamCtx, ch_peer = pr,
      ch_awaitSettings = False, ch_settings = None, ch_useRevision = REVISION_ZERO,
      ch_streams = Some {}, ch_lastStreamID = 0, ch_streamCreated = False, ch_err = None,
      ch_finished = False, ch_heap = Map.empty, ch_mem = mem, ch_tearDowns = 0, ch_streamDone = 0,
      ch_sent = [], ch_jobs = [], ch_watched = {}, ch_loop = LoopStart\<rparr>"

definition waitForSettings :: "tunnelChannel \<Rightarrow> unit wait" where
  "waitForSettings c = (if ch_awaitSettings c \<or> ch_ctx c \<noteq> None then Ready () else Blocks)"

definition channel_Err :: "tunnelChannel \<Rightarrow> gerror option" where
  "channel_Err c = (case ch_err c of None \<Rightarrow> ch_ctx c | Some EOF \<Rightarrow> None | Some e \<Rightarrow> Some e)"

text \<open>The entries of the map; a nil map has none.\<close>

definition live_streams :: "tunnelChannel \<Rightarrow> i64 set" where
  "live_streams c = (case ch_streams c of None \<Rightarrow> {} | Some S \<Rightarrow> S)"

subsection \<open>Closing\<close>

definition toStatus :: "grpc_lib \<Rightarrow> gerror \<Rightarrow> gstatus" where
  "toStatus L err = (case FromError L err of (st, ok) \<Rightarrow> if ok then st else FromContextError L err)"

text \<open>\<^verbatim>\<open>status.Errorf\<close> with a code that is not a literal: a nil error when the code is OK.\<close>

definition Errorf_code :: "code \<Rightarrow> string \<Rightarrow> arg list \<Rightarrow> gerror option" where
  "Errorf_code c f as = (if c = OK then None else Some (Errorf c f as))"

abbreviation status_message :: "gstatus \<Rightarrow> arg" where
  "status_message st \<equiv> AMsg (MsgFormat st) (MsgArgs st)"

definition cancel_ctx :: "tunnelClientStream \<Rightarrow> tunnelClientStream" where
  "cancel_ctx st = st\<lparr>cs_ctx := ctx_cancel (cs_ctx st)\<rparr>"

definition channel_close :: "gerror option \<Rightarrow> tunnelChannel \<Rightarrow> bool \<times> tunnelChannel" where
  "channel_close err c0 =
     (let c = c0\<lparr>ch_tearDowns := ch_tearDowns c0 + 1\<rparr>
      in if ch_finished c then (False, c)
         else let err' = (case err of None \<Rightarrow> EOF | Some e \<Rightarrow> e);
                  live = live_streams c
              in (True, c\<lparr>ch_finished := True, ch_err := Some err',
                   ch_heap := (\<lambda>i. if i \<in> live then map_option cancel_ctx (ch_heap c i) else ch_heap c i),
                   ch_streams := None, ch_ctx := ctx_cancel (ch_ctx c)\<rparr>))"

definition removeStream :: "i64 \<Rightarrow> tunnelChannel \<Rightarrow> tunnelChannel" where
  "removeStream streamID c =
     (case ch_streams c of None \<Rightarrow> c | Some S \<Rightarrow> c\<lparr>ch_streams := Some (S - {streamID})\<rparr>)"

subsection \<open>Allocating streams\<close>

text \<open>
  The loop over the call options, with the variables it builds up; what it wrote to callers'
  variables stays written when it fails.
\<close>

datatype opts_res = OptsPanic | OptsErr gerror | OptsOk "nat list" "nat list" MD

definition errInsecureCreds :: "Creds \<Rightarrow> gerror" where
  "errInsecureCreds creds = Errorf Unauthenticated
     ''per-RPC credentials %T cannot be used with insecure channel'' [AStr (Creds_type creds)]"

fun append_all :: "grpc_lib \<Rightarrow> (string \<times> string) list \<Rightarrow> MD \<Rightarrow> MD option" where
  "append_all L [] md = Some md"
| "append_all L ((k, v) # kvs) md =
     (case md_Append L k v md of None \<Rightarrow> None | Some md' \<Rightarrow> append_all L kvs md')"

fun alloc_opts :: "grpc_lib \<Rightarrow> Peer option \<Rightarrow> string \<Rightarrow> CallOption list \<Rightarrow> nat list \<Rightarrow> nat list \<Rightarrow> MD
    \<Rightarrow> caller_mem \<Rightarrow> opts_res \<times> caller_mem" where
  "alloc_opts L pr methodName [] hdrs tlrs md mem = (OptsOk hdrs tlrs md, mem)"
| "alloc_opts L pr methodName (HeaderCallOption a # opts) hdrs tlrs md mem =
     alloc_opts L pr methodName opts (hdrs @ [a]) tlrs md mem"
| "alloc_opts L pr methodName (TrailerCallOption a # opts) hdrs tlrs md mem =
     alloc_opts L pr methodName opts hdrs (tlrs @ [a]) md mem"
| "alloc_opts L pr methodName (PeerCallOption a # opts) hdrs tlrs md mem =
     alloc_opts L pr methodName opts hdrs tlrs md
       (if pr = None then mem else mem\<lparr>mem_peer := (mem_peer mem)(a := pr)\<rparr>)"
| "alloc_opts L pr methodName (PerRPCCredsCallOption creds # opts) hdrs tlrs md mem =
     (let authority = (case pr of None \<Rightarrow> ''<unknown>'' | Some p \<Rightarrow> Addr p);
          isSecure = (case pr of None \<Rightarrow> False | Some p \<Rightarrow> AuthInfo p)
      in if RequireTransportSecurity creds \<and> \<not> isSecure
         then (OptsErr (errInsecureCreds creds), mem)
         else case GetRequestMetadata creds (''tunnel://'' @ authority @ methodName) of
                Inl e \<Rightarrow> (OptsErr e, mem)
              | Inr mdVals \<Rightarrow>
                  (case append_all L mdVals md of
                     None \<Rightarrow> (OptsPanic, mem)
                   | Some md' \<Rightarrow> alloc_opts L pr methodName opts hdrs tlrs md' mem))"
| "alloc_opts L pr methodName (TunnelChannelCallOption a # opts) hdrs tlrs md mem =
     alloc_opts L pr methodName opts hdrs tlrs md (mem\<lparr>mem_ch := (mem_ch mem)(a := True)\<rparr>)"
| "alloc_opts L pr methodName (OtherCallOption # opts) hdrs tlrs md mem =
     alloc_opts L pr methodName opts hdrs tlrs md mem"

text \<open>\<open>AllocNil\<close> is a nil stream with a nil error, \<open>AllocPanic\<close> a panic.\<close>

datatype alloc_res = AllocPanic | AllocNil | AllocErr gerror | AllocOk i64 MD

definition errChannelClosed :: gerror where
  "errChannelClosed = Errorf Canceled ''channel is closed'' []"

definition errIDsExhausted :: gerror where
  "errIDsExhausted = Errorf ResourceExhausted
     ''all stream IDs exhausted (must create a new channel)'' []"

definition errNextID :: gerror where
  "errNextID = Errorf Internal ''next stream ID not available'' []"

definition newClientStream :: "ctx \<Rightarrow> i64 \<Rightarrow> string \<Rightarrow> nat list \<Rightarrow> nat list \<Rightarrow> bool \<Rightarrow> bool \<Rightarrow> sender
    \<Rightarrow> ServerToClientFrame receiver \<Rightarrow> tunnelClientStream" where
  "newClientStream cctx streamID methodName hdrs tlrs clientStreams serverStreams s r =
     \<lparr>cs_ctx = cctx, cs_streamID = streamID, cs_method = methodName, cs_headersTargets = hdrs,
      cs_trailersTargets = tlrs, cs_isClientStream = clientStreams, cs_isServerStream = serverStreams,
      cs_sender = s, cs_receiver = r, cs_done = None, cs_gotHeaders = False,
      cs_gotHeadersSignal = False, cs_headers = None, cs_doneSignal = False, cs_trailers = None,
      cs_readErr = None, cs_numSent = 0, cs_halfClosed = False, cs_pc = Idle, cs_sendSize = 0\<rparr>"

text \<open>
  A call on the channel: the state of the caller's context, its outgoing metadata, and the
  arguments of \<^verbatim>\<open>newStream\<close>.
\<close>

record new_call =
  nc_ctx :: ctx
  nc_md :: MD
  nc_clientStreams :: bool
  nc_serverStreams :: bool
  nc_method :: string
  nc_opts :: "CallOption list"

definition allocateStream :: "grpc_lib \<Rightarrow> new_call \<Rightarrow> tunnelChannel \<Rightarrow> alloc_res \<times> tunnelChannel" where
  "allocateStream L a c =
     (if ch_finished c then
        (case ch_err c of
           None \<Rightarrow> (AllocErr errChannelClosed, c)
         | Some EOF \<Rightarrow> (AllocErr errChannelClosed, c)
         | Some e \<Rightarrow>
             (let st = toStatus L e
              in case Errorf_code (Code st) ''channel is closed: %s'' [status_message st] of
                   None \<Rightarrow> (AllocNil, c)
                 | Some e' \<Rightarrow> (AllocErr e', c)))
      else if ch_lastStreamID c < 0 then (AllocErr errIDsExhausted, c)
      else let streamID = i64_wrap (ch_lastStreamID c + 1);
               c1 = c\<lparr>ch_streamCreated := True, ch_lastStreamID := streamID\<rparr>;
               S = live_streams c
           in if streamID \<in> S then (AllocErr errNextID, c1)
              else case alloc_opts L (ch_peer c) (nc_method a) (nc_opts a) [] [] (nc_md a) (ch_mem c) of
                (OptsPanic, mem) \<Rightarrow> (AllocPanic, c1\<lparr>ch_mem := mem\<rparr>)
              | (OptsErr e, mem) \<Rightarrow> (AllocErr e, c1\<lparr>ch_mem := mem\<rparr>)
              | (OptsOk hdrs tlrs md, mem) \<Rightarrow>
                  (case ch_settings c of
                     None \<Rightarrow> (AllocPanic, c1\<lparr>ch_mem := mem\<rparr>)
                   | Some stg \<Rightarrow>
                       let msgOverhead = messageOverhead (ch_useRevision c);
                           opt = ch_tunnelOpts c;
                           str = newClientStream (nc_ctx a) streamID (nc_method a) hdrs tlrs
                             (nc_clientStreams a) (nc_serverStreams a)
                             (newSender (Settings_InitialWindowSize stg) (maxChunkSize opt) msgOverhead)
                             (newReceiver (initialWindowSize opt) (minWindowUpdateSize opt) msgOverhead)
                       in (AllocOk streamID md,
                           c1\<lparr>ch_mem := mem, ch_heap := (ch_heap c)(streamID \<mapsto> str),
                              ch_streams := Some (insert streamID S)\<rparr>)))"

datatype new_res = NewPanic | NewErr gerror | NewOk i64

definition newStream_frame :: "new_call \<Rightarrow> MD \<Rightarrow> tunnelChannel \<Rightarrow> ClientToServerFrame" where
  "newStream_frame a md c = ClientToServer_NewStream
     \<lparr>MethodName = nc_method a, RequestHeaders = Some (toProto md),
      NewStream_InitialWindowSize = initialWindowSize (ch_tunnelOpts c),
      NewStream_ProtocolRevision = ch_useRevision c\<rparr>"

definition newStream :: "grpc_lib \<Rightarrow> new_call \<Rightarrow> gerror option \<Rightarrow> tunnelChannel
    \<Rightarrow> new_res \<times> tunnelChannel" where
  "newStream L a sendRes c0 =
     (case allocateStream L a c0 of
        (AllocPanic, c) \<Rightarrow> (NewPanic, c)
      | (AllocNil, c) \<Rightarrow> (NewPanic, c)
      | (AllocErr e, c) \<Rightarrow> (NewErr e, c)
      | (AllocOk i md, c) \<Rightarrow>
          (case sendRes of
             Some e \<Rightarrow> (NewErr e, removeStream i c)
           | None \<Rightarrow> (NewOk i, c\<lparr>ch_sent := ch_sent c @ [c2s i (newStream_frame a md c)],
                               ch_watched := insert i (ch_watched c)\<rparr>)))"

subsection \<open>Finishing streams\<close>

definition write_targets :: "nat list \<Rightarrow> MD \<Rightarrow> caller_mem \<Rightarrow> caller_mem" where
  "write_targets as md mem = mem\<lparr>mem_md := (\<lambda>a. if a \<in> set as then md else mem_md mem a)\<rparr>"

definition put_stream :: "i64 \<Rightarrow> tunnelClientStream \<Rightarrow> tunnelChannel \<Rightarrow> tunnelChannel" where
  "put_stream i st c = c\<lparr>ch_heap := (ch_heap c)(i \<mapsto> st)\<rparr>"

text \<open>An operation on a stream that was never allocated does not arise; it leaves the channel alone.\<close>

definition finishStream :: "gerror option \<Rightarrow> MD \<Rightarrow> i64 \<Rightarrow> tunnelChannel \<Rightarrow> bool \<times> tunnelChannel" where
  "finishStream err trailers i c =
     (case ch_heap c i of
        None \<Rightarrow> (False, c)
      | Some st \<Rightarrow>
          (case client_finish err trailers st of
             None \<Rightarrow> (False, c)
           | Some st' \<Rightarrow>
               (True, (removeStream i (put_stream i st' c))
                        \<lparr>ch_mem := write_targets (cs_trailersTargets st) trailers (ch_mem c)\<rparr>)))"

definition cancelStream :: "gerror option \<Rightarrow> i64 \<Rightarrow> tunnelChannel \<Rightarrow> tunnelChannel" where
  "cancelStream err i c0 =
     (case finishStream err None i c0 of
        (False, c) \<Rightarrow> c
      | (True, c) \<Rightarrow>
          (case ch_heap c i of
             None \<Rightarrow> c
           | Some st \<Rightarrow>
               (put_stream i (st\<lparr>cs_receiver := cancel_receiver (cs_receiver st)\<rparr>) c)
                 \<lparr>ch_jobs := ch_jobs c @ [c2s i ClientToServer_Cancel]\<rparr>))"

text \<open>The goroutine of \<^verbatim>\<open>newStream\<close>, once the stream's context is done.\<close>

definition watchStream :: "i64 \<Rightarrow> tunnelChannel \<Rightarrow> tunnelChannel option" where
  "watchStream i c =
     (if i \<in> ch_watched c
      then (case ch_heap c i of
              Some st \<Rightarrow> if cs_ctx st \<noteq> None then Some (cancelStream (cs_ctx st) i c) else None
            | None \<Rightarrow> None)
      else None)"

subsection \<open>The receive loop\<close>

definition negotiate_step :: "ProtocolRevision \<Rightarrow> bool \<times> ProtocolRevision \<Rightarrow> bool \<times> ProtocolRevision" where
  "negotiate_step r s =
     (case s of (v0supported, useRevision) \<Rightarrow>
        if r = REVISION_ZERO then (True, useRevision)
        else if r \<in> set supportedRevisions then (v0supported, max useRevision r)
        else (v0supported, useRevision))"

definition errNoSettings :: "bool \<Rightarrow> gerror" where
  "errNoSettings reverse = (case tunnelRoles reverse of (peer, self) \<Rightarrow>
     Errorf FailedPrecondition
       ''%s does not support protocol revision %d anymore; upgrade %s to v0.3 or later''
       [AStr self, AInt REVISION_ZERO, AStr peer])"

definition errOnlyZero :: "bool \<Rightarrow> gerror" where
  "errOnlyZero reverse = (case tunnelRoles reverse of (peer, self) \<Rightarrow>
     Errorf FailedPrecondition
       ''%s does not support protocol revision %d anymore; %s must not disable flow control''
       [AStr self, AInt REVISION_ZERO, AStr peer])"

definition errRevisions :: "bool \<Rightarrow> ProtocolRevision list \<Rightarrow> gerror" where
  "errRevisions reverse revs = (case tunnelRoles reverse of (peer, self) \<Rightarrow>
     Errorf FailedPrecondition ''%s supports revisions %v, but %s supports revisions %v''
       [AStr peer, ARevs revs, AStr self, ARevs supportedRevisions])"

definition errBadSettingsID :: "i64 \<Rightarrow> gerror" where
  "errBadSettingsID i = Errorf Internal
     ''protocol error: settings frame had bad stream ID (%d)'' [AInt i]"

definition errNotSettings :: "ServerToClientFrame option \<Rightarrow> gerror" where
  "errNotSettings f = Errorf Internal
     ''protocol error: first frame was not settings (instead was %T)''
     [AStr (case f of None \<Rightarrow> ''<nil>'' | Some g \<Rightarrow> s2c_type g)]"

definition errWindow :: "string \<Rightarrow> u32 \<Rightarrow> u32 \<Rightarrow> gerror" where
  "errWindow peer got least = Errorf Internal
     ''protocol error: %s sent invalid initial window size of %d; must be at least %d''
     [AStr peer, AInt (uint got), AInt (uint least)]"

text \<open>The deferred \<^verbatim>\<open>streamDone\<close> runs whenever the loop ends.\<close>

definition recv_exit :: "gerror option \<Rightarrow> tunnelChannel \<Rightarrow> bool \<times> tunnelChannel" where
  "recv_exit err c =
     (False, (snd (channel_close err c))\<lparr>ch_streamDone := ch_streamDone c + 1\<rparr>)"

definition accept_settings :: "Settings \<Rightarrow> tunnelChannel \<Rightarrow> bool \<times> tunnelChannel" where
  "accept_settings stg c0 =
     (case fold negotiate_step (SupportedProtocolRevisions stg) (False, ch_useRevision c0) of
        (v0supported, useRev) \<Rightarrow>
          let c = c0\<lparr>ch_useRevision := useRev\<rparr>;
              peer = fst (tunnelRoles (ch_reverse c))
          in if useRev = REVISION_ZERO
             then if v0supported then recv_exit (Some (errOnlyZero (ch_reverse c))) c
                  else recv_exit (Some (errRevisions (ch_reverse c) (SupportedProtocolRevisions stg))) c
             else if Settings_InitialWindowSize stg < minWindowSize useRev
             then recv_exit (Some (errWindow peer (Settings_InitialWindowSize stg) (minWindowSize useRev))) c
             else (True, c\<lparr>ch_settings := Some stg, ch_awaitSettings := True\<rparr>))"

text \<open>
  \<^verbatim>\<open>recvLoop\<close> before its loop: \<open>inp\<close> is what the first \<^verbatim>\<open>Recv\<close> returns. The flag tells whether the
  loop goes on.
\<close>

definition recvLoop_start :: "grpc_lib \<Rightarrow> gerror + ServerToClient \<Rightarrow> tunnelChannel
    \<Rightarrow> bool \<times> tunnelChannel" where
  "recvLoop_start L inp c =
     (if \<not> ch_serverSendsSettings c then recv_exit (Some (errNoSettings (ch_reverse c))) c
      else case inp of
        Inl err \<Rightarrow>
          (let st = toStatus L err
           in recv_exit (Errorf_code (Code st) ''failed to read settings from %s: %s''
                [AStr (fst (tunnelRoles (ch_reverse c))), status_message st]) c)
      | Inr m \<Rightarrow>
          (if S2C_StreamId m \<noteq> -1 then recv_exit (Some (errBadSettingsID (S2C_StreamId m))) c
           else case S2C_Frame m of
                  Some (ServerToClient_Settings stg) \<Rightarrow> accept_settings stg c
                | f \<Rightarrow> recv_exit (Some (errNotSettings f)) c))"

definition errNeverCreated :: "i64 \<Rightarrow> gerror" where
  "errNeverCreated streamID = Errorf Internal
     ''protocol error: received frame for stream ID %d: stream never created'' [AInt streamID]"

definition getStream :: "i64 \<Rightarrow> tunnelChannel \<Rightarrow> gerror + i64 option" where
  "getStream streamID c =
     (if streamID \<in> live_streams c then Inr (Some streamID)
      else if ch_streamCreated c \<and> streamID \<le> ch_lastStreamID c then Inr None
      else Inl (errNeverCreated streamID))"

definition errUnexpectedSettings :: gerror where
  "errUnexpectedSettings = Errorf Internal ''protocol error: unexpected settings frame'' []"

definition errUnrecognizedFrame :: gerror where
  "errUnrecognizedFrame = Errorf Internal ''protocol error: unrecognized frame type'' []"

definition accept_data :: "ServerToClientFrame \<Rightarrow> i64 \<Rightarrow> tunnelChannel \<Rightarrow> tunnelChannel" where
  "accept_data f i c =
     (case ch_heap c i of
        None \<Rightarrow> c
      | Some st \<Rightarrow>
          (case accept client_measure f (cs_receiver st) of (err, r) \<Rightarrow>
             let c' = put_stream i (st\<lparr>cs_receiver := r\<rparr>) c
             in case err of None \<Rightarrow> c' | Some e \<Rightarrow> snd (finishStream (Some e) None i c')))"

fun acceptServerFrame :: "grpc_lib \<Rightarrow> ServerToClientFrame option \<Rightarrow> i64 \<Rightarrow> tunnelChannel \<Rightarrow> tunnelChannel" where
  "acceptServerFrame L (Some (ServerToClient_Settings stg)) i c =
     snd (finishStream (Some errUnexpectedSettings) None i c)"
| "acceptServerFrame L (Some (ServerToClient_ResponseHeaders h)) i c =
     (case ch_heap c i of
        None \<Rightarrow> c
      | Some st \<Rightarrow>
          (case client_gotHeaders h st of
             None \<Rightarrow> c
           | Some st' \<Rightarrow>
               (put_stream i st' c)
                 \<lparr>ch_mem := write_targets (cs_headersTargets st) (cs_headers st') (ch_mem c)\<rparr>))"
| "acceptServerFrame L (Some (ServerToClient_CloseStream cl)) i c =
     snd (finishStream (FromProto_Err L (Status cl)) (fromProto (ResponseTrailers cl)) i c)"
| "acceptServerFrame L (Some (ServerToClient_WindowUpdate w)) i c =
     (case ch_heap c i of
        None \<Rightarrow> c
      | Some st \<Rightarrow> put_stream i (st\<lparr>cs_sender := updateWindow w (cs_sender st)\<rparr>) c)"
| "acceptServerFrame L None i c = snd (finishStream (Some errUnrecognizedFrame) None i c)"
| "acceptServerFrame L (Some (ServerToClient_ResponseMessage m)) i c =
     accept_data (ServerToClient_ResponseMessage m) i c"
| "acceptServerFrame L (Some (ServerToClient_MoreResponseData d)) i c =
     accept_data (ServerToClient_MoreResponseData d) i c"

definition recvLoop_step :: "grpc_lib \<Rightarrow> gerror + ServerToClient \<Rightarrow> tunnelChannel \<Rightarrow> bool \<times> tunnelChannel" where
  "recvLoop_step L inp c =
     (case inp of
        Inl err \<Rightarrow> recv_exit (Some err) c
      | Inr m \<Rightarrow>
          (case getStream (S2C_StreamId m) c of
             Inl err \<Rightarrow> recv_exit (Some err) c
           | Inr None \<Rightarrow> (True, c)
           | Inr (Some i) \<Rightarrow> (True, acceptServerFrame L (S2C_Frame m) i c)))"

definition recvLoop :: "grpc_lib \<Rightarrow> gerror + ServerToClient \<Rightarrow> tunnelChannel \<Rightarrow> tunnelChannel option" where
  "recvLoop L inp c =
     (case ch_loop c of
        LoopEnded \<Rightarrow> None
      | pc \<Rightarrow>
          (case (if pc = LoopStart then recvLoop_start L inp c else recvLoop_step L inp c) of
             (cont, c') \<Rightarrow> Some (c'\<lparr>ch_loop := (if cont then LoopRunning else LoopEnded)\<rparr>)))"

subsection \<open>Using a stream\<close>

definition stream_SendMsg :: "('m \<Rightarrow> gerror + bytes) \<Rightarrow> 'm \<Rightarrow> i64 \<Rightarrow> tunnelChannel
    \<Rightarrow> (gerror option \<times> tunnelChannel) option" where
  "stream_SendMsg marshal m i c =
     (case ch_heap c i of
        None \<Rightarrow> None
      | Some st \<Rightarrow> map_option (\<lambda>(err, st'). (err, put_stream i st' c)) (client_SendMsg marshal m st))"

definition stream_send_do :: "send_act \<Rightarrow> i64 \<Rightarrow> tunnelChannel \<Rightarrow> tunnelChannel option" where
  "stream_send_do a i c =
     (case ch_heap c i of
        None \<Rightarrow> None
      | Some st \<Rightarrow>
          if \<not> send_own a then None
          else map_option (\<lambda>(st', fs). (put_stream i st' c)\<lparr>ch_sent := ch_sent c @ map (c2s i) fs\<rparr>)
                 (client_send_do a st))"

definition stream_CloseSend :: "gerror option \<Rightarrow> i64 \<Rightarrow> tunnelChannel
    \<Rightarrow> (gerror option \<times> tunnelChannel) option" where
  "stream_CloseSend sendRes i c =
     (case ch_heap c i of
        None \<Rightarrow> None
      | Some st \<Rightarrow>
          map_option (\<lambda>(err, st', fs). (err, (put_stream i st' c)
              \<lparr>ch_sent := ch_sent c @ (if sendRes = None then map (c2s i) fs else [])\<rparr>))
            (client_CloseSend sendRes st))"

text \<open>
  \<^verbatim>\<open>RecvMsg\<close>, entered or resumed: it waits, returns an error, or hands the data to
  \<^verbatim>\<open>proto.Unmarshal\<close>.
\<close>

datatype recv_msg = RecvWaits read_phase | RecvErr gerror | RecvData bytes

definition stream_RecvMsg :: "read_phase option \<Rightarrow> i64 \<Rightarrow> tunnelChannel \<Rightarrow> (recv_msg \<times> tunnelChannel) option" where
  "stream_RecvMsg ph i c =
     (case ch_heap c i of
        None \<Rightarrow> None
      | Some st \<Rightarrow>
          (case client_readMsg (fst (tunnelRoles (ch_reverse c))) ph st of (res, st', us) \<Rightarrow>
             let c1 = (put_stream i st' c)
                        \<lparr>ch_sent := ch_sent c @ map (c2s i) (client_sendUpdates us st)\<rparr>
             in case res of
                  MsgBlock ph' \<Rightarrow> Some (RecvWaits ph', c1)
                | MsgRet (d, ok, Some e) \<Rightarrow>
                    Some (RecvErr e, if ok then c1 else cancelStream (Some e) i c1)
                | MsgRet (d, ok, None) \<Rightarrow> Some (RecvData d, c1)))"

text \<open>A goroutine of \<^verbatim>\<open>cancelStream\<close> sends its frame.\<close>

definition run_job :: "gerror option \<Rightarrow> tunnelChannel \<Rightarrow> tunnelChannel option" where
  "run_job sendRes c =
     (case ch_jobs c of
        [] \<Rightarrow> None
      | j # js \<Rightarrow> Some (c\<lparr>ch_jobs := js,
                         ch_sent := ch_sent c @ (if sendRes = None then [j] else [])\<rparr>))"

subsection \<open>Unary calls\<close>

text \<open>
  Where a call of \<^verbatim>\<open>Invoke\<close> stands; its own calls of \<^verbatim>\<open>SendMsg\<close> and \<^verbatim>\<open>RecvMsg\<close> may wait. \<open>unm\<close> is
  \<^verbatim>\<open>proto.Unmarshal\<close>, as the error it returns.
\<close>

datatype invoke_pc =
    InvSendMsg i64
  | InvSending i64
  | InvCloseSend i64
  | InvRecv i64 "read_phase option"
  | InvExtra i64 "read_phase option"
  | InvPanic
  | InvRet "gerror option"

definition errMoreThanOne :: gerror where
  "errMoreThanOne = Errorf Internal ''unary RPC returned >1 response message'' []"

definition Invoke_begin :: "grpc_lib \<Rightarrow> new_call \<Rightarrow> gerror option \<Rightarrow> tunnelChannel
    \<Rightarrow> invoke_pc \<times> tunnelChannel" where
  "Invoke_begin L a sendRes c =
     (case newStream L (a\<lparr>nc_clientStreams := False, nc_serverStreams := False\<rparr>) sendRes c of
        (NewPanic, c') \<Rightarrow> (InvPanic, c')
      | (NewErr e, c') \<Rightarrow> (InvRet (Some e), c')
      | (NewOk i, c') \<Rightarrow> (InvSendMsg i, c'))"

fun Invoke_step :: "('m \<Rightarrow> gerror + bytes) \<Rightarrow> (bytes \<Rightarrow> gerror option) \<Rightarrow> 'm \<Rightarrow> gerror option \<Rightarrow> invoke_pc
    \<Rightarrow> tunnelChannel \<Rightarrow> (invoke_pc \<times> tunnelChannel) option" where
  "Invoke_step marshal unm req sendRes (InvSendMsg i) c =
     (case stream_SendMsg marshal req i c of
        None \<Rightarrow> None
      | Some (Some e, c') \<Rightarrow> Some (InvRet (Some e), c')
      | Some (None, c') \<Rightarrow> Some (InvSending i, c'))"
| "Invoke_step marshal unm req sendRes (InvSending i) c =
     (case map_option cs_pc (ch_heap c i) of
        Some (Returned (Some e)) \<Rightarrow> Some (InvRet (Some e), c)
      | Some (Returned None) \<Rightarrow> Some (InvCloseSend i, c)
      | _ \<Rightarrow> None)"
| "Invoke_step marshal unm req sendRes (InvCloseSend i) c =
     (case stream_CloseSend sendRes i c of
        None \<Rightarrow> None
      | Some (Some e, c') \<Rightarrow> Some (InvRet (Some e), c')
      | Some (None, c') \<Rightarrow> Some (InvRecv i None, c'))"
| "Invoke_step marshal unm req sendRes (InvRecv i ph) c =
     (case stream_RecvMsg ph i c of
        None \<Rightarrow> None
      | Some (RecvWaits ph', c') \<Rightarrow> Some (InvRecv i (Some ph'), c')
      | Some (RecvErr e, c') \<Rightarrow> Some (InvRet (Some e), c')
      | Some (RecvData d, c') \<Rightarrow>
          (case unm d of Some e \<Rightarrow> Some (InvRet (Some e), c') | None \<Rightarrow> Some (InvExtra i None, c')))"
| "Invoke_step marshal unm req sendRes (InvExtra i ph) c =
     (case stream_RecvMsg ph i c of
        None \<Rightarrow> None
      | Some (RecvWaits ph', c') \<Rightarrow> Some (InvExtra i (Some ph'), c')
      | Some (RecvErr e, c') \<Rightarrow> Some (InvRet (if errors_Is e EOF then None else Some e), c')
      | Some (RecvData d, c') \<Rightarrow>
          (case unm d of
             Some e \<Rightarrow> Some (InvRet (if errors_Is e EOF then None else Some e), c')
           | None \<Rightarrow>
               Some (InvRet (Some errMoreThanOne),
                     case ch_heap c' i of None \<Rightarrow> c' | Some st \<Rightarrow> put_stream i (cancel_ctx st) c')))"
| "Invoke_step marshal unm req sendRes InvPanic c = None"
| "Invoke_step marshal unm req sendRes (InvRet r) c = None"

subsection \<open>All that may happen to a channel\<close>

datatype chan_act =
    ActRecv "gerror + ServerToClient"
  | ActClose "gerror option"
  | ActTunnelCtx gerror
  | ActNew new_call "gerror option"
  | ActStreamCtx i64 gerror
  | ActWatch i64
  | ActSendMsg i64 "gerror + bytes"
  | ActSend i64 send_act
  | ActCloseSend i64 "gerror option"
  | ActRecvMsg i64 "read_phase option"
  | ActJob "gerror option"

definition end_stream_ctx :: "gerror \<Rightarrow> i64 \<Rightarrow> tunnelChannel \<Rightarrow> tunnelChannel option" where
  "end_stream_ctx e i c =
     (case ch_heap c i of
        None \<Rightarrow> None
      | Some st \<Rightarrow> Some (put_stream i (st\<lparr>cs_ctx := ctx_end e (cs_ctx st)\<rparr>) c))"

fun chan_do :: "grpc_lib \<Rightarrow> chan_act \<Rightarrow> tunnelChannel \<Rightarrow> tunnelChannel option" where
  "chan_do L (ActRecv inp) c = recvLoop L inp c"
| "chan_do L (ActClose err) c = Some (snd (channel_close err c))"
| "chan_do L (ActTunnelCtx e) c = Some (c\<lparr>ch_ctx := ctx_end e (ch_ctx c)\<rparr>)"
| "chan_do L (ActNew a sendRes) c = Some (snd (newStream L a sendRes c))"
| "chan_do L (ActStreamCtx i e) c = end_stream_ctx e i c"
| "chan_do L (ActWatch i) c = watchStream i c"
| "chan_do L (ActSendMsg i b) c = map_option snd (stream_SendMsg (\<lambda>_. b) () i c)"
| "chan_do L (ActSend i a) c = stream_send_do a i c"
| "chan_do L (ActCloseSend i r) c = map_option snd (stream_CloseSend r i c)"
| "chan_do L (ActRecvMsg i ph) c = map_option snd (stream_RecvMsg ph i c)"
| "chan_do L (ActJob r) c = run_job r c"

fun chan_run :: "grpc_lib \<Rightarrow> chan_act list \<Rightarrow> tunnelChannel \<Rightarrow> tunnelChannel option" where
  "chan_run L [] c = Some c"
| "chan_run L (a # as) c = (case chan_do L a c of None \<Rightarrow> None | Some c' \<Rightarrow> chan_run L as c')"

inductive chan_reach :: "grpc_lib \<Rightarrow> tunnelChannel \<Rightarrow> tunnelChannel \<Rightarrow> bool" for L c0 where
  chan_start: "chan_reach L c0 c0"
| chan_step: "chan_reach L c0 c \<Longrightarrow> chan_do L a c = Some c' \<Longrightarrow> chan_reach L c0 c'"

end
