(* ===== verification/Channel_Invariant.thy ===== *)
theory Channel_Invariant
  imports Client_Channel
begin

text \<open>
  The invariant of the client's end of a tunnel and its preservation by every operation of
  \<open>Client_Channel\<close>, operation by operation and then for every sequence of them.
\<close>

subsection \<open>Invariant\<close>

text \<open>Stream IDs count up from one; past the largest int64 the counter is negative, and stays there.\<close>

definition ids_ok :: "tunnelChannel \<Rightarrow> bool" where
  "ids_ok c \<longleftrightarrow> (\<forall>i st. ch_heap c i = Some st \<longrightarrow> ch_streamCreated c)
     \<and> (0 \<le> ch_lastStreamID c \<and> ch_lastStreamID c < 2 ^ 63
          \<and> (\<forall>i st. ch_heap c i = Some st \<longrightarrow> 0 < i \<and> i \<le> ch_lastStreamID c)
        \<or> ch_lastStreamID c = - (2 ^ 63))"

text \<open>The settings are there once the loop runs; no stream exists before.\<close>

definition settings_ok :: "tunnelChannel \<Rightarrow> bool" where
  "settings_ok c \<longleftrightarrow> (ch_awaitSettings c \<longleftrightarrow> ch_settings c \<noteq> None)
     \<and> (\<forall>stg. ch_settings c = Some stg \<longrightarrow> ch_useRevision c \<in> set supportedRevisions
          \<and> minWindowSize (ch_useRevision c) \<le> Settings_InitialWindowSize stg)
     \<and> (ch_loop c = LoopStart \<longrightarrow> ch_settings c = None \<and> ch_useRevision c = REVISION_ZERO)
     \<and> (ch_loop c = LoopRunning \<longrightarrow> ch_settings c \<noteq> None)
     \<and> (ch_loop c = LoopEnded \<longrightarrow> ch_finished c)"

definition closed_ok :: "tunnelChannel \<Rightarrow> bool" where
  "closed_ok c \<longleftrightarrow> (ch_finished c \<longleftrightarrow> ch_err c \<noteq> None) \<and> (ch_finished c \<longleftrightarrow> ch_streams c = None)
     \<and> (ch_finished c \<longrightarrow> ch_ctx c \<noteq> None)"

abbreviation chan_window :: "tunnelChannel \<Rightarrow> nat" where
  "chan_window c \<equiv> unat (initialWindowSize (ch_tunnelOpts c))"

text \<open>
  Streams keep their own invariant; a registered stream is not finished; a stream whose caller holds
  it is finished, or registered, or its context is done, so that its watcher will finish it.
\<close>

definition streams_ok :: "tunnelChannel \<Rightarrow> bool" where
  "streams_ok c \<longleftrightarrow>
     (\<forall>i st. ch_heap c i = Some st \<longrightarrow> cs_streamID st = i \<and> client_stream_ok (chan_window c) st)
     \<and> (\<forall>i\<in>live_streams c. \<exists>st. ch_heap c i = Some st \<and> cs_done st = None)
     \<and> (\<forall>i\<in>ch_watched c. \<exists>st. ch_heap c i = Some st
          \<and> (cs_done st \<noteq> None \<or> cs_ctx st \<noteq> None \<or> i \<in> live_streams c))"

definition chan_inv :: "tunnelChannel \<Rightarrow> bool" where
  "chan_inv c \<longleftrightarrow> opts_wf (ch_tunnelOpts c) \<and> closed_ok c \<and> settings_ok c \<and> ids_ok c \<and> streams_ok c"

lemmas chan_inv_defs = chan_inv_def closed_ok_def settings_ok_def ids_ok_def streams_ok_def

lemma live_streams_simps [simp]:
  "live_streams (c\<lparr>ch_streams := None\<rparr>) = {}" "live_streams (c\<lparr>ch_streams := Some S\<rparr>) = S"
  by (simp_all add: live_streams_def)

lemma live_streams_frame [simp]:
  "live_streams (c\<lparr>ch_heap := h\<rparr>) = live_streams c" "live_streams (c\<lparr>ch_mem := m\<rparr>) = live_streams c"
  "live_streams (c\<lparr>ch_sent := fs\<rparr>) = live_streams c" "live_streams (c\<lparr>ch_jobs := fs\<rparr>) = live_streams c"
  "live_streams (c\<lparr>ch_watched := w\<rparr>) = live_streams c" "live_streams (c\<lparr>ch_loop := l\<rparr>) = live_streams c"
  "live_streams (c\<lparr>ch_ctx := x\<rparr>) = live_streams c" "live_streams (c\<lparr>ch_tearDowns := n\<rparr>) = live_streams c"
  "live_streams (c\<lparr>ch_streamDone := n\<rparr>) = live_streams c" "live_streams (c\<lparr>ch_settings := g\<rparr>) = live_streams c"
  "live_streams (c\<lparr>ch_awaitSettings := b\<rparr>) = live_streams c" "live_streams (c\<lparr>ch_useRevision := v\<rparr>) = live_streams c"
  "live_streams (c\<lparr>ch_lastStreamID := j\<rparr>) = live_streams c" "live_streams (c\<lparr>ch_streamCreated := b\<rparr>) = live_streams c"
  "live_streams (put_stream i st c) = live_streams c"
  by (simp_all add: live_streams_def put_stream_def)

lemma removeStream_fields [simp]:
  "ch_heap (removeStream i c) = ch_heap c" "live_streams (removeStream i c) = live_streams c - {i}"
  "ch_lastStreamID (removeStream i c) = ch_lastStreamID c"
  "ch_streamCreated (removeStream i c) = ch_streamCreated c"
  "ch_watched (removeStream i c) = ch_watched c" "ch_loop (removeStream i c) = ch_loop c"
  "ch_tunnelOpts (removeStream i c) = ch_tunnelOpts c" "ch_finished (removeStream i c) = ch_finished c"
  "ch_err (removeStream i c) = ch_err c" "ch_ctx (removeStream i c) = ch_ctx c"
  "ch_settings (removeStream i c) = ch_settings c" "ch_useRevision (removeStream i c) = ch_useRevision c"
  "ch_awaitSettings (removeStream i c) = ch_awaitSettings c"
  "ch_streams (removeStream i c) = None \<longleftrightarrow> ch_streams c = None"
  "ch_reverse (removeStream i c) = ch_reverse c" "ch_sent (removeStream i c) = ch_sent c"
  by (auto simp: removeStream_def live_streams_def split: option.splits)

lemma chan_inv_frame [simp]:
  "chan_inv (c\<lparr>ch_mem := m\<rparr>) = chan_inv c" "chan_inv (c\<lparr>ch_sent := fs\<rparr>) = chan_inv c"
  "chan_inv (c\<lparr>ch_jobs := fs\<rparr>) = chan_inv c" "chan_inv (c\<lparr>ch_tearDowns := n\<rparr>) = chan_inv c"
  "chan_inv (c\<lparr>ch_streamDone := n\<rparr>) = chan_inv c"
  by (simp_all add: chan_inv_defs)

lemma live_streams_more [simp]: "live_streams (c\<lparr>ch_err := x\<rparr>) = live_streams c" "live_streams (c\<lparr>ch_finished := b\<rparr>) = live_streams c"
  by (simp_all add: live_streams_def)

lemma closed_ok_frame [simp]:
  "closed_ok (c\<lparr>ch_mem := x0\<rparr>) = closed_ok c"
  "closed_ok (c\<lparr>ch_sent := x1\<rparr>) = closed_ok c"
  "closed_ok (c\<lparr>ch_jobs := x2\<rparr>) = closed_ok c"
  "closed_ok (c\<lparr>ch_tearDowns := x3\<rparr>) = closed_ok c"
  "closed_ok (c\<lparr>ch_streamDone := x4\<rparr>) = closed_ok c"
  "closed_ok (c\<lparr>ch_heap := x5\<rparr>) = closed_ok c"
  "closed_ok (c\<lparr>ch_watched := x6\<rparr>) = closed_ok c"
  "closed_ok (c\<lparr>ch_loop := x7\<rparr>) = closed_ok c"
  "closed_ok (c\<lparr>ch_settings := x8\<rparr>) = closed_ok c"
  "closed_ok (c\<lparr>ch_awaitSettings := x9\<rparr>) = closed_ok c"
  "closed_ok (c\<lparr>ch_useRevision := x10\<rparr>) = closed_ok c"
  "closed_ok (c\<lparr>ch_lastStreamID := x11\<rparr>) = closed_ok c"
  "closed_ok (c\<lparr>ch_streamCreated := x12\<rparr>) = closed_ok c"
  by (simp_all add: closed_ok_def)

lemma settings_ok_frame [simp]:
  "settings_ok (c\<lparr>ch_mem := x0\<rparr>) = settings_ok c"
  "settings_ok (c\<lparr>ch_sent := x1\<rparr>) = settings_ok c"
  "settings_ok (c\<lparr>ch_jobs := x2\<rparr>) = settings_ok c"
  "settings_ok (c\<lparr>ch_tearDowns := x3\<rparr>) = settings_ok c"
  "settings_ok (c\<lparr>ch_streamDone := x4\<rparr>) = settings_ok c"
  "settings_ok (c\<lparr>ch_heap := x5\<rparr>) = settings_ok c"
  "settings_ok (c\<lparr>ch_watched := x6\<rparr>) = settings_ok c"
  "settings_ok (c\<lparr>ch_streams := x7\<rparr>) = settings_ok c"
  "settings_ok (c\<lparr>ch_ctx := x8\<rparr>) = settings_ok c"
  "settings_ok (c\<lparr>ch_lastStreamID := x9\<rparr>) = settings_ok c"
  "settings_ok (c\<lparr>ch_streamCreated := x10\<rparr>) = settings_ok c"
  "settings_ok (c\<lparr>ch_err := x11\<rparr>) = settings_ok c"
  by (simp_all add: settings_ok_def)

lemma ids_ok_frame [simp]:
  "ids_ok (c\<lparr>ch_mem := x0\<rparr>) = ids_ok c"
  "ids_ok (c\<lparr>ch_sent := x1\<rparr>) = ids_ok c"
  "ids_ok (c\<lparr>ch_jobs := x2\<rparr>) = ids_ok c"
  "ids_ok (c\<lparr>ch_tearDowns := x3\<rparr>) = ids_ok c"
  "ids_ok (c\<lparr>ch_streamDone := x4\<rparr>) = ids_ok c"
  "ids_ok (c\<lparr>ch_watched := x5\<rparr>) = ids_ok c"
  "ids_ok (c\<lparr>ch_streams := x6\<rparr>) = ids_ok c"
  "ids_ok (c\<lparr>ch_ctx := x7\<rparr>) = ids_ok c"
  "ids_ok (c\<lparr>ch_err := x8\<rparr>) = ids_ok c"
  "ids_ok (c\<lparr>ch_finished := x9\<rparr>) = ids_ok c"
  "ids_ok (c\<lparr>ch_loop := x10\<rparr>) = ids_ok c"
  "ids_ok (c\<lparr>ch_settings := x11\<rparr>) = ids_ok c"
  "ids_ok (c\<lparr>ch_awaitSettings := x12\<rparr>) = ids_ok c"
  "ids_ok (c\<lparr>ch_useRevision := x13\<rparr>) = ids_ok c"
  by (simp_all add: ids_ok_def)

lemma streams_ok_frame [simp]:
  "streams_ok (c\<lparr>ch_mem := x0\<rparr>) = streams_ok c"
  "streams_ok (c\<lparr>ch_sent := x1\<rparr>) = streams_ok c"
  "streams_ok (c\<lparr>ch_jobs := x2\<rparr>) = streams_ok c"
  "streams_ok (c\<lparr>ch_tearDowns := x3\<rparr>) = streams_ok c"
  "streams_ok (c\<lparr>ch_streamDone := x4\<rparr>) = streams_ok c"
  "streams_ok (c\<lparr>ch_ctx := x5\<rparr>) = streams_ok c"
  "streams_ok (c\<lparr>ch_err := x6\<rparr>) = streams_ok c"
  "streams_ok (c\<lparr>ch_finished := x7\<rparr>) = streams_ok c"
  "streams_ok (c\<lparr>ch_loop := x8\<rparr>) = streams_ok c"
  "streams_ok (c\<lparr>ch_settings := x9\<rparr>) = streams_ok c"
  "streams_ok (c\<lparr>ch_awaitSettings := x10\<rparr>) = streams_ok c"
  "streams_ok (c\<lparr>ch_useRevision := x11\<rparr>) = streams_ok c"
  "streams_ok (c\<lparr>ch_lastStreamID := x12\<rparr>) = streams_ok c"
  "streams_ok (c\<lparr>ch_streamCreated := x13\<rparr>) = streams_ok c"
  by (simp_all add: streams_ok_def)

lemma chan_inv_newTunnelChannel:
  "opts_wf opts \<Longrightarrow> chan_inv (newTunnelChannel x pr md b r opts mem)"
  by (simp add: chan_inv_defs newTunnelChannel_def live_streams_def)

text \<open>Replacing a stream by one that went on.\<close>

definition goes_on :: "tunnelClientStream \<Rightarrow> tunnelClientStream \<Rightarrow> bool" where
  "goes_on st st' \<longleftrightarrow> cs_streamID st' = cs_streamID st \<and> cs_done st' = cs_done st
     \<and> (cs_ctx st \<noteq> None \<longrightarrow> cs_ctx st' \<noteq> None) \<and> (\<forall>W. client_stream_ok W st \<longrightarrow> client_stream_ok W st')"

lemma chan_inv_put:
  assumes "chan_inv c" and "ch_heap c i = Some st" and "goes_on st st'"
  shows "chan_inv (put_stream i st' c)"
proof -
  have "streams_ok c" and ids: "ids_ok c" using assms(1) by (simp_all add: chan_inv_def)
  then have "streams_ok (put_stream i st' c)"
    using assms(2,3) by (fastforce simp: streams_ok_def put_stream_def goes_on_def)
  moreover have "ids_ok (put_stream i st' c)"
    using ids assms(2) by (auto simp: ids_ok_def put_stream_def)
  moreover have "closed_ok (put_stream i st' c) = closed_ok c" "settings_ok (put_stream i st' c) = settings_ok c"
    by (simp_all add: closed_ok_def settings_ok_def put_stream_def)
  ultimately show ?thesis
    using assms(1) by (simp add: chan_inv_def put_stream_def)
qed

lemma goes_on_cancel_ctx [simp]: "goes_on st (cancel_ctx st)"
  by (auto simp: goes_on_def cancel_ctx_def client_stream_ok_def)

lemma streams_ok_closing:
  assumes "streams_ok c"
  shows "streams_ok (c\<lparr>ch_finished := True, ch_err := e,
    ch_heap := (\<lambda>i. if i \<in> live_streams c then map_option cancel_ctx (ch_heap c i) else ch_heap c i),
    ch_streams := None, ch_ctx := x\<rparr>)"
proof -
  have kept: "client_stream_ok W st \<Longrightarrow> client_stream_ok W (cancel_ctx st)"
      "cs_streamID (cancel_ctx st) = cs_streamID st" for st W
    using goes_on_cancel_ctx [of st] by (simp_all add: goes_on_def)
  have ctx: "\<exists>e. cs_ctx (cancel_ctx st) = Some e" for st
    by (simp add: cancel_ctx_def)
  show ?thesis
    using assms unfolding streams_ok_def by (auto simp: kept ctx split: if_splits)
qed

lemma chan_inv_close:
  assumes "chan_inv c"
  shows "chan_inv (snd (channel_close err c))"
proof (cases "ch_finished c")
  case True
  then show ?thesis using assms by (simp add: channel_close_def Let_def)
next
  case False
  have "ids_ok c" "streams_ok c" "settings_ok c"
    using assms by (simp_all add: chan_inv_def)
  then show ?thesis
    using assms False streams_ok_closing [of "c\<lparr>ch_tearDowns := ch_tearDowns c + 1\<rparr>"]
    unfolding chan_inv_def channel_close_def Let_def
    by (auto simp: closed_ok_def settings_ok_def ids_ok_def streams_ok_def)
qed

lemma chan_inv_removeStream:
  assumes "chan_inv c" and "i \<notin> ch_watched c"
  shows "chan_inv (removeStream i c)"
  using assms unfolding chan_inv_defs by auto

lemma client_finish_fields:
  assumes "client_finish err tr st = Some st'"
  shows "cs_streamID st' = cs_streamID st" "cs_done st' \<noteq> None"
  using assms by (auto simp: client_finish_def split: if_splits)

lemma chan_inv_finishStream:
  assumes "chan_inv c"
  shows "chan_inv (snd (finishStream err tr i c))"
proof (cases "ch_heap c i")
  case None
  then show ?thesis using assms by (simp add: finishStream_def)
next
  case (Some st)
  show ?thesis
  proof (cases "client_finish err tr st")
    case None
    then show ?thesis using assms Some by (simp add: finishStream_def)
  next
    case (Some st')
    let ?d = "removeStream i (put_stream i st' c)"
    have so: "streams_ok c" and ids: "ids_ok c" using assms by (simp_all add: chan_inv_def)
    have "client_stream_ok (chan_window c) st'"
      using so \<open>ch_heap c i = Some st\<close> client_finish_ok [OF _ Some] by (simp add: streams_ok_def)
    then have "streams_ok ?d"
      using so \<open>ch_heap c i = Some st\<close> client_finish_fields [OF Some]
      unfolding streams_ok_def by (auto simp: put_stream_def)
    moreover have "ids_ok ?d"
      using ids \<open>ch_heap c i = Some st\<close> by (auto simp: ids_ok_def put_stream_def)
    moreover have "closed_ok ?d = closed_ok c" "settings_ok ?d = settings_ok c"
      by (simp_all add: closed_ok_def settings_ok_def put_stream_def)
    ultimately have "chan_inv ?d"
      using assms by (simp add: chan_inv_def put_stream_def)
    then show ?thesis
      using Some \<open>ch_heap c i = Some st\<close> by (simp add: finishStream_def)
  qed
qed

lemma finishStream_heap:
  "ch_heap (snd (finishStream err tr i c)) i = map_option
     (\<lambda>st. case client_finish err tr st of None \<Rightarrow> st | Some st' \<Rightarrow> st') (ch_heap c i)"
  by (auto simp: finishStream_def put_stream_def split: option.splits)

lemma finishStream_True:
  assumes "finishStream err tr i c = (True, c')"
  obtains st st' where "ch_heap c i = Some st" "client_finish err tr st = Some st'"
    "ch_heap c' i = Some st'" "cs_done st = None" "cs_done st' = Some (finish_err err)"
  using assms by (auto simp: finishStream_def put_stream_def client_finish_def split: option.splits if_splits)

lemma chan_inv_cancelStream:
  assumes "chan_inv c"
  shows "chan_inv (cancelStream err i c)"
proof (cases "finishStream err None i c")
  case (Pair b c1)
  have inv: "chan_inv c1"
    using chan_inv_finishStream [OF assms, of err None i] Pair by simp
  show ?thesis
  proof (cases b)
    case False
    then show ?thesis using inv Pair by (simp add: cancelStream_def)
  next
    case True
    obtain st' where st': "ch_heap c1 i = Some st'" "cs_done st' \<noteq> None"
      using Pair True by (auto elim: finishStream_True)
    then have "goes_on st' (st'\<lparr>cs_receiver := cancel_receiver (cs_receiver st')\<rparr>)"
      by (auto simp: goes_on_def client_stream_ok_def recv_inv_cancel)
    then show ?thesis
      using chan_inv_put [OF inv st'(1)] Pair True st' by (simp add: cancelStream_def)
  qed
qed

subsection \<open>The other operations\<close>

lemma chan_inv_recv_exit:
  assumes "chan_inv c"
  shows "chan_inv ((snd (recv_exit err c))\<lparr>ch_loop := LoopEnded\<rparr>)"
proof -
  have "chan_inv (snd (channel_close err c))" "ch_finished (snd (channel_close err c))"
    using chan_inv_close [OF assms] by (simp_all add: channel_close_def Let_def)
  then show ?thesis
    by (simp add: recv_exit_def chan_inv_defs)
qed

lemma goes_on_gotHeaders: "client_gotHeaders h st = Some st' \<Longrightarrow> goes_on st st'"
  using client_gotHeaders_ok [of _ st h st']
  by (auto simp: goes_on_def client_gotHeaders_def split: if_splits)

lemma goes_on_updateWindow: "goes_on st (st\<lparr>cs_sender := updateWindow w (cs_sender st)\<rparr>)"
  by (auto simp: goes_on_def client_stream_ok_def)

lemma goes_on_accept:
  "accept client_measure f (cs_receiver st) = (e, r) \<Longrightarrow> goes_on st (st\<lparr>cs_receiver := r\<rparr>)"
  using accept_flags [of client_measure f "cs_receiver st"]
    recv_inv_accept [of client_measure _ "cs_receiver st" f]
  by (auto simp: goes_on_def client_stream_ok_def)

lemma chan_inv_accept_data: "chan_inv c \<Longrightarrow> chan_inv (accept_data f i c)"
  by (auto simp: accept_data_def Let_def goes_on_accept
      intro!: chan_inv_put chan_inv_finishStream split: option.splits prod.splits)

lemma chan_inv_acceptServerFrame:
  assumes "chan_inv c"
  shows "chan_inv (acceptServerFrame L f i c)"
proof (cases f)
  case (Some g)
  then show ?thesis
    using assms
    by (cases g) (auto simp: chan_inv_finishStream chan_inv_accept_data goes_on_updateWindow
        intro: chan_inv_put goes_on_gotHeaders split: option.splits)
qed (simp add: assms chan_inv_finishStream)

lemma negotiate_fold:
  assumes "u = REVISION_ZERO \<or> u \<in> set supportedRevisions"
  shows "fold negotiate_step rs (v, u) =
      (v \<or> REVISION_ZERO \<in> set rs, Max (insert u (set rs \<inter> set supportedRevisions)))"
  using assms
proof (induction rs arbitrary: v u)
  case (Cons r rs)
  have "max u r = REVISION_ZERO \<or> max u r \<in> set supportedRevisions" if "r \<in> set supportedRevisions"
    using that Cons.prems by (auto simp: max_def)
  moreover have "Max (insert (max u r) (set rs \<inter> set supportedRevisions)) =
      Max (insert u (insert r (set rs \<inter> set supportedRevisions)))"
    by (cases "set rs \<inter> set supportedRevisions = {}") (simp_all add: max.assoc)
  moreover have "REVISION_ZERO \<notin> set supportedRevisions"
    by (simp add: supportedRevisions_def revision_defs)
  ultimately show ?case
    using Cons by (auto simp: negotiate_step_def Int_insert_left)
qed simp

lemma fold_negotiate_cases:
  assumes "fold negotiate_step rs (v, REVISION_ZERO) = (v0, u)"
  shows "u = REVISION_ZERO \<or> u \<in> set supportedRevisions"
proof -
  have "u \<in> insert REVISION_ZERO (set rs \<inter> set supportedRevisions)"
    using assms Max_in [of "insert REVISION_ZERO (set rs \<inter> set supportedRevisions)"]
    by (simp add: negotiate_fold)
  then show ?thesis by blast
qed

lemma chan_inv_late_exit:
  assumes "chan_inv c" and "ch_settings c = None"
  shows "chan_inv ((snd (recv_exit err (c\<lparr>ch_useRevision := u\<rparr>)))\<lparr>ch_loop := LoopEnded\<rparr>)"
proof -
  let ?d = "snd (recv_exit err c)"
  have "snd (recv_exit err (c\<lparr>ch_useRevision := u\<rparr>)) = ?d\<lparr>ch_useRevision := u\<rparr>"
    by (simp add: recv_exit_def channel_close_def Let_def live_streams_def cong: if_cong)
  moreover have "chan_inv (?d\<lparr>ch_loop := LoopEnded\<rparr>)"
    by (rule chan_inv_recv_exit [OF assms(1)])
  moreover have "ch_settings ?d = None"
    using assms(2) by (simp add: recv_exit_def channel_close_def Let_def)
  ultimately show ?thesis
    by (simp add: chan_inv_def settings_ok_def)
qed

lemma chan_inv_accept_settings:
  assumes "chan_inv c" and "ch_loop c = LoopStart" and "accept_settings stg c = (b, c')"
  shows "chan_inv (c'\<lparr>ch_loop := (if b then LoopRunning else LoopEnded)\<rparr>)"
proof -
  have start: "ch_settings c = None" "ch_useRevision c = REVISION_ZERO"
    using assms(1,2) by (simp_all add: chan_inv_def settings_ok_def)
  obtain v0 u where fld: "fold negotiate_step (SupportedProtocolRevisions stg) (False, ch_useRevision c) = (v0, u)"
    by fastforce
  show ?thesis
  proof (cases "u = REVISION_ZERO \<or> Settings_InitialWindowSize stg < minWindowSize u")
    case True
    then obtain err where "recv_exit err (c\<lparr>ch_useRevision := u\<rparr>) = (b, c')"
      using assms(3) fld by (auto simp: accept_settings_def Let_def split: if_splits)
    then show ?thesis
      using chan_inv_late_exit [OF assms(1) start(1), of err u] by (simp add: recv_exit_def)
  next
    case False
    then have "u \<in> set supportedRevisions"
      using fold_negotiate_cases fld start(2) by auto
    moreover have "b" "c' = c\<lparr>ch_useRevision := u, ch_settings := Some stg, ch_awaitSettings := True\<rparr>"
      using False assms(3) fld by (auto simp: accept_settings_def Let_def split: if_splits)
    ultimately show ?thesis
      using assms(1) False by (simp add: chan_inv_def settings_ok_def not_less)
  qed
qed


text \<open>What \<^verbatim>\<open>allocateStream\<close> does, case by case.\<close>

definition fresh_id :: "tunnelChannel \<Rightarrow> i64" where
  "fresh_id c = i64_wrap (ch_lastStreamID c + 1)"

lemma ids_ok_fresh:
  assumes "ids_ok c" and "0 \<le> ch_lastStreamID c"
  shows "ch_heap c (fresh_id c) = None"
    and "fresh_id c = (if ch_lastStreamID c = 2 ^ 63 - 1 then - (2 ^ 63) else ch_lastStreamID c + 1)"
proof -
  have rng: "ch_lastStreamID c < 2 ^ 63" "\<forall>i st. ch_heap c i = Some st \<longrightarrow> 0 < i \<and> i \<le> ch_lastStreamID c"
    using assms by (auto simp: ids_ok_def)
  show fresh: "fresh_id c = (if ch_lastStreamID c = 2 ^ 63 - 1 then - (2 ^ 63) else ch_lastStreamID c + 1)"
  proof (cases "ch_lastStreamID c = 2 ^ 63 - 1")
    case False
    then show ?thesis using rng(1) assms(2) by (simp add: fresh_id_def i64_wrap_id)
  qed (use i64_wrap_max in \<open>simp add: fresh_id_def\<close>)
  show "ch_heap c (fresh_id c) = None"
  proof (rule ccontr)
    assume "ch_heap c (fresh_id c) \<noteq> None"
    then obtain st where "ch_heap c (fresh_id c) = Some st" by blast
    then have "0 < fresh_id c" "fresh_id c \<le> ch_lastStreamID c" using rng(2) by blast+
    then show False by (simp add: fresh split: if_splits)
  qed
qed

lemma ids_ok_allocated:
  assumes "ids_ok c" and "0 \<le> ch_lastStreamID c"
    and "\<And>i. ch_heap c' i \<noteq> None \<Longrightarrow> ch_heap c i \<noteq> None \<or> i = fresh_id c"
    and "ch_streamCreated c'" and "ch_lastStreamID c' = fresh_id c"
  shows "ids_ok c'"
proof -
  note fresh = ids_ok_fresh(2) [OF assms(1,2)]
  have rng: "ch_lastStreamID c < 2 ^ 63" "\<forall>i st. ch_heap c i = Some st \<longrightarrow> 0 < i \<and> i \<le> ch_lastStreamID c"
    using assms by (auto simp: ids_ok_def)
  show ?thesis
  proof (cases "ch_lastStreamID c = 2 ^ 63 - 1")
    case True
    then show ?thesis using fresh assms(4,5) by (simp add: ids_ok_def)
  next
    case False
    then have *: "fresh_id c = ch_lastStreamID c + 1" using fresh by simp
    have "0 < i \<and> i \<le> ch_lastStreamID c + 1" if "ch_heap c' i = Some st" for i st
      using assms(3) [of i] that rng(2) assms(2) * by fastforce
    then show ?thesis
      using False rng(1) assms(2,4,5) * by (auto simp: ids_ok_def)
  qed
qed

lemma client_stream_ok_new:
  assumes "opts_wf opt" and "minWindowSize rv \<le> w"
  shows "client_stream_ok (unat (initialWindowSize opt))
    (newClientStream x i m hs ts cl sv (newSender w (maxChunkSize opt) (messageOverhead rv))
      (newReceiver (initialWindowSize opt) u (messageOverhead rv)))"
proof -
  have "messageOverhead rv < initialWindowSize opt"
    using opts_wf_minWindowSize [OF assms(1), of rv]
    by (simp add: minWindowSize_le_iff word_less_nat_alt)
  moreover have "0 < w" "messageOverhead rv < 4294967295"
    using assms(2) unat_messageOverhead_le [of rv]
    by (auto simp: minWindowSize_le_iff word_less_nat_alt)
  moreover have "0 < maxChunkSize opt"
    using assms(1) by (simp add: opts_wf_def)
  ultimately show ?thesis
    by (simp add: client_stream_ok_def newClientStream_def recv_inv_new sender_wf_newSender)
qed

lemma allocateStream_refused:
  assumes "ch_finished c \<or> ch_lastStreamID c < 0"
  shows "snd (allocateStream L a c) = c \<and> (\<forall>i md. fst (allocateStream L a c) \<noteq> AllocOk i md)"
proof (cases "ch_finished c")
  case True
  show ?thesis
  proof (cases "ch_err c")
    case None
    then show ?thesis using True by (simp add: allocateStream_def)
  next
    case (Some e)
    then show ?thesis using True by (cases e) (simp_all add: allocateStream_def Let_def Errorf_code_def)
  qed
next
  case False
  then show ?thesis using assms by (simp add: allocateStream_def)
qed

lemma allocateStream_failed:
  assumes "\<not> ch_finished c" and "0 \<le> ch_lastStreamID c" and "allocateStream L a c = (res, c')"
    and "\<And>i md. res \<noteq> AllocOk i md"
  shows "c' = c\<lparr>ch_streamCreated := True, ch_lastStreamID := fresh_id c, ch_mem := ch_mem c'\<rparr>"
  using assms
  by (auto simp: allocateStream_def Let_def fresh_id_def split: option.splits opts_res.splits prod.splits if_splits)

lemma allocateStream_ok:
  assumes "allocateStream L a c = (AllocOk i md, c')"
  obtains hs ts mem stg where "\<not> ch_finished c" "0 \<le> ch_lastStreamID c" "i = fresh_id c"
    "ch_settings c = Some stg" "i \<notin> live_streams c"
    "c' = c\<lparr>ch_streamCreated := True, ch_lastStreamID := i, ch_mem := mem,
        ch_heap := (ch_heap c)(i \<mapsto> newClientStream (nc_ctx a) i (nc_method a) hs ts
          (nc_clientStreams a) (nc_serverStreams a)
          (newSender (Settings_InitialWindowSize stg) (maxChunkSize (ch_tunnelOpts c))
            (messageOverhead (ch_useRevision c)))
          (newReceiver (initialWindowSize (ch_tunnelOpts c)) (minWindowUpdateSize (ch_tunnelOpts c))
            (messageOverhead (ch_useRevision c)))),
        ch_streams := Some (insert i (live_streams c))\<rparr>"
proof -
  have open_c: "\<not> ch_finished c" "\<not> ch_lastStreamID c < 0"
    using allocateStream_refused [of c L a] assms by auto
  with assms show thesis
    by (auto simp: allocateStream_def Let_def fresh_id_def intro!: that
        split: option.splits opts_res.splits prod.splits if_splits)
qed

lemma chan_inv_allocated:
  assumes "chan_inv c" and "\<not> ch_finished c" and "0 \<le> ch_lastStreamID c"
  shows "chan_inv (c\<lparr>ch_streamCreated := True, ch_lastStreamID := fresh_id c, ch_mem := mem\<rparr>)"
  using assms ids_ok_allocated [of c "c\<lparr>ch_streamCreated := True, ch_lastStreamID := fresh_id c, ch_mem := mem\<rparr>"]
  by (simp add: chan_inv_def)

lemma chan_inv_allocateStream:
  assumes "chan_inv c" and "allocateStream L a c = (AllocOk i md, c')"
  shows "chan_inv c' \<and> i \<notin> ch_watched c' \<and> i \<in> live_streams c' \<and> ch_heap c' i \<noteq> None \<and> ch_heap c i = None"
proof -
  obtain hs ts mem stg where al: "\<not> ch_finished c" "0 \<le> ch_lastStreamID c" "i = fresh_id c"
    "ch_settings c = Some stg" "i \<notin> live_streams c"
    "c' = c\<lparr>ch_streamCreated := True, ch_lastStreamID := i, ch_mem := mem,
        ch_heap := (ch_heap c)(i \<mapsto> newClientStream (nc_ctx a) i (nc_method a) hs ts
          (nc_clientStreams a) (nc_serverStreams a)
          (newSender (Settings_InitialWindowSize stg) (maxChunkSize (ch_tunnelOpts c))
            (messageOverhead (ch_useRevision c)))
          (newReceiver (initialWindowSize (ch_tunnelOpts c)) (minWindowUpdateSize (ch_tunnelOpts c))
            (messageOverhead (ch_useRevision c)))),
        ch_streams := Some (insert i (live_streams c))\<rparr>"
    by (rule allocateStream_ok [OF assms(2)])
  have inv: "opts_wf (ch_tunnelOpts c)" "closed_ok c" "settings_ok c" "ids_ok c" "streams_ok c"
    using assms(1) by (simp_all add: chan_inv_def)
  have none: "ch_heap c i = None"
    using ids_ok_fresh(1) [OF inv(4) al(2)] al(3) by simp
  have new: "i \<notin> ch_watched c"
    using inv(5) none by (auto simp: streams_ok_def)
  have win: "minWindowSize (ch_useRevision c) \<le> Settings_InitialWindowSize stg"
    using inv(3) al(4) by (simp add: settings_ok_def)
  have "ids_ok c'"
    by (rule ids_ok_allocated [OF inv(4) al(2)]) (use al in \<open>simp_all split: if_splits\<close>)
  moreover have "streams_ok c'"
    using inv(5) client_stream_ok_new [OF inv(1) win] new
    unfolding streams_ok_def al(6) by (auto simp: newClientStream_def)
  moreover have "closed_ok c'"
    using inv(2) al(1) by (simp add: al(6) closed_ok_def)
  moreover have "settings_ok c'"
    using inv(3) by (simp add: al(6))
  ultimately have "chan_inv c'"
    using inv(1) by (simp add: chan_inv_def al(6))
  then show ?thesis
    using new none by (simp add: al(6))
qed

lemma chan_inv_newStream:
  assumes "chan_inv c"
  shows "chan_inv (snd (newStream L a sendRes c))"
proof -
  obtain res c' where al: "allocateStream L a c = (res, c')" by fastforce
  show ?thesis
  proof (cases "\<exists>i md. res = AllocOk i md")
    case True
    then obtain i md where res: "res = AllocOk i md" by blast
    have c': "chan_inv c'" "i \<notin> ch_watched c'" "i \<in> live_streams c'" "ch_heap c' i \<noteq> None"
      using chan_inv_allocateStream [OF assms al [unfolded res]] by simp_all
    then have "chan_inv (c'\<lparr>ch_sent := fs, ch_watched := insert i (ch_watched c')\<rparr>)" for fs
      by (auto simp: chan_inv_def closed_ok_def settings_ok_def ids_ok_def streams_ok_def)
    then show ?thesis
      using c' al res by (cases sendRes) (simp_all add: newStream_def chan_inv_removeStream)
  next
    case False
    then have eq: "snd (newStream L a sendRes c) = c'"
      using al by (cases res) (simp_all add: newStream_def)
    show ?thesis
    proof (cases "ch_finished c \<or> ch_lastStreamID c < 0")
      case True
      then show ?thesis using allocateStream_refused [OF True, of L a] al eq assms by simp
    next
      case no: False
      then have "c' = c\<lparr>ch_streamCreated := True, ch_lastStreamID := fresh_id c, ch_mem := ch_mem c'\<rparr>"
        using allocateStream_failed [OF _ _ al] False by simp
      then show ?thesis
        using chan_inv_allocated [OF assms, of "ch_mem c'"] no eq by simp
    qed
  qed
qed

lemma finishStream_loop [simp]: "ch_loop (snd (finishStream err tr i c)) = ch_loop c"
  by (simp add: finishStream_def put_stream_def split: option.splits)

lemma acceptServerFrame_loop [simp]: "ch_loop (acceptServerFrame L f i c) = ch_loop c"
proof -
  have data: "ch_loop (accept_data g i c) = ch_loop c" for g
    by (auto simp: accept_data_def Let_def put_stream_def split: option.splits prod.splits)
  show ?thesis
    by (cases "(L, f, i, c)" rule: acceptServerFrame.cases)
       (auto simp: data put_stream_def split: option.splits)
qed

lemma chan_inv_loop_same: "chan_inv c \<Longrightarrow> ch_loop c = l \<Longrightarrow> chan_inv (c\<lparr>ch_loop := l\<rparr>)"
  by (simp add: chan_inv_def settings_ok_def)

lemma chan_inv_recvLoop_step:
  assumes "chan_inv c" and "ch_loop c = LoopRunning" and "recvLoop_step L inp c = (b, c')"
  shows "chan_inv (c'\<lparr>ch_loop := (if b then LoopRunning else LoopEnded)\<rparr>)"
proof (cases b)
  case True
  then have "c' = c \<or> (\<exists>f i. c' = acceptServerFrame L f i c)"
    using assms(3) by (auto simp: recvLoop_step_def recv_exit_def split: sum.splits option.splits)
  then show ?thesis
    using True assms(1,2) by (auto intro!: chan_inv_loop_same chan_inv_acceptServerFrame)
next
  case False
  then obtain err where "recv_exit err c = (b, c')"
    using assms(3) by (auto simp: recvLoop_step_def split: sum.splits option.splits)
  then show ?thesis
    using chan_inv_recv_exit [OF assms(1), of err] False by simp
qed

lemma chan_inv_recvLoop_start:
  assumes "chan_inv c" and "ch_loop c = LoopStart" and "recvLoop_start L inp c = (b, c')"
  shows "chan_inv (c'\<lparr>ch_loop := (if b then LoopRunning else LoopEnded)\<rparr>)"
proof (cases "\<exists>stg. accept_settings stg c = (b, c')")
  case True
  then show ?thesis using chan_inv_accept_settings [OF assms(1,2)] by blast
next
  case False
  then obtain err where "recv_exit err c = (b, c')"
    using assms(3) by (auto simp: recvLoop_start_def Let_def
        split: if_splits sum.splits option.splits ServerToClientFrame.splits)
  then show ?thesis
    using chan_inv_recv_exit [OF assms(1), of err] by (auto simp: recv_exit_def)
qed

lemma chan_inv_recvLoop:
  assumes "chan_inv c" and "recvLoop L inp c = Some c'"
  shows "chan_inv c'"
proof (cases "ch_loop c")
  case LoopStart
  then show ?thesis
    using assms chan_inv_recvLoop_start [OF assms(1) LoopStart] by (auto simp: recvLoop_def split: prod.splits)
next
  case LoopRunning
  then show ?thesis
    using assms chan_inv_recvLoop_step [OF assms(1) LoopRunning] by (auto simp: recvLoop_def split: prod.splits)
qed (use assms in \<open>simp add: recvLoop_def\<close>)

lemma goes_on_reads: "reads_from st st' \<Longrightarrow> goes_on st st'"
  using reads_from_fields [of st st'] reads_from_ok [of st st'] by (simp add: goes_on_def)

lemma chan_inv_stream_RecvMsg:
  assumes "chan_inv c" and "stream_RecvMsg ph i c = Some (r, c')"
  shows "chan_inv c'"
proof -
  obtain st where st: "ch_heap c i = Some st"
    using assms(2) by (auto simp: stream_RecvMsg_def split: option.splits)
  obtain res st' us where rd: "client_readMsg (fst (tunnelRoles (ch_reverse c))) ph st = (res, st', us)"
    by (metis prod_cases3)
  have "chan_inv (put_stream i st' c)"
    by (rule chan_inv_put [OF assms(1) st goes_on_reads [OF client_readMsg_reads [OF rd]]])
  then show ?thesis
    using assms(2) st rd
    by (auto simp: stream_RecvMsg_def Let_def intro: chan_inv_cancelStream
        split: msg_res.splits option.splits if_splits prod.splits)
qed

lemma goes_on_SendMsg: "client_SendMsg ms m st = Some (e, st') \<Longrightarrow> goes_on st st'"
  using client_SendMsg_ok [of _ st ms m e st']
  by (auto simp: goes_on_def client_SendMsg_def Let_def split: if_splits sum.splits)

lemma goes_on_CloseSend: "client_CloseSend r st = Some (e, st', fs) \<Longrightarrow> goes_on st st'"
  using client_CloseSend_ok [of _ st r e st' fs]
  by (auto simp: goes_on_def client_CloseSend_def split: if_splits)

lemma goes_on_send_do: "client_send_do a st = Some (st', fs) \<Longrightarrow> goes_on st st'"
  using client_send_do_ok [of _ st a st' fs]
  by (auto simp: goes_on_def client_send_do_def split: option.splits)

lemma chan_inv_SendMsg: "chan_inv c \<Longrightarrow> stream_SendMsg ms m i c = Some (e, c') \<Longrightarrow> chan_inv c'"
  by (auto simp: stream_SendMsg_def split: option.splits intro: chan_inv_put goes_on_SendMsg)

lemma chan_inv_send_do: "chan_inv c \<Longrightarrow> stream_send_do a i c = Some c' \<Longrightarrow> chan_inv c'"
  by (auto simp: stream_send_do_def split: option.splits if_splits)
     (rule chan_inv_put, assumption+, rule goes_on_send_do)

lemma chan_inv_CloseSend: "chan_inv c \<Longrightarrow> stream_CloseSend r i c = Some (e, c') \<Longrightarrow> chan_inv c'"
  by (auto simp: stream_CloseSend_def split: option.splits)
     (rule chan_inv_put, assumption+, rule goes_on_CloseSend)

lemma chan_inv_watchStream: "chan_inv c \<Longrightarrow> watchStream i c = Some c' \<Longrightarrow> chan_inv c'"
  by (auto simp: watchStream_def chan_inv_cancelStream split: if_splits option.splits)

lemma chan_inv_end_stream_ctx: "chan_inv c \<Longrightarrow> end_stream_ctx e i c = Some c' \<Longrightarrow> chan_inv c'"
  by (auto simp: end_stream_ctx_def goes_on_def client_stream_ok_def split: option.splits intro!: chan_inv_put)

lemma chan_inv_tunnel_ctx: "chan_inv c \<Longrightarrow> chan_inv (c\<lparr>ch_ctx := ctx_end e (ch_ctx c)\<rparr>)"
  by (auto simp: chan_inv_def closed_ok_def)

lemma chan_inv_run_job: "chan_inv c \<Longrightarrow> run_job r c = Some c' \<Longrightarrow> chan_inv c'"
  by (auto simp: run_job_def split: list.splits)

lemma chan_inv_do: "chan_inv c \<Longrightarrow> chan_do L a c = Some c' \<Longrightarrow> chan_inv c'"
  by (cases a) (auto simp: chan_inv_close chan_inv_newStream chan_inv_tunnel_ctx intro: chan_inv_recvLoop chan_inv_SendMsg chan_inv_send_do chan_inv_CloseSend
      chan_inv_watchStream chan_inv_end_stream_ctx chan_inv_run_job chan_inv_stream_RecvMsg)

lemma chan_inv_reach: "chan_reach L c0 c \<Longrightarrow> chan_inv c0 \<Longrightarrow> chan_inv c"
  by (induction rule: chan_reach.induct) (auto intro: chan_inv_do)

lemma chan_reach_run: "chan_reach L c0 c \<Longrightarrow> chan_run L as c = Some c' \<Longrightarrow> chan_reach L c0 c'"
  by (induction as arbitrary: c) (auto split: option.splits intro: chan_reach.chan_step)

subsection \<open>The contracts the channel meets\<close>

interpretation chan_registry: stream_registry getStream removeStream live_streams
    "\<lambda>c i. ch_streamCreated c \<and> i \<le> ch_lastStreamID c"
  by unfold_locales (auto simp: getStream_def errNeverCreated_def)

interpretation chan_latch: latch "\<lambda>e c. snd (channel_close e c)"
    "\<lambda>c. if ch_finished c then Some (ch_err c) else None"
    "\<lambda>e. Some (case e of None \<Rightarrow> EOF | Some x \<Rightarrow> x)"
  by unfold_locales (auto simp: channel_close_def Let_def split: if_splits)

interpretation stream_latch: latch "\<lambda>(err, tr) st. case client_finish err tr st of None \<Rightarrow> st | Some st' \<Rightarrow> st'"
    cs_done "\<lambda>(err, tr). finish_err err"
  by unfold_locales (auto simp: client_finish_def)

end
