(* ===== verification/Client_Properties.thy ===== *)
theory Client_Properties
  imports Channel_Invariant
begin

text \<open>
  The properties of the client's end of a tunnel. \<open>demo_lib\<close> is an instance of the library functions and
  \<open>demo_channel\<close> a channel with an established tunnel, on which the properties are evaluated.
\<close>

definition demo_lib :: grpc_lib where
  "demo_lib =
     \<lparr>FromError = (\<lambda>e. case e of StatusErr s \<Rightarrow> (s, True)
                              | _ \<Rightarrow> (\<lparr>Code = Unknown, MsgFormat = ''error'', MsgArgs = []\<rparr>, False)),
      FromContextError = (\<lambda>e. \<lparr>Code = (if e = CtxDeadlineExceeded then DeadlineExceeded else if e = CtxCanceled
                                        then Canceled else Unknown), MsgFormat = ''context'', MsgArgs = []\<rparr>),
      FromProto_Err = (\<lambda>s. case s of None \<Rightarrow> None
                                  | Some st \<Rightarrow> if Code st = OK then None else Some (StatusErr st)),
      md_Append = (\<lambda>k v md. case md of None \<Rightarrow> None
                      | Some m \<Rightarrow> Some (Some (m(k \<mapsto> (case m k of None \<Rightarrow> [] | Some vs \<Rightarrow> vs) @ [v])))),
      md_Join = (\<lambda>a b. Some (\<lambda>k. case (md_entries a k, md_entries b k) of
                      (None, y) \<Rightarrow> y | (Some x, None) \<Rightarrow> Some x | (Some x, Some y) \<Rightarrow> Some (x @ y))),
      md_Get = (\<lambda>md k. case md_entries md k of None \<Rightarrow> [] | Some vs \<Rightarrow> vs)\<rparr>"

definition demo_mem :: caller_mem where
  "demo_mem = \<lparr>mem_md = (\<lambda>_. None), mem_peer = (\<lambda>_. None), mem_ch = (\<lambda>_. False)\<rparr>"

definition demo_opts :: tunnelOpts where
  "demo_opts = \<lparr>initialWindowSize = 65536, maxChunkSize = 16384, minWindowUpdateSize = 16384, establishmentTimeout = -1\<rparr>"

definition demo_new :: tunnelChannel where
  "demo_new = newTunnelChannel None None None True False demo_opts demo_mem"

definition demo_settings :: Settings where
  "demo_settings = \<lparr>SupportedProtocolRevisions = [1, 7, 2], Settings_InitialWindowSize = 1024\<rparr>"

definition demo_channel :: tunnelChannel where
  "demo_channel = demo_new\<lparr>ch_useRevision := 2, ch_settings := Some demo_settings, ch_awaitSettings := True,
     ch_loop := LoopRunning\<rparr>"

definition demo_call :: new_call where
  "demo_call = \<lparr>nc_ctx = None, nc_md = None, nc_clientStreams = True, nc_serverStreams = True,
     nc_method = ''/svc/m'', nc_opts = []\<rparr>"

lemma demo_inv: "chan_inv demo_new"
  by (simp add: demo_new_def demo_opts_def opts_wf_def option_constants word_less_nat_alt word_le_nat_alt
      chan_inv_newTunnelChannel)

lemma demo_settles: "chan_do demo_lib (ActRecv (Inr (s2c (-1) (ServerToClient_Settings demo_settings)))) demo_new
    = Some demo_channel"
  by (simp add: demo_channel_def demo_new_def newTunnelChannel_def recvLoop_def recvLoop_start_def accept_settings_def
      demo_settings_def negotiate_step_def supportedRevisions_def revision_defs Let_def minWindowSize_def
      messageOverhead_def revisionTwoMessageOverhead_def word_less_nat_alt)

lemma demo_reach: "chan_reach demo_lib demo_new demo_channel"
  by (rule chan_reach.chan_step [OF chan_reach.chan_start demo_settles])

subsection \<open>Establishing a tunnel\<close>



text \<open>
  C14. Negotiation: the channel uses the largest revision that the server announced and this side supports, if there
  is one and the server's window is large enough for it; otherwise it is closed, with FailedPrecondition when there is no
  common revision and Internal when the window is too small, and no settings are recorded.
\<close>

theorem negotiation_outcome:
  fixes stg :: Settings
  defines "R \<equiv> set (SupportedProtocolRevisions stg) \<inter> set supportedRevisions"
  assumes "ch_useRevision c = REVISION_ZERO" and "\<not> ch_finished c" and "accept_settings stg c = (b, c')"
  shows "(b \<longleftrightarrow> R \<noteq> {} \<and> minWindowSize (Max R) \<le> Settings_InitialWindowSize stg)
    \<and> (b \<longrightarrow> ch_useRevision c' = Max R \<and> ch_settings c' = Some stg \<and> ch_awaitSettings c')
    \<and> (\<not> b \<longrightarrow> ch_finished c' \<and> ch_settings c' = ch_settings c \<and> (\<exists>e. ch_err c' = Some e
         \<and> error_code e = Some (if R = {} then FailedPrecondition else Internal)))"
proof -
  have fin: "finite R" by (simp add: R_def)
  have pos: "0 < Max R" if "R \<noteq> {}"
    using Max_in [OF fin that] by (auto simp: R_def supportedRevisions_def revision_defs)
  have mx: "Max (insert REVISION_ZERO R) = (if R = {} then REVISION_ZERO else Max R)"
    using pos fin by (cases "R = {}") (simp_all add: revision_defs max_def)
  have fold: "fold negotiate_step (SupportedProtocolRevisions stg) (False, REVISION_ZERO) =
      (REVISION_ZERO \<in> set (SupportedProtocolRevisions stg), if R = {} then REVISION_ZERO else Max R)"
    using negotiate_fold [of REVISION_ZERO "SupportedProtocolRevisions stg" False] mx by (simp add: R_def)
  show ?thesis
  proof (cases "R = {}")
    case True
    then show ?thesis
      using assms(2-4) fold
      by (auto simp: accept_settings_def Let_def recv_exit_def channel_close_def errOnlyZero_def errRevisions_def
          split: if_splits prod.splits)
  next
    case False
    then show ?thesis
      using assms(2-4) fold pos
      by (auto simp: accept_settings_def Let_def recv_exit_def channel_close_def errWindow_def revision_defs not_less
          split: if_splits)
  qed
qed

theorem negotiation_outcome_witness:
  "\<exists>c'. accept_settings demo_settings demo_new = (True, c') \<and> ch_useRevision c' = 2"
proof -
  obtain b c' where a: "accept_settings demo_settings demo_new = (b, c')" by fastforce
  have R: "set (SupportedProtocolRevisions demo_settings) \<inter> set supportedRevisions = {1, 2}"
    by (auto simp: demo_settings_def supportedRevisions_def revision_defs)
  have w: "minWindowSize (Max {1, 2}) \<le> Settings_InitialWindowSize demo_settings"
    by (simp add: demo_settings_def minWindowSize_def messageOverhead_def revisionTwoMessageOverhead_def revision_defs
        word_le_nat_alt)
  have "ch_useRevision demo_new = REVISION_ZERO" "\<not> ch_finished demo_new"
    by (simp_all add: demo_new_def newTunnelChannel_def)
  from negotiation_outcome [OF this a] have "b" "ch_useRevision c' = Max {1, 2}"
    unfolding R using w by auto
  then show ?thesis using a by simp
qed

subsection \<open>Streams\<close>

text \<open>
  C15. Stream IDs are never used twice: in every reachable state a new stream gets an ID that no stream of the
  channel ever had, one more than the last unless the int64 counter is exhausted, and the frame that announces the
  stream is sent with it.
\<close>

theorem stream_ids_fresh:
  assumes "chan_reach L (newTunnelChannel x pr md b r opts mem) c" and "opts_wf opts"
    and "newStream L a sendRes c = (NewOk i, c')"
  shows "ch_heap c i = None \<and> ch_heap c' i \<noteq> None \<and> i \<in> live_streams c'
    \<and> (ch_lastStreamID c < 2 ^ 63 - 1 \<longrightarrow> i = ch_lastStreamID c + 1 \<and> 0 < i)
    \<and> (\<exists>f. ch_sent c' = ch_sent c @ [c2s i (ClientToServer_NewStream f)]
         \<and> NewStream_ProtocolRevision f = ch_useRevision c)"
proof -
  have inv: "chan_inv c"
    by (rule chan_inv_reach [OF assms(1) chan_inv_newTunnelChannel [OF assms(2)]])
  obtain md' c1 where al: "allocateStream L a c = (AllocOk i md', c1)"
    and c': "c' = c1\<lparr>ch_sent := ch_sent c1 @ [c2s i (newStream_frame a md' c1)],
                    ch_watched := insert i (ch_watched c1)\<rparr>"
    using assms(3) by (auto simp: newStream_def split: prod.splits alloc_res.splits option.splits)
  note new = chan_inv_allocateStream [OF inv al]
  have "0 \<le> ch_lastStreamID c \<and> i = fresh_id c \<and> ch_sent c1 = ch_sent c \<and> ch_useRevision c1 = ch_useRevision c"
    by (rule allocateStream_ok [OF al]) simp
  then show ?thesis
    using new inv ids_ok_fresh(2) [of c] by (auto simp: c' chan_inv_def newStream_frame_def)
qed

theorem stream_ids_fresh_witness:
  "\<exists>c'. newStream demo_lib demo_call None demo_channel = (NewOk 1, c') \<and> ch_heap demo_channel 1 = None
     \<and> ch_heap c' 1 \<noteq> None \<and> 1 \<in> live_streams c'"
proof -
  obtain c' where n: "newStream demo_lib demo_call None demo_channel = (NewOk 1, c')"
    by (simp add: newStream_def allocateStream_def demo_channel_def demo_new_def newTunnelChannel_def demo_call_def
        Let_def i64_wrap_def live_streams_def)
  have "opts_wf demo_opts"
    by (simp add: demo_opts_def opts_wf_def option_constants word_less_nat_alt word_le_nat_alt)
  from stream_ids_fresh [OF demo_reach [unfolded demo_new_def] this n] show ?thesis
    using n by blast
qed

lemma finishStream_registry:
  assumes "ch_heap c i = Some st" and "cs_done st = None"
  shows "live_streams (snd (finishStream e t i c)) = live_streams c - {i}"
    and "ch_streamCreated (snd (finishStream e t i c)) = ch_streamCreated c"
    and "ch_lastStreamID (snd (finishStream e t i c)) = ch_lastStreamID c"
  using assms by (simp_all add: finishStream_def client_finish_def put_stream_def)

text \<open>
  Frames of finished streams are ignored: once a stream is finished, a frame that arrives for its ID changes
  nothing and the loop goes on, while the ID counter has not wrapped around.
\<close>

lemma late_frames_ignored:
  assumes "chan_inv c" and "i \<in> live_streams c" and "0 \<le> ch_lastStreamID c" and "S2C_StreamId m = i"
  shows "recvLoop_step L (Inr m) (snd (finishStream e t i c)) = (True, snd (finishStream e t i c))"
proof -
  obtain st where st: "ch_heap c i = Some st" "cs_done st = None"
    using assms(1,2) by (auto simp: chan_inv_def streams_ok_def)
  have used: "ch_streamCreated c \<and> i \<le> ch_lastStreamID c"
    using assms(1,3) st(1) by (auto simp: chan_inv_def ids_ok_def)
  have "getStream i (snd (finishStream e t i c)) = Inr None"
    by (rule chan_registry.lookup_used) (use used in \<open>simp_all add: finishStream_registry [OF st]\<close>)
  then show ?thesis
    using assms(4) by (simp add: recvLoop_step_def)
qed

lemma finish_kept:
  "ch_heap c i = Some st \<Longrightarrow> cs_done st = Some e \<Longrightarrow>
   ch_heap (snd (finishStream err tr j c)) i = Some st"
  by (auto simp: finishStream_def put_stream_def client_finish_def split: option.splits if_splits)

text \<open>What never changes again about a finished stream.\<close>

definition outcome :: "tunnelChannel \<Rightarrow> i64 \<Rightarrow> (gerror \<times> MD) option" where
  "outcome c i = (case ch_heap c i of
     Some st \<Rightarrow> map_option (\<lambda>e. (e, cs_trailers st)) (cs_done st) | None \<Rightarrow> None)"

lemma outcome_put:
  "ch_heap c j = Some st \<Longrightarrow> cs_done st' = cs_done st \<Longrightarrow> cs_trailers st' = cs_trailers st \<Longrightarrow>
   outcome (put_stream j st' c) i = outcome c i"
  by (simp add: outcome_def put_stream_def)

lemma outcome_cong: "ch_heap c = ch_heap c' \<Longrightarrow> outcome c i = outcome c' i"
  by (simp add: outcome_def)

lemma outcome_frame [simp]:
  "outcome (c\<lparr>ch_sent := fs\<rparr>) i = outcome c i" "outcome (c\<lparr>ch_jobs := fs\<rparr>) i = outcome c i"
  "outcome (c\<lparr>ch_mem := mem\<rparr>) i = outcome c i" "outcome (c\<lparr>ch_loop := l\<rparr>) i = outcome c i"
  "outcome (c\<lparr>ch_ctx := x\<rparr>) i = outcome c i" "outcome (c\<lparr>ch_streamDone := n\<rparr>) i = outcome c i"
  "outcome (removeStream j c) i = outcome c i"
  by (rule outcome_cong, simp)+

lemma outcome_finish: "outcome c i = Some x \<Longrightarrow> outcome (snd (finishStream err tr j c)) i = Some x"
  by (auto simp: outcome_def finish_kept split: option.splits)

lemma outcome_cancel:
  assumes "outcome c i = Some x"
  shows "outcome (cancelStream err j c) i = Some x"
proof -
  have "outcome (snd (finishStream err None j c)) i = Some x"
    by (rule outcome_finish [OF assms])
  then show ?thesis
    by (auto simp: cancelStream_def outcome_put split: prod.splits bool.splits option.splits)
qed

lemma outcome_close: "outcome (snd (channel_close err c)) i = outcome c i"
  by (auto simp: outcome_def channel_close_def Let_def cancel_ctx_def split: option.splits)

lemma outcome_accept:
  assumes "outcome c i = Some x"
  shows "outcome (acceptServerFrame L f j c) i = Some x"
proof -
  have data: "outcome (accept_data g j c) i = Some x" for g
    using assms by (auto simp: accept_data_def Let_def outcome_put intro!: outcome_finish split: option.splits prod.splits)
  show ?thesis
    by (cases "(L, f, j, c)" rule: acceptServerFrame.cases)
       (use assms in \<open>auto simp: data outcome_finish outcome_put client_gotHeaders_def split: option.splits if_splits\<close>)
qed

lemma outcome_recvLoop:
  assumes "outcome c i = Some x" and "recvLoop L inp c = Some c'"
  shows "outcome c' i = Some x"
proof -
  have ex: "outcome (snd (recv_exit err d)) i = Some x" if "outcome d i = Some x" for err d
    using that by (simp add: recv_exit_def outcome_close)
  have rv: "outcome (c\<lparr>ch_useRevision := u\<rparr>) i = outcome c i"
    "outcome (c\<lparr>ch_useRevision := u, ch_settings := g, ch_awaitSettings := b\<rparr>) i = outcome c i" for u g b
    by (simp_all add: outcome_def)
  have "outcome (snd (accept_settings stg c)) i = Some x" for stg
    using assms(1) by (auto simp: accept_settings_def Let_def rv intro!: ex split: prod.splits)
  then have "outcome (snd (recvLoop_start L inp c)) i = Some x"
    using assms(1) by (auto simp: recvLoop_start_def Let_def intro!: ex
        split: sum.splits option.splits ServerToClientFrame.splits)
  moreover have "outcome (snd (recvLoop_step L inp c)) i = Some x"
    using assms(1) by (auto simp: recvLoop_step_def intro!: ex outcome_accept split: sum.splits option.splits)
  ultimately show ?thesis
    using assms(2) by (auto simp: recvLoop_def split: loop_pc.splits prod.splits)
qed

lemma outcome_newStream:
  assumes "chan_inv c" and "outcome c i = Some x"
  shows "outcome (snd (newStream L a r c)) i = Some x"
proof -
  obtain res c' where al: "allocateStream L a c = (res, c')" by fastforce
  have "outcome c' i = Some x"
  proof (cases "\<exists>j md. res = AllocOk j md")
    case True
    then obtain j md where res: "res = AllocOk j md" by blast
    have "ch_heap c j = None" using chan_inv_allocateStream [OF assms(1) al [unfolded res]] by simp
    moreover have "\<exists>st. ch_heap c' = (ch_heap c)(j \<mapsto> st)"
      by (rule allocateStream_ok [OF al [unfolded res]]) auto
    ultimately show ?thesis using assms(2) by (auto simp: outcome_def)
  next
    case False
    then show ?thesis
    proof (cases "ch_finished c \<or> ch_lastStreamID c < 0")
      case True
      then show ?thesis using allocateStream_refused [OF True, of L a] al assms(2) by simp
    next
      case no: False
      then have eq: "c' = c\<lparr>ch_streamCreated := True, ch_lastStreamID := fresh_id c, ch_mem := ch_mem c'\<rparr>"
        using allocateStream_failed [OF _ _ al] False by simp
      have "ch_heap c' = ch_heap c" by (subst eq) simp
      then show ?thesis using assms(2) by (simp add: outcome_def)
    qed
  qed
  moreover have "outcome (c'\<lparr>ch_sent := fs, ch_watched := w\<rparr>) i = outcome c' i" for fs w
    by (simp add: outcome_def)
  ultimately show ?thesis
    using al by (simp add: newStream_def split: alloc_res.splits option.splits)
qed

lemma reads_from_trailers: "reads_from st st' \<Longrightarrow> cs_trailers st' = cs_trailers st"
  by (cases st; cases st'; simp add: reads_from_def)

lemma outcome_RecvMsg:
  assumes "outcome c i = Some x" and "stream_RecvMsg ph j c = Some (r, c')"
  shows "outcome c' i = Some x"
proof -
  obtain st where st: "ch_heap c j = Some st"
    using assms(2) by (auto simp: stream_RecvMsg_def split: option.splits)
  obtain res st' us where rd: "client_readMsg (fst (tunnelRoles (ch_reverse c))) ph st = (res, st', us)"
    by (metis prod_cases3)
  note from_st = client_readMsg_reads [OF rd]
  have "outcome (put_stream j st' c) i = Some x"
    using outcome_put [OF st reads_from_fields(1) [OF from_st] reads_from_trailers [OF from_st]] assms(1) by simp
  then show ?thesis
    using assms(2) st rd
    by (auto simp: stream_RecvMsg_def Let_def intro!: outcome_cancel
        split: msg_res.splits option.splits if_splits prod.splits)
qed

lemma sending_keeps_outcome:
  "client_send_do b st = Some (st', fs) \<Longrightarrow> cs_done st' = cs_done st \<and> cs_trailers st' = cs_trailers st"
  "client_SendMsg ms m st = Some (e, st') \<Longrightarrow> cs_done st' = cs_done st \<and> cs_trailers st' = cs_trailers st"
  "client_CloseSend r st = Some (e, st', fs) \<Longrightarrow> cs_done st' = cs_done st \<and> cs_trailers st' = cs_trailers st"
  by (auto simp: client_send_do_def client_SendMsg_def client_CloseSend_def Let_def
      split: option.splits if_splits sum.splits)

lemma outcome_do:
  assumes "chan_inv c" and "outcome c i = Some x" and "chan_do L a c = Some c'"
  shows "outcome c' i = Some x"
proof (cases a)
  case (ActSend j b)
  then obtain st st' fs where "ch_heap c j = Some st" "client_send_do b st = Some (st', fs)"
    "c' = (put_stream j st' c)\<lparr>ch_sent := ch_sent c @ map (c2s j) fs\<rparr>"
    using assms(3) by (auto simp: stream_send_do_def split: option.splits if_splits)
  then show ?thesis
    using assms(2) sending_keeps_outcome(1) outcome_put [of c j st st' i] by simp
next
  case (ActSendMsg j b)
  then obtain st e st' where "ch_heap c j = Some st" "client_SendMsg (\<lambda>_. b) () st = Some (e, st')"
    "c' = put_stream j st' c"
    using assms(3) by (auto simp: stream_SendMsg_def split: option.splits)
  then show ?thesis
    using assms(2) sending_keeps_outcome(2) outcome_put by metis
next
  case (ActCloseSend j r)
  then obtain st e st' fs where "ch_heap c j = Some st" "client_CloseSend r st = Some (e, st', fs)"
    "c' = (put_stream j st' c)\<lparr>ch_sent := ch_sent c @ (if r = None then map (c2s j) fs else [])\<rparr>"
    using assms(3) by (auto simp: stream_CloseSend_def split: option.splits)
  then show ?thesis
    using assms(2) sending_keeps_outcome(3) outcome_put [of c j st st' i] by simp
next
  case (ActRecvMsg j ph)
  then show ?thesis
    using assms(3) by (auto dest: outcome_RecvMsg [OF assms(2)])
next
  case (ActStreamCtx j e)
  then show ?thesis
    using assms(2,3) by (auto simp: end_stream_ctx_def outcome_def put_stream_def split: option.splits if_splits)
next
  case (ActWatch j)
  then show ?thesis
    using assms(2,3) by (auto simp: watchStream_def outcome_cancel split: option.splits if_splits)
next
  case (ActJob r)
  then show ?thesis
    using assms(2,3) by (auto simp: run_job_def split: list.splits)
next
  case (ActRecv inp)
  then show ?thesis
    using assms(3) outcome_recvLoop [OF assms(2), of L inp c'] by simp
qed (use assms in \<open>auto simp: outcome_close outcome_newStream\<close>)

text \<open>
  C17. The outcome of a stream is final: once a stream is finished, its error and its trailers stay the same whatever
  happens to the channel afterwards.
\<close>

theorem stream_outcome_final:
  assumes "chan_inv c" and "outcome c i = Some x" and "chan_run L as c = Some c'"
  shows "outcome c' i = Some x"
  using assms
  by (induction as arbitrary: c) (auto split: option.splits intro: outcome_do chan_inv_do)

text \<open>
  C18. A closed channel finishes its streams: in every reachable state in which the channel is closed, a stream its
  caller holds is finished, or the goroutine that watches its context can run and finishes it with the
  error of that context.
\<close>

theorem close_finishes_streams:
  assumes "chan_reach L (newTunnelChannel x pr md b r opts mem) c" and "opts_wf opts" and "ch_finished c"
    and "i \<in> ch_watched c"
  shows "\<exists>st. ch_heap c i = Some st \<and> (cs_done st = None \<longrightarrow>
    (\<exists>c' st'. watchStream i c = Some c' \<and> ch_heap c' i = Some st'
       \<and> cs_done st' = Some (finish_err (cs_ctx st)) \<and> rcv_cancelled (cs_receiver st')
       \<and> c2s i ClientToServer_Cancel \<in> set (ch_jobs c')))"
proof -
  have inv: "chan_inv c"
    by (rule chan_inv_reach [OF assms(1) chan_inv_newTunnelChannel [OF assms(2)]])
  then have "live_streams c = {}"
    using assms(3) by (simp add: chan_inv_def closed_ok_def live_streams_def)
  then obtain st where st: "ch_heap c i = Some st" "cs_done st \<noteq> None \<or> cs_ctx st \<noteq> None"
    using inv assms(4) by (auto simp: chan_inv_def streams_ok_def)
  have "\<exists>c' st'. watchStream i c = Some c' \<and> ch_heap c' i = Some st' \<and> cs_done st' = Some (finish_err (cs_ctx st))
      \<and> rcv_cancelled (cs_receiver st') \<and> c2s i ClientToServer_Cancel \<in> set (ch_jobs c')"
    if "cs_done st = None"
  proof -
    have "watchStream i c = Some (cancelStream (cs_ctx st) i c)"
      using st that assms(4) by (auto simp: watchStream_def)
    then show ?thesis
      using st(1) that by (simp add: cancelStream_def finishStream_def client_finish_def put_stream_def)
  qed
  then show ?thesis using st(1) by simp
qed

text \<open>The channel after one stream was opened, and after it was closed then.\<close>

definition demo_open :: tunnelChannel where
  "demo_open = snd (newStream demo_lib demo_call None demo_channel)"

lemmas demo_open_eval =
  demo_open_def newStream_def allocateStream_def demo_channel_def demo_new_def newTunnelChannel_def demo_call_def
  Let_def i64_wrap_def live_streams_def newClientStream_def

lemma demo_open_reach: "chan_reach demo_lib demo_new demo_open"
  by (rule chan_reach.chan_step [OF demo_reach, of "ActNew demo_call None"]) (simp add: demo_open_def)

lemma demo_open_inv: "chan_inv demo_open"
  by (rule chan_inv_reach [OF demo_open_reach demo_inv])

lemma demo_opts_wf: "opts_wf demo_opts"
  by (simp add: demo_opts_def opts_wf_def option_constants word_less_nat_alt word_le_nat_alt)

theorem stream_outcome_final_witness:
  "\<exists>c c'. chan_do demo_lib (ActRecv (Inr (s2c 1 (ServerToClient_Settings demo_settings)))) demo_open = Some c
     \<and> chan_run demo_lib [ActRecv (Inl EOF), ActStreamCtx 1 CtxCanceled, ActWatch 1] c = Some c'
     \<and> outcome c' 1 = Some (errUnexpectedSettings, None)"
proof -
  have "\<exists>c c'. chan_do demo_lib (ActRecv (Inr (s2c 1 (ServerToClient_Settings demo_settings)))) demo_open = Some c
      \<and> outcome c 1 = Some (errUnexpectedSettings, None)
      \<and> chan_run demo_lib [ActRecv (Inl EOF), ActStreamCtx 1 CtxCanceled, ActWatch 1] c = Some c'"
    by (simp add: demo_open_eval recvLoop_def recvLoop_step_def getStream_def finishStream_def client_finish_def
        put_stream_def removeStream_def write_targets_def outcome_def finish_err_def errUnexpectedSettings_def
        recv_exit_def channel_close_def end_stream_ctx_def watchStream_def cancelStream_def Errorf_def)
  then obtain c c' where c: "chan_do demo_lib (ActRecv (Inr (s2c 1 (ServerToClient_Settings demo_settings)))) demo_open = Some c"
    "outcome c 1 = Some (errUnexpectedSettings, None)"
    "chan_run demo_lib [ActRecv (Inl EOF), ActStreamCtx 1 CtxCanceled, ActWatch 1] c = Some c'" by blast
  from stream_outcome_final [OF chan_inv_do [OF demo_open_inv c(1)] c(2,3)] show ?thesis
    using c by blast
qed

theorem close_finishes_streams_witness:
  "\<exists>st. ch_heap (snd (channel_close None demo_open)) 1 = Some st \<and> cs_done st = None
     \<and> (\<exists>c' st'. watchStream 1 (snd (channel_close None demo_open)) = Some c' \<and> ch_heap c' 1 = Some st'
          \<and> cs_done st' = Some (finish_err (cs_ctx st)))"
proof -
  let ?c = "snd (channel_close None demo_open)"
  have reach: "chan_reach demo_lib demo_new ?c"
    by (rule chan_reach.chan_step [OF demo_open_reach, of "ActClose None"]) simp
  have "ch_finished ?c" "1 \<in> ch_watched ?c" "map_option cs_done (ch_heap ?c 1) = Some None"
    by (simp_all add: demo_open_eval channel_close_def cancel_ctx_def)
  with close_finishes_streams [OF reach [unfolded demo_new_def] demo_opts_wf] show ?thesis
    by fastforce
qed

subsection \<open>Closing\<close>

lemma closed_newStream:
  assumes "ch_finished c"
  shows "snd (newStream L a r c) = c"
proof -
  obtain res d where al: "allocateStream L a c = (res, d)" by fastforce
  then have "d = c" "\<And>i md. res \<noteq> AllocOk i md"
    using allocateStream_refused [of c L a] assms by simp_all
  then show ?thesis
    using al by (cases res) (auto simp: newStream_def)
qed

lemma closing_frame [simp]:
  "ch_finished (put_stream i st c) = ch_finished c" "ch_err (put_stream i st c) = ch_err c"
  by (simp_all add: put_stream_def)

lemma finish_keeps_closing [simp]:
  "ch_finished (snd (finishStream e t i c)) = ch_finished c" "ch_err (snd (finishStream e t i c)) = ch_err c"
  by (simp_all add: finishStream_def split: option.splits)

lemma cancel_keeps_closing [simp]:
  "ch_finished (cancelStream e i c) = ch_finished c" "ch_err (cancelStream e i c) = ch_err c"
proof -
  obtain b d where f: "finishStream e None i c = (b, d)" by fastforce
  have "ch_finished d = ch_finished c" "ch_err d = ch_err c"
    using finish_keeps_closing [of e None i c] unfolding f by simp_all
  then show "ch_finished (cancelStream e i c) = ch_finished c" "ch_err (cancelStream e i c) = ch_err c"
    by (simp_all add: cancelStream_def f split: bool.splits option.splits)
qed

lemma closed_close:
  "ch_finished c \<Longrightarrow> ch_finished (snd (channel_close e c)) \<and> ch_err (snd (channel_close e c)) = ch_err c"
  by (simp add: channel_close_def)

lemma closed_accept:
  "ch_finished (acceptServerFrame L f i c) = ch_finished c \<and> ch_err (acceptServerFrame L f i c) = ch_err c"
  by (cases "(L, f, i, c)" rule: acceptServerFrame.cases)
     (auto simp: accept_data_def Let_def split: option.splits prod.splits)

lemma closed_recvLoop:
  assumes "ch_finished c" and "recvLoop L inp c = Some c'"
  shows "ch_finished c' \<and> ch_err c' = ch_err c"
proof -
  have ex: "ch_finished (snd (recv_exit e d)) \<and> ch_err (snd (recv_exit e d)) = ch_err d" if "ch_finished d" for e d
    using closed_close [OF that] by (simp add: recv_exit_def)
  have "ch_finished (snd (accept_settings stg c)) \<and> ch_err (snd (accept_settings stg c)) = ch_err c" for stg
    using assms(1) ex by (auto simp: accept_settings_def Let_def split: prod.splits)
  then have "ch_finished (snd (recvLoop_start L inp c)) \<and> ch_err (snd (recvLoop_start L inp c)) = ch_err c"
    using assms(1) ex by (auto simp: recvLoop_start_def Let_def split: sum.splits option.splits ServerToClientFrame.splits)
  moreover have "ch_finished (snd (recvLoop_step L inp c)) \<and> ch_err (snd (recvLoop_step L inp c)) = ch_err c"
    using assms(1) ex by (auto simp: recvLoop_step_def closed_accept split: sum.splits option.splits)
  ultimately show ?thesis
    using assms(2) by (auto simp: recvLoop_def split: loop_pc.splits prod.splits)
qed

lemma closed_RecvMsg:
  "stream_RecvMsg ph i c = Some (r, c') \<Longrightarrow> ch_finished c' = ch_finished c \<and> ch_err c' = ch_err c"
  by (auto simp: stream_RecvMsg_def Let_def split: option.splits prod.splits msg_res.splits if_splits)

lemma closed_do:
  assumes "ch_finished c" and "chan_do L a c = Some c'"
  shows "ch_finished c' \<and> ch_err c' = ch_err c"
proof (cases a)
  case (ActRecv inp)
  then show ?thesis using closed_recvLoop [OF assms(1)] assms(2) by simp
next
  case (ActNew x r)
  then show ?thesis using closed_newStream [OF assms(1), of L x r] assms by auto
next
  case (ActClose e)
  then show ?thesis using closed_close [OF assms(1)] assms(2) by auto
next
  case (ActRecvMsg i ph)
  then show ?thesis using assms by (auto dest!: closed_RecvMsg)
next
  case (ActSendMsg i b)
  then show ?thesis using assms by (auto simp: stream_SendMsg_def split: option.splits)
next
  case (ActSend i b)
  then show ?thesis using assms by (auto simp: stream_send_do_def split: option.splits if_splits)
next
  case (ActCloseSend i r)
  then show ?thesis using assms by (auto simp: stream_CloseSend_def split: option.splits)
next
  case (ActJob r)
  then show ?thesis using assms by (auto simp: run_job_def split: list.splits)
next
  case (ActWatch i)
  then show ?thesis using assms by (auto simp: watchStream_def split: option.splits if_splits)
qed (use assms in \<open>auto simp: end_stream_ctx_def split: option.splits\<close>)

lemma closed_run:
  "ch_finished c \<Longrightarrow> chan_run L as c = Some c' \<Longrightarrow> ch_finished c' \<and> ch_err c' = ch_err c"
  by (induction as arbitrary: c) (auto split: option.splits dest: closed_do)

lemma first_reason:
  assumes "\<not> ch_finished c" and "chan_run L (ActClose err # as) c = Some c'"
  shows "ch_finished c' \<and> ch_err c' = Some (case err of None \<Rightarrow> EOF | Some x \<Rightarrow> x)"
proof -
  have "ch_finished (snd (channel_close err c))
      \<and> ch_err (snd (channel_close err c)) = Some (case err of None \<Rightarrow> EOF | Some x \<Rightarrow> x)"
    using chan_latch.store_first [of c err] assms(1) by (simp split: if_splits)
  then show ?thesis
    using closed_run [of "snd (channel_close err c)" L as c'] assms(2) by simp
qed

lemma closed_refuses:
  assumes "ch_finished c" and "ch_err c = Some e0" and "e0 = EOF \<or> Code (toStatus L e0) \<noteq> OK"
  shows "\<exists>e. newStream L a sendRes c = (NewErr e, c) \<and> error_code e = Some (if e0 = EOF then Canceled else Code (toStatus L e0))"
proof -
  have "\<exists>e. allocateStream L a c = (AllocErr e, c)
      \<and> error_code e = Some (if e0 = EOF then Canceled else Code (toStatus L e0))"
    using assms by (auto simp: allocateStream_def errChannelClosed_def Errorf_code_def Let_def split: gerror.splits)
  then show ?thesis by (auto simp: newStream_def)
qed

text \<open>
  C19. The first reason for closing a channel stays: whatever happens after a channel was closed, further calls of close with other
  reasons included, the channel stays closed, its Err reports that first reason, or nil when the caller closed it or
  the peer hung up, and NewStream changes nothing and returns an error, with Canceled when the channel was closed without an
  error and otherwise with the code of that error (when it is not OK, which would be an error that is none).
\<close>

theorem close_reason_final:
  assumes "\<not> ch_finished c" and "chan_run L (ActClose err # as) c = Some c'"
    and "e0 = (case err of None \<Rightarrow> EOF | Some x \<Rightarrow> x)"
  shows "ch_finished c' \<and> channel_Err c' = (if err = Some EOF then None else err)
    \<and> (e0 = EOF \<or> Code (toStatus L e0) \<noteq> OK \<longrightarrow> (\<exists>e. newStream L a sendRes c' = (NewErr e, c')
         \<and> error_code e = Some (if e0 = EOF then Canceled else Code (toStatus L e0))))"
proof -
  have c': "ch_finished c'" "ch_err c' = Some e0" using first_reason [OF assms(1,2)] assms(3) by simp_all
  moreover have "channel_Err c' = (if err = Some EOF then None else err)"
    using c'(2) assms(3) by (auto simp: channel_Err_def split: option.splits gerror.splits)
  ultimately show ?thesis using closed_refuses [OF c'] by blast
qed

theorem close_reason_final_witness:
  "\<exists>c' e. chan_run demo_lib [ActClose None, ActClose (Some (Foreign 1)), ActRecv (Inl CtxCanceled)] demo_open = Some c'
     \<and> channel_Err c' = None \<and> newStream demo_lib demo_call None c' = (NewErr e, c') \<and> error_code e = Some Canceled"
proof -
  have "\<exists>c'. chan_run demo_lib [ActClose None, ActClose (Some (Foreign 1)), ActRecv (Inl CtxCanceled)] demo_open = Some c'"
    by (simp add: demo_open_eval channel_close_def recvLoop_def recvLoop_step_def recv_exit_def)
  then obtain c' where r: "chan_run demo_lib [ActClose None, ActClose (Some (Foreign 1)), ActRecv (Inl CtxCanceled)]
      demo_open = Some c'" by blast
  have "\<not> ch_finished demo_open" by (simp add: demo_open_eval)
  from close_reason_final [OF this r, of EOF demo_call None] r show ?thesis by auto
qed

subsection \<open>A misbehaving server\<close>

lemma chan_inv_stream: "chan_inv c \<Longrightarrow> ch_heap c i = Some st \<Longrightarrow> client_stream_ok (chan_window c) st"
  by (simp add: chan_inv_def streams_ok_def)

text \<open>
  C21. A server that exceeds the flow control window fails only the stream it did so on: the stream is finished with
  ResourceExhausted and leaves the table, every other stream and the channel stay as they are, and the
  receive loop goes on.
\<close>

theorem window_violation_isolated:
  assumes "chan_inv c" and "i \<in> live_streams c" and "ch_heap c i = Some st"
    and "unat (rcv_currentWindow (cs_receiver st)) < charge client_measure (cs_receiver st) f"
    and "f = ServerToClient_ResponseMessage m \<or> f = ServerToClient_MoreResponseData d"
    and "recvLoop_step L (Inr (s2c i f)) c = (b, c')"
  shows "b \<and> outcome c' i = Some (errFlowControlWindowExceeded, None)
    \<and> error_code errFlowControlWindowExceeded = Some ResourceExhausted
    \<and> live_streams c' = live_streams c - {i} \<and> (\<forall>j. j \<noteq> i \<longrightarrow> ch_heap c' j = ch_heap c j)
    \<and> ch_finished c' = ch_finished c"
proof -
  have notdone: "cs_done st = None"
    using assms(1-3) by (auto simp: chan_inv_def streams_ok_def)
  then have opn: "\<not> rcv_closed (cs_receiver st)"
    using chan_inv_stream [OF assms(1,3)] by (auto simp: client_stream_ok_def)
  have st': "put_stream i (st\<lparr>cs_receiver := cs_receiver st\<rparr>) c = c"
    using assms(3) by (cases c) (simp add: put_stream_def map_upd_triv)
  have "acceptServerFrame L (Some f) i c = accept_data f i c"
    using assms(5) by auto
  also have "\<dots> = snd (finishStream (Some errFlowControlWindowExceeded) None i c)"
    using assms(3,4) opn st' by (simp add: accept_data_def accept_def Let_def)
  finally have "recvLoop_step L (Inr (s2c i f)) c = (True, snd (finishStream (Some errFlowControlWindowExceeded) None i c))"
    using assms(2) by (simp add: recvLoop_step_def chan_registry.lookup_live)
  then have c': "b" "c' = snd (finishStream (Some errFlowControlWindowExceeded) None i c)"
    using assms(6) by simp_all
  have "finish_err (Some errFlowControlWindowExceeded) = errFlowControlWindowExceeded"
    by (simp add: finish_err_def errFlowControlWindowExceeded_def Errorf_def)
  then show ?thesis
    using c' notdone assms(3)
    by (auto simp: finishStream_def client_finish_def outcome_def put_stream_def errFlowControlWindowExceeded_def)
qed

theorem window_violation_isolated_witness:
  "\<exists>c'. recvLoop_step demo_lib (Inr (s2c 1 (ServerToClient_MoreResponseData (replicate 70000 0)))) demo_open = (True, c')
     \<and> outcome c' 1 = Some (errFlowControlWindowExceeded, None)"
proof -
  have "\<exists>st. ch_heap demo_open 1 = Some st \<and> unat (rcv_currentWindow (cs_receiver st)) = 65536 \<and> 1 \<in> live_streams demo_open"
    by (simp add: demo_open_eval newReceiver_def demo_opts_def)
  then obtain st where st: "ch_heap demo_open 1 = Some st" "unat (rcv_currentWindow (cs_receiver st)) = 65536"
    "1 \<in> live_streams demo_open" by blast
  obtain b c' where r: "recvLoop_step demo_lib (Inr (s2c 1 (ServerToClient_MoreResponseData (replicate 70000 0)))) demo_open
      = (b, c')" by fastforce
  have "unat (rcv_currentWindow (cs_receiver st))
      < charge client_measure (cs_receiver st) (ServerToClient_MoreResponseData (replicate 70000 0))"
    using st(2) by (simp add: charge_def)
  from window_violation_isolated [OF demo_open_inv st(3,1) this _ r] r show ?thesis by simp
qed

subsection \<open>Reading\<close>

lemma not_first_marks: "(\<forall>c\<in>set cs. \<not> snd (snd c)) \<Longrightarrow> map (snd \<circ> snd) cs = replicate (length cs) False"
  by (induction cs) simp_all

lemma readLocked_genuine:
  assumes "client_stream_ok W st" and "client_readMsgLocked peer None st = (RdRet (x, ok, None), st', us)"
  shows "\<exists>cs rest. rcv_items (cs_receiver st) = map (\<lambda>(x, n, b). server_sendFunc x n b) cs @ rest \<and> cs \<noteq> []
    \<and> x = concat (map fst cs) \<and> map (snd \<circ> snd) cs = True # replicate (length cs - 1) False
    \<and> unat (fst (snd (hd cs))) = length x"
proof -
  obtain r where lp: "client_read_loop peer (cs_done st) (-1) [] (cs_receiver st) = (RdRet (x, ok, None), r, us)"
    using assms(2) by (auto simp: client_readMsgLocked_def Let_def split: if_splits prod.splits read_res.splits option.splits)
  have "cs_done st \<noteq> None \<or> \<not> rcv_closed (cs_receiver st) \<and> \<not> rcv_cancelled (cs_receiver st)"
    using assms(1) by (auto simp: client_stream_ok_def)
  from client_reader.loop_genuine [OF lp this] obtain cs where cs: "rcv_items (cs_receiver st) = resp.frames cs @ rcv_items r"
    "cs \<noteq> []" "x = concat (map fst cs)" "snd (snd (hd cs))" "unat (fst (snd (hd cs))) = length x"
    "\<forall>c\<in>set (tl cs). \<not> snd (snd c)"
    by auto
  then show ?thesis
    by (intro exI [of _ cs] exI [of _ "rcv_items r"], cases cs) (simp_all add: resp.frames_def not_first_marks)
qed

lemma readLocked_err:
  "client_readMsgLocked peer e st = (RdRet (x, ok, Some er), st', us) \<Longrightarrow> cs_readErr st' = Some er"
  by (auto simp: client_readMsgLocked_def Let_def split: if_splits prod.splits read_res.splits option.splits)

lemma readSecond_data:
  "client_readSecond peer d0 e st = (MsgRet (d, ok, None), st', us) \<Longrightarrow> d = d0 \<and> cs_readErr st' = Some EOF"
  by (auto simp: client_readSecond_def Let_def dest: readLocked_err
      split: prod.splits read_res.splits option.splits if_splits)

lemma readMsg_data:
  assumes "client_readMsg peer None st = (MsgRet (d, ok, None), st', us)"
  obtains ok' st1 us' where "client_readMsgLocked peer None st = (RdRet (d, ok', None), st1, us')"
    "cs_isServerStream st \<or> cs_readErr st' = Some EOF"
  using assms
  by (auto simp: client_readMsg_def client_readFirst_def dest: readSecond_data
      split: prod.splits read_res.splits if_splits)

text \<open>
  The client's reader hands out only what the server sent: when a fresh RecvMsg on a stream of a channel
  returns data, the frames at the head of its queue are the chunks of exactly that message, the first one marked and
  announcing its length; and when the method returns a single response, the reader has also seen the end of the
  stream, so that no second response is lost silently.
\<close>

lemma client_reads_genuine:
  assumes "chan_inv c" and "ch_heap c i = Some st" and "stream_RecvMsg None i c = Some (RecvData d, c')"
  shows "\<exists>cs rest st'. rcv_items (cs_receiver st) = map (\<lambda>(x, n, b). server_sendFunc x n b) cs @ rest \<and> cs \<noteq> []
    \<and> d = concat (map fst cs) \<and> map (snd \<circ> snd) cs = True # replicate (length cs - 1) False
    \<and> unat (fst (snd (hd cs))) = length d
    \<and> ch_heap c' i = Some st' \<and> (cs_isServerStream st \<or> cs_readErr st' = Some EOF)"
proof -
  let ?peer = "fst (tunnelRoles (ch_reverse c))"
  obtain res st' us where rd: "client_readMsg ?peer None st = (res, st', us)" by (metis prod_cases3)
  have res: "\<exists>ok. res = MsgRet (d, ok, None)" and c': "ch_heap c' i = Some st'"
    using assms(2,3) rd by (auto simp: stream_RecvMsg_def Let_def put_stream_def
        split: msg_res.splits option.splits if_splits)
  then obtain ok where rd': "client_readMsg ?peer None st = (MsgRet (d, ok, None), st', us)"
    using rd by blast
  obtain ok' st1 us' where "client_readMsgLocked ?peer None st = (RdRet (d, ok', None), st1, us')"
    and e: "cs_isServerStream st \<or> cs_readErr st' = Some EOF"
    by (rule readMsg_data [OF rd'])
  from readLocked_genuine [OF chan_inv_stream [OF assms(1,2)] this(1)] c' e show ?thesis
    by (elim exE conjE) (intro exI conjI, assumption+)
qed

subsection \<open>Boundary cases of new streams\<close>

text \<open>
  C23. The end of the stream IDs: when the last ID was the largest int64, the next stream still is created, with the
  smallest int64 as its ID, and only the one after it is refused. From then on a late frame for any finished
  stream, whose ID is larger than the counter, looks like one for a stream that never existed, and closes the
  whole channel with Internal.
\<close>

theorem stream_ids_exhausted:
  assumes "chan_inv c" and "\<not> ch_finished c" and "ch_settings c \<noteq> None" and "ch_lastStreamID c = 2 ^ 63 - 1"
    and "nc_opts a = []" and "newStream L a None c = (res, c')"
  shows "res = NewOk (- (2 ^ 63)) \<and> newStream L a' r c' = (NewErr errIDsExhausted, c')
    \<and> (S2C_StreamId m \<notin> live_streams c' \<and> 0 < S2C_StreamId m \<longrightarrow>
         (\<exists>e. recvLoop_step L (Inr m) c' = recv_exit (Some e) c' \<and> error_code e = Some Internal))"
proof -
  have wrap: "i64_wrap (ch_lastStreamID c + 1) = - (2 ^ 63)"
    using assms(4) i64_wrap_max by simp
  have "- (2 ^ 63) \<notin> live_streams c"
  proof
    assume "- (2 ^ 63) \<in> live_streams c"
    then obtain st where "ch_heap c (- (2 ^ 63)) = Some st"
      using assms(1) by (auto simp: chan_inv_def streams_ok_def)
    then show False
      using assms(1,4) by (auto simp: chan_inv_def ids_ok_def)
  qed
  then have "res = NewOk (- (2 ^ 63)) \<and> ch_lastStreamID c' = - (2 ^ 63) \<and> ch_streamCreated c' \<and> \<not> ch_finished c'"
    using assms(2-6) wrap by (auto simp: newStream_def allocateStream_def Let_def)
  moreover from this have "newStream L a' r c' = (NewErr errIDsExhausted, c')"
    by (simp add: newStream_def allocateStream_def)
  moreover have "\<exists>e. recvLoop_step L (Inr m) c' = recv_exit (Some e) c' \<and> error_code e = Some Internal"
    if "S2C_StreamId m \<notin> live_streams c'" "0 < S2C_StreamId m" "ch_lastStreamID c' = - (2 ^ 63)"
    using chan_registry.lookup_unknown [OF that(1)] that(2,3) by (auto simp: recvLoop_step_def)
  ultimately show ?thesis by blast
qed

theorem stream_ids_exhausted_witness:
  "\<exists>c'. newStream demo_lib demo_call None (demo_channel\<lparr>ch_lastStreamID := 2 ^ 63 - 1\<rparr>) = (NewOk (- (2 ^ 63)), c')
     \<and> newStream demo_lib demo_call None c' = (NewErr errIDsExhausted, c')
     \<and> (\<exists>e. recvLoop_step demo_lib (Inr (s2c 7 (ServerToClient_WindowUpdate 1))) c' = recv_exit (Some e) c')"
proof -
  let ?c = "demo_channel\<lparr>ch_lastStreamID := 2 ^ 63 - 1\<rparr>"
  obtain res c' where n: "newStream demo_lib demo_call None ?c = (res, c')" by fastforce
  have "chan_inv demo_channel" by (rule chan_inv_reach [OF demo_reach demo_inv])
  then have inv: "chan_inv ?c"
    by (simp add: chan_inv_defs demo_channel_def demo_new_def newTunnelChannel_def live_streams_def)
  have h: "\<not> ch_finished ?c" "ch_settings ?c \<noteq> None" "ch_lastStreamID ?c = 2 ^ 63 - 1" "nc_opts demo_call = []"
    by (simp_all add: demo_channel_def demo_new_def newTunnelChannel_def demo_call_def)
  have "7 \<notin> live_streams c'"
    using n by (auto simp: newStream_def allocateStream_def demo_channel_def demo_new_def newTunnelChannel_def
        demo_call_def Let_def i64_wrap_def live_streams_def)
  then show ?thesis
    using stream_ids_exhausted [OF inv h n, of demo_call None "s2c 7 (ServerToClient_WindowUpdate 1)"] n by auto
qed

text \<open>
  Per-RPC credentials with a context that has no outgoing metadata: \<open>metadata.FromOutgoingContext\<close> returns a nil map then,
  and NewStream panics as soon as the credentials have an entry to append, since appending to a nil map panics (the
  hypothesis on \<open>md_Append\<close>). The stream ID it had taken stays used.
\<close>

lemma nil_metadata_creds_panic:
  assumes "\<not> ch_finished c" and "0 \<le> ch_lastStreamID c" and "i64_wrap (ch_lastStreamID c + 1) \<notin> live_streams c"
    and "nc_md a = None" and "nc_opts a = [PerRPCCredsCallOption creds]" and "\<not> RequireTransportSecurity creds"
    and "\<And>uri. GetRequestMetadata creds uri = Inr ((k, v) # kvs)" and "md_Append L k v None = None"
  shows "fst (newStream L a r c) = NewPanic
    \<and> ch_lastStreamID (snd (newStream L a r c)) = i64_wrap (ch_lastStreamID c + 1)"
  using assms by (simp add: newStream_def allocateStream_def Let_def)

end
