(* ===== verification/Server_Stream.thy ===== *)
theory Server_Stream
  imports Contracts Options Sender Reassembly
begin

text \<open>
  The server's end of one RPC (\<^verbatim>\<open>tunnelServerStream\<close> in \<^verbatim>\<open>tunnel_server.go\<close>): headers and trailers, sending and
  reading messages, and the end of the stream. \<open>ss_pc\<close> and \<open>ss_sendSize\<close> are the call of
  \<^verbatim>\<open>sender.send\<close> in progress, under \<^verbatim>\<open>writeMu\<close>: an operation that needs the mutex is \<open>None\<close> (it waits) while
  there is one. \<open>ss_deadline\<close> is the timeout of the context, if it has one.
\<close>

record tunnelServerStream =
  ss_ctx :: ctx
  ss_deadline :: "i64 option"
  ss_streamID :: i64
  ss_method :: string
  ss_isClientStream :: bool
  ss_isServerStream :: bool
  ss_sender :: sender
  ss_receiver :: "ClientToServerFrame receiver"
  ss_halfClosed :: "gerror option"
  ss_readErr :: "gerror option"
  ss_numSent :: u32
  ss_headers :: MD
  ss_trailers :: MD
  ss_sentHeaders :: bool
  ss_closed :: bool
  ss_pc :: send_pc
  ss_sendSize :: u32

subsection \<open>Headers and trailers\<close>

text \<open>
  What is returned when \<^verbatim>\<open>Send\<close> returns \<open>sendRes\<close>, the stream, and the frame that is sent, if any.
\<close>

definition sendHeadersLocked :: "gerror option \<Rightarrow> tunnelServerStream
    \<Rightarrow> gerror option \<times> tunnelServerStream \<times> ServerToClientFrame list" where
  "sendHeadersLocked sendRes st =
     (sendRes, st\<lparr>ss_sentHeaders := True, ss_headers := None\<rparr>,
      [ServerToClient_ResponseHeaders (toProto (ss_headers st))])"

definition setHeader :: "grpc_lib \<Rightarrow> MD \<Rightarrow> bool \<Rightarrow> gerror option \<Rightarrow> tunnelServerStream
    \<Rightarrow> (gerror option \<times> tunnelServerStream \<times> ServerToClientFrame list) option" where
  "setHeader L md send sendRes st =
     (if \<not> send_idle (ss_pc st) then None
      else if ss_sentHeaders st then Some (Some (ErrorsNew ''already sent headers''), st, [])
      else let st' = (if md \<noteq> None then st\<lparr>ss_headers := md_Join L (ss_headers st) md\<rparr> else st)
           in if send then Some (sendHeadersLocked sendRes st') else Some (None, st', []))"

definition setTrailer :: "grpc_lib \<Rightarrow> MD \<Rightarrow> tunnelServerStream \<Rightarrow> (gerror option \<times> tunnelServerStream) option" where
  "setTrailer L md st =
     (if \<not> send_idle (ss_pc st) then None
      else if ss_closed st then Some (Some (ErrorsNew ''already finished''), st)
      else Some (None, st\<lparr>ss_trailers := md_Join L (ss_trailers st) md\<rparr>))"

subsection \<open>Sending messages\<close>

definition errServerAlreadySent :: "string \<Rightarrow> gerror" where
  "errServerAlreadySent method = Errorf Internal
     ''Already sent response for non-server-stream method %s'' [AStr method]"

text \<open>
  \<^verbatim>\<open>SendMsg\<close> up to its call of \<^verbatim>\<open>sender.send\<close>, which then stands at its beginning; \<open>sendRes\<close> is for
  the headers, if they have yet to be sent. \<open>marshal\<close> is \<^verbatim>\<open>proto.Marshal\<close>.
\<close>

definition server_SendMsg :: "('m \<Rightarrow> gerror + bytes) \<Rightarrow> 'm \<Rightarrow> gerror option \<Rightarrow> tunnelServerStream
    \<Rightarrow> (gerror option \<times> tunnelServerStream \<times> ServerToClientFrame list) option" where
  "server_SendMsg marshal m sendRes st0 =
     (if \<not> send_idle (ss_pc st0) then None
      else case (if ss_sentHeaders st0 then (None, st0, []) else sendHeadersLocked sendRes st0) of
        (Some e, st, fs) \<Rightarrow> Some (Some e, st, fs)
      | (None, st, fs) \<Rightarrow>
          if \<not> ss_isServerStream st \<and> ss_numSent st = 1
          then Some (Some (errServerAlreadySent (ss_method st)), st, fs)
          else let st' = st\<lparr>ss_numSent := ss_numSent st + 1\<rparr>
               in case marshal m of
                    Inl e \<Rightarrow> Some (Some e, st', fs)
                  | Inr b \<Rightarrow>
                      if length b > MaxUint32 then Some (Some (errTooLarge b), st', fs)
                      else Some (None, st'\<lparr>ss_pc := send_begin b, ss_sendSize := u32_of_len b\<rparr>, fs))"

definition server_send_do :: "send_act \<Rightarrow> tunnelServerStream
    \<Rightarrow> (tunnelServerStream \<times> ServerToClientFrame list) option" where
  "server_send_do a st =
     (case sys_do a ((sys_init (ss_sender st))\<lparr>sys_pc := ss_pc st, sys_size := ss_sendSize st,
                       sys_ctx := ss_ctx st\<rparr>) of
        None \<Rightarrow> None
      | Some y \<Rightarrow> Some (st\<lparr>ss_sender := sys_sender y, ss_pc := sys_pc y\<rparr>,
                        map (\<lambda>(d, n, b). server_sendFunc d n b) (sys_out y)))"

subsection \<open>Reading messages\<close>

text \<open>
  Where a call of \<^verbatim>\<open>readMsg\<close> waits for a frame: in its first read, or in the second, eager one, with the
  data of the first. \<^verbatim>\<open>readMsgLocked\<close> is entered afresh (\<open>None\<close>) or resumed inside \<^verbatim>\<open>dequeue\<close> with
  its variables.
\<close>

datatype srv_phase = SrvFirst int bytes | SrvSecond bytes int bytes

datatype srv_res = SrvRet read_ret | SrvBlock srv_phase

definition server_readMsgLocked :: "(int \<times> bytes) option \<Rightarrow> tunnelServerStream
    \<Rightarrow> read_res \<times> tunnelServerStream \<times> u32 list" where
  "server_readMsgLocked entry st =
     (if entry = None \<and> ss_readErr st \<noteq> None then (RdRet ([], True, ss_readErr st), st, [])
      else let (msgLen, b) = (case entry of None \<Rightarrow> (-1, []) | Some e \<Rightarrow> e)
           in case server_read_loop (ss_ctx st) (ss_halfClosed st) (entry = None) msgLen b (ss_receiver st) of
                (res, r, us) \<Rightarrow>
                  let st' = st\<lparr>ss_receiver := r\<rparr>
                  in case res of
                       RdRet (d, ok, Some e) \<Rightarrow> (res, st'\<lparr>ss_readErr := Some e\<rparr>, us)
                     | _ \<Rightarrow> (res, st', us))"

definition errMultipleRequests :: "string \<Rightarrow> gerror" where
  "errMultipleRequests method = Errorf InvalidArgument
     ''Already received request for non-client-stream method %s'' [AStr method]"

definition server_readSecond :: "bytes \<Rightarrow> (int \<times> bytes) option \<Rightarrow> tunnelServerStream
    \<Rightarrow> srv_res \<times> tunnelServerStream \<times> u32 list" where
  "server_readSecond data entry st =
     (case server_readMsgLocked entry st of
        (RdBlock k b, st', us) \<Rightarrow> (SrvBlock (SrvSecond data k b), st', us)
      | (RdRet (_, ok, None), st', us) \<Rightarrow>
          (let err = errMultipleRequests (ss_method st)
           in (SrvRet ([], False, Some err), st'\<lparr>ss_readErr := Some err\<rparr>, us))
      | (RdRet (_, ok, Some e), st', us) \<Rightarrow>
          (if e \<noteq> EOF \<or> \<not> ok then (SrvRet ([], ok, Some e), st', us)
           else (SrvRet (data, True, None), st', us)))"

definition server_readFirst :: "(int \<times> bytes) option \<Rightarrow> tunnelServerStream
    \<Rightarrow> srv_res \<times> tunnelServerStream \<times> u32 list" where
  "server_readFirst entry st =
     (case server_readMsgLocked entry st of
        (RdBlock k b, st', us) \<Rightarrow> (SrvBlock (SrvFirst k b), st', us)
      | (RdRet (d, ok, err), st', us) \<Rightarrow>
          (if err = None \<and> \<not> ss_isClientStream st
           then (case server_readSecond d None st' of (res, st'', us') \<Rightarrow> (res, st'', us @ us'))
           else (SrvRet (d, ok, err), st', us)))"

definition server_readMsg :: "srv_phase option \<Rightarrow> tunnelServerStream
    \<Rightarrow> srv_res \<times> tunnelServerStream \<times> u32 list" where
  "server_readMsg phase st =
     (case phase of
        None \<Rightarrow> server_readFirst None st
      | Some (SrvFirst k b) \<Rightarrow> server_readFirst (Some (k, b)) st
      | Some (SrvSecond d k b) \<Rightarrow> server_readSecond d (Some (k, b)) st)"

text \<open>The receiver's \<^verbatim>\<open>updateWindow\<close> closure: no update is sent once the stream is half-closed.\<close>

definition server_sendUpdates :: "u32 list \<Rightarrow> tunnelServerStream \<Rightarrow> ServerToClientFrame list" where
  "server_sendUpdates us st =
     (if ss_halfClosed st \<noteq> None then [] else map ServerToClient_WindowUpdate us)"

subsection \<open>The end of a stream\<close>

definition halfClose_err :: "gerror option \<Rightarrow> gerror" where
  "halfClose_err err = (case err of None \<Rightarrow> EOF | Some e \<Rightarrow> e)"

definition halfClose :: "gerror option \<Rightarrow> tunnelServerStream \<Rightarrow> tunnelServerStream" where
  "halfClose err st =
     (if ss_halfClosed st \<noteq> None then st
      else st\<lparr>ss_halfClosed := Some (halfClose_err err), ss_receiver := close_receiver (ss_receiver st)\<rparr>)"

text \<open>
  \<^verbatim>\<open>finishStream\<close> cancels the context and half-closes at once (and is removed from the server's table,
  in \<open>Tunnel_Server\<close>), and does the rest under \<^verbatim>\<open>writeMu\<close>. The list is what its goroutine sends, in order.
\<close>

definition finish_begin :: "gerror option \<Rightarrow> tunnelServerStream \<Rightarrow> tunnelServerStream" where
  "finish_begin err st = halfClose err (st\<lparr>ss_ctx := ctx_cancel (ss_ctx st)\<rparr>)"

definition finish_locked :: "grpc_lib \<Rightarrow> gerror option \<Rightarrow> tunnelServerStream
    \<Rightarrow> (tunnelServerStream \<times> ServerToClientFrame list) option" where
  "finish_locked L err st =
     (if \<not> send_idle (ss_pc st) then None
      else if ss_closed st then Some (st, [])
      else let stat = map_option (\<lambda>e. fst (FromError L e)) err;
               sendHeaders = (\<not> ss_sentHeaders st);
               st1 = (if sendHeaders then st\<lparr>ss_sentHeaders := True, ss_headers := None\<rparr> else st)
           in Some (st1\<lparr>ss_closed := True, ss_trailers := None\<rparr>,
                (if sendHeaders then [ServerToClient_ResponseHeaders (toProto (ss_headers st))] else []) @
                [ServerToClient_CloseStream
                   \<lparr>ResponseTrailers = Some (toProto (ss_trailers st)), Status = stat\<rparr>]))"

text \<open>The goroutine of \<^verbatim>\<open>serveStream\<close> that waits for the context to be done.\<close>

definition server_ctx_watch :: "tunnelServerStream \<Rightarrow> tunnelServerStream option" where
  "server_ctx_watch st =
     (if ss_ctx st \<noteq> None then Some (st\<lparr>ss_receiver := cancel_receiver (ss_receiver st)\<rparr>) else None)"

subsection \<open>Invariant\<close>

text \<open>
  The receiver is closed exactly when the stream is half-closed, it is cancelled only when the
  context is done; a finished stream is half-closed, its context is done and its headers are sent.
\<close>

definition server_stream_ok :: "nat \<Rightarrow> tunnelServerStream \<Rightarrow> bool" where
  "server_stream_ok W st \<longleftrightarrow>
     (ss_halfClosed st \<noteq> None \<longleftrightarrow> rcv_closed (ss_receiver st))
     \<and> (rcv_cancelled (ss_receiver st) \<longrightarrow> ss_ctx st \<noteq> None)
     \<and> (ss_closed st \<longrightarrow> ss_halfClosed st \<noteq> None \<and> ss_ctx st \<noteq> None \<and> ss_sentHeaders st \<and> ss_trailers st = None)
     \<and> (ss_sentHeaders st \<longrightarrow> ss_headers st = None)
     \<and> recv_inv server_measure W (ss_receiver st) \<and> sender_wf (ss_sender st)"

lemma server_stream_ok_frame [simp]:
  "server_stream_ok W (st\<lparr>ss_numSent := n\<rparr>) = server_stream_ok W st"
  "server_stream_ok W (st\<lparr>ss_readErr := e\<rparr>) = server_stream_ok W st"
  "server_stream_ok W (st\<lparr>ss_pc := p\<rparr>) = server_stream_ok W st"
  "server_stream_ok W (st\<lparr>ss_sendSize := k\<rparr>) = server_stream_ok W st"
  by (simp_all add: server_stream_ok_def)

lemma sendHeadersLocked_ok:
  "server_stream_ok W st \<Longrightarrow> sendHeadersLocked sr st = (e, st', fs) \<Longrightarrow> server_stream_ok W st'"
  by (auto simp: server_stream_ok_def sendHeadersLocked_def)

lemma setHeader_ok:
  assumes "server_stream_ok W st" and "setHeader L md b sr st = Some (e, st', fs)"
  shows "server_stream_ok W st'"
proof -
  have "server_stream_ok W (st\<lparr>ss_headers := h\<rparr>)" if "\<not> ss_sentHeaders st" for h
    using assms(1) that by (simp add: server_stream_ok_def)
  then show ?thesis
    using assms by (auto simp: setHeader_def Let_def split: if_splits intro: sendHeadersLocked_ok)
qed

lemma setTrailer_ok:
  "server_stream_ok W st \<Longrightarrow> setTrailer L md st = Some (e, st') \<Longrightarrow> server_stream_ok W st'"
  by (auto simp: server_stream_ok_def setTrailer_def split: if_splits)

lemma server_SendMsg_ok:
  "server_stream_ok W st \<Longrightarrow> server_SendMsg ms m sr st = Some (e, st', fs) \<Longrightarrow> server_stream_ok W st'"
  by (auto simp: server_SendMsg_def Let_def split: if_splits option.splits sum.splits prod.splits
      dest: sendHeadersLocked_ok)

lemma server_send_do_ok:
  "server_stream_ok W st \<Longrightarrow> server_send_do a st = Some (st', fs) \<Longrightarrow> server_stream_ok W st'"
  by (auto simp: server_stream_ok_def server_send_do_def sys_init_def split: option.splits dest!: sys_do_wf)

lemma server_accept_ok:
  "server_stream_ok W st \<Longrightarrow> server_stream_ok W (st\<lparr>ss_receiver := snd (accept server_measure f (ss_receiver st))\<rparr>)"
  by (auto simp: server_stream_ok_def recv_inv_accept accept_flags)

lemma server_updateWindow_ok:
  "server_stream_ok W st \<Longrightarrow> server_stream_ok W (st\<lparr>ss_sender := updateWindow w (ss_sender st)\<rparr>)"
  by (auto simp: server_stream_ok_def)

lemma halfClose_ok: "server_stream_ok W st \<Longrightarrow> server_stream_ok W (halfClose e st)"
  by (auto simp: server_stream_ok_def halfClose_def recv_inv_close)

lemma server_stream_ok_ctx:
  "server_stream_ok W st \<Longrightarrow> server_stream_ok W (st\<lparr>ss_ctx := ctx_end e (ss_ctx st)\<rparr>)"
  by (auto simp: server_stream_ok_def)

lemma finish_begin_ok: "server_stream_ok W st \<Longrightarrow> server_stream_ok W (finish_begin e st)"
  by (simp add: finish_begin_def halfClose_ok server_stream_ok_ctx)

lemma finish_begin_fields:
  "ss_ctx (finish_begin e st) \<noteq> None" "ss_halfClosed (finish_begin e st) \<noteq> None"
  "ss_streamID (finish_begin e st) = ss_streamID st" "ss_closed (finish_begin e st) = ss_closed st"
  by (simp_all add: finish_begin_def halfClose_def)

lemma finish_locked_ok:
  "server_stream_ok W st \<Longrightarrow> ss_ctx st \<noteq> None \<Longrightarrow> ss_halfClosed st \<noteq> None \<Longrightarrow>
   finish_locked L e st = Some (st', fs) \<Longrightarrow> server_stream_ok W st' \<and> ss_closed st'"
  by (auto simp: server_stream_ok_def finish_locked_def Let_def split: if_splits)

lemma server_ctx_watch_ok:
  "server_stream_ok W st \<Longrightarrow> server_ctx_watch st = Some st' \<Longrightarrow> server_stream_ok W st'"
  by (auto simp: server_stream_ok_def server_ctx_watch_def recv_inv_cancel split: if_splits)

subsection \<open>Reading keeps the invariant\<close>

definition server_reads_from :: "tunnelServerStream \<Rightarrow> tunnelServerStream \<Rightarrow> bool" where
  "server_reads_from st st' \<longleftrightarrow>
     st'\<lparr>ss_receiver := ss_receiver st, ss_readErr := ss_readErr st\<rparr> = st
     \<and> (\<forall>W. server_stream_ok W st \<longrightarrow> server_stream_ok W st')"

lemma server_reads_from_refl [simp]: "server_reads_from st st"
  by (simp add: server_reads_from_def)

lemma server_reads_from_fields:
  assumes "server_reads_from st st'"
  shows "ss_ctx st' = ss_ctx st" "ss_streamID st' = ss_streamID st" "ss_halfClosed st' = ss_halfClosed st"
    "ss_closed st' = ss_closed st" "ss_pc st' = ss_pc st" "ss_deadline st' = ss_deadline st"
  using assms by (cases st; cases st'; simp add: server_reads_from_def)+

lemma server_reads_from_trans:
  "server_reads_from st st' \<Longrightarrow> server_reads_from st' st'' \<Longrightarrow> server_reads_from st st''"
  by (cases st; cases st'; cases st''; simp add: server_reads_from_def)

lemma server_reads_from_readErr: "server_reads_from st st' \<Longrightarrow> server_reads_from st (st'\<lparr>ss_readErr := e\<rparr>)"
  by (simp add: server_reads_from_def)

lemma server_reads_from_loop:
  assumes "server_read_loop c hc h k b (ss_receiver st) = (res, r, us)"
  shows "server_reads_from st (st\<lparr>ss_receiver := r\<rparr>)"
proof -
  have "rcv_closed r = rcv_closed (ss_receiver st)"
    by (rule server_read_loop_keeps [OF _ assms, of "\<lambda>s. rcv_closed s = rcv_closed (ss_receiver st)"])
       (simp_all add: dequeue_flags)
  moreover have "rcv_cancelled r = rcv_cancelled (ss_receiver st)"
    by (rule server_read_loop_keeps [OF _ assms, of "\<lambda>s. rcv_cancelled s = rcv_cancelled (ss_receiver st)"])
       (simp_all add: dequeue_flags)
  moreover have "recv_inv server_measure W (ss_receiver st) \<Longrightarrow> recv_inv server_measure W r" for W
    by (rule server_read_loop_keeps [OF _ assms, of "recv_inv server_measure W"])
       (simp_all add: recv_inv_dequeue_eq)
  ultimately show ?thesis
    by (auto simp: server_reads_from_def server_stream_ok_def)
qed

lemma server_readMsgLocked_reads:
  "server_readMsgLocked e st = (res, st', us) \<Longrightarrow> server_reads_from st st'"
  by (auto simp: server_readMsgLocked_def Let_def dest!: server_reads_from_loop
      intro: server_reads_from_readErr split: if_splits prod.splits read_res.splits option.splits)

lemma server_readSecond_reads:
  "server_readSecond d e st = (res, st', us) \<Longrightarrow> server_reads_from st st'"
  by (auto simp: server_readSecond_def Let_def intro: server_reads_from_readErr dest!: server_readMsgLocked_reads
      split: prod.splits read_res.splits option.splits if_splits)

lemma server_readFirst_reads:
  "server_readFirst e st = (res, st', us) \<Longrightarrow> server_reads_from st st'"
  by (auto simp: server_readFirst_def split: prod.splits read_res.splits option.splits if_splits
      intro: server_reads_from_trans dest!: server_readMsgLocked_reads server_readSecond_reads)

lemma server_readMsg_reads:
  "server_readMsg ph st = (res, st', us) \<Longrightarrow> server_reads_from st st'"
  by (auto simp: server_readMsg_def split: option.splits srv_phase.splits
      dest!: server_readFirst_reads server_readSecond_reads)

text \<open>\<^verbatim>\<open>halfClosed\<close> keeps the first error.\<close>

interpretation half_latch: latch halfClose ss_halfClosed halfClose_err
  by unfold_locales (simp_all add: halfClose_def)

end
