(* ===== verification/Tunnel_Server.thy ===== *)
theory Tunnel_Server
  imports Server_Stream
begin

text \<open>
  The server's end of a tunnel (\<^verbatim>\<open>tunnelServer\<close> in \<^verbatim>\<open>tunnel_server.go\<close>): the receive loop of \<^verbatim>\<open>serve\<close>, the creation of
  streams with every reason to refuse one, the table of streams, and the goroutine that runs a
  handler. \<open>sv_heap\<close> holds every stream ever created, \<open>sv_streams\<close> the registered ones.

  The last fields are the surroundings: the frames the transport took, the goroutines that have
  frames yet to send (each a list, sent in order), where the receive loop and the handlers stand, and
  the calls of \<^verbatim>\<open>finishStream\<close> that wait for \<^verbatim>\<open>writeMu\<close>. Handlers are user code: what they do arrives as
  actions.
\<close>

subsection \<open>Method names\<close>

text \<open>\<^verbatim>\<open>strings.TrimPrefix(name, "/")\<close> and \<^verbatim>\<open>strings.SplitN(name, "/", 2)\<close>.\<close>

definition trim_slash :: "string \<Rightarrow> string" where
  "trim_slash s = (case s of [] \<Rightarrow> [] | c # cs \<Rightarrow> if c = CHR ''/'' then cs else s)"

definition split_slash :: "string \<Rightarrow> string list" where
  "split_slash s =
     (if CHR ''/'' \<in> set s
      then [takeWhile (\<lambda>c. c \<noteq> CHR ''/'') s, tl (dropWhile (\<lambda>c. c \<noteq> CHR ''/'') s)]
      else [s])"

text \<open>
  A service: its unary methods, and its streaming methods with \<^verbatim>\<open>ClientStreams\<close> and \<^verbatim>\<open>ServerStreams\<close>.
\<close>

record ServiceDesc =
  Methods :: "string list"
  Streams :: "(string \<times> bool \<times> bool) list"

datatype method_desc = MethodDesc string | StreamDesc string bool bool

definition findMethod :: "ServiceDesc \<Rightarrow> string \<Rightarrow> method_desc option" where
  "findMethod sd method =
     (if method \<in> set (Methods sd) then Some (MethodDesc method)
      else map_option (\<lambda>(n, c, s). StreamDesc n c s) (List.find (\<lambda>(n, _). n = method) (Streams sd)))"

subsection \<open>Timeouts\<close>

text \<open>\<^verbatim>\<open>strconv.Atoi\<close>: an optional sign and decimal digits, refused outside of int64.\<close>

definition is_digit :: "char \<Rightarrow> bool" where
  "is_digit c \<longleftrightarrow> 48 \<le> (of_char c :: nat) \<and> (of_char c :: nat) \<le> 57"

definition digits_val :: "string \<Rightarrow> int" where
  "digits_val s = fold (\<lambda>c n. 10 * n + (of_char c - 48)) s 0"

definition Atoi :: "string \<Rightarrow> int option" where
  "Atoi s =
     (let (neg, ds) = (case s of
            [] \<Rightarrow> (False, [])
          | c # cs \<Rightarrow> if c = CHR ''-'' then (True, cs) else if c = CHR ''+'' then (False, cs)
                      else (False, s));
          n = (if neg then - digits_val ds else digits_val ds)
      in if ds = [] \<or> \<not> list_all is_digit ds then None
         else if n < - (2 ^ 63) \<or> 2 ^ 63 \<le> n then None
         else Some n)"

text \<open>A \<^verbatim>\<open>time.Duration\<close> in nanoseconds; its product wraps.\<close>

definition timeout_unit :: "char \<Rightarrow> int option" where
  "timeout_unit c =
     (if c = CHR ''H'' then Some 3600000000000
      else if c = CHR ''M'' then Some 60000000000
      else if c = CHR ''S'' then Some 1000000000
      else if c = CHR ''m'' then Some 1000000
      else if c = CHR ''u'' then Some 1000
      else if c = CHR ''n'' then Some 1
      else None)"

definition timeoutFromHeaders :: "grpc_lib \<Rightarrow> MD \<Rightarrow> i64 option" where
  "timeoutFromHeaders L headers =
     (let vals = md_Get L headers ''grpc-timeout''
      in if vals = [] then None
         else let timeoutStr = last vals
              in if length timeoutStr < 2 then None
                 else case Atoi (butlast timeoutStr) of
                        None \<Rightarrow> None
                      | Some timeout \<Rightarrow>
                          map_option (\<lambda>u. i64_wrap (timeout * u)) (timeout_unit (last timeoutStr)))"

subsection \<open>State\<close>

text \<open>
  The receive loop: at \<^verbatim>\<open>Recv\<close>; in a call of \<^verbatim>\<open>finishStream\<close> that waits for \<^verbatim>\<open>writeMu\<close>; or ended, with what
  \<^verbatim>\<open>serve\<close> returned. A handler: running; a unary one whose response is being sent; in the deferred
  \<^verbatim>\<open>finishStream\<close>; or gone.
\<close>

datatype srv_loop = SrvRunning | SrvFinishing i64 "gerror option" | SrvReturned "gerror option"

datatype serve_pc = Serving method_desc | ServeSending | ServeFinishing "gerror option" | ServeDone

record tunnelServer =
  sv_clientAcceptsSettings :: bool
  sv_reverse :: bool
  sv_tunnelOpts :: tunnelOpts
  sv_streams :: "i64 set"
  sv_lastSeen :: i64
  sv_ctx :: ctx
  sv_heap :: "i64 \<rightharpoonup> tunnelServerStream"
  sv_sent :: "ServerToClient list"
  sv_jobs :: "ServerToClient list list"
  sv_loop :: srv_loop
  sv_serving :: "i64 \<rightharpoonup> serve_pc"
  sv_waiting :: "(i64 \<times> gerror option) list"

definition settings_frame :: "tunnelOpts \<Rightarrow> ServerToClient" where
  "settings_frame opts = s2c (-1) (ServerToClient_Settings
     \<lparr>SupportedProtocolRevisions = supportedRevisions,
      Settings_InitialWindowSize = initialWindowSize opts\<rparr>)"

text \<open>\<^verbatim>\<open>serveTunnel\<close> and \<^verbatim>\<open>serve\<close> up to the loop.\<close>

definition serveTunnel :: "ctx \<Rightarrow> bool \<Rightarrow> bool \<Rightarrow> tunnelOpts \<Rightarrow> tunnelServer" where
  "serveTunnel streamCtx clientAcceptsSettings reverse opts =
     \<lparr>sv_clientAcceptsSettings = clientAcceptsSettings, sv_reverse = reverse, sv_tunnelOpts = opts,
      sv_streams = {}, sv_lastSeen = -1, sv_ctx = streamCtx, sv_heap = Map.empty, sv_sent = [],
      sv_jobs = (if clientAcceptsSettings then [[settings_frame opts]] else []),
      sv_loop = SrvRunning, sv_serving = Map.empty, sv_waiting = []\<rparr>"

subsection \<open>Creating streams\<close>

definition errExists :: "i64 \<Rightarrow> gerror" where
  "errExists streamID = Errorf Internal
     ''protocol error: cannot create stream ID %d: already exists'' [AInt streamID]"

definition errUsed :: "i64 \<Rightarrow> gerror" where
  "errUsed streamID = Errorf Internal
     ''protocol error: cannot create stream ID %d: that ID has already been used'' [AInt streamID]"

definition errShuttingDown :: "string \<Rightarrow> gerror" where
  "errShuttingDown self = Errorf Unavailable ''%s is shutting down'' [AStr self]"

definition errRevisionZero :: "bool \<Rightarrow> string \<Rightarrow> string \<Rightarrow> gerror" where
  "errRevisionZero accepts self peer = Errorf FailedPrecondition
     (if accepts
      then ''%s does not support protocol revision %d anymore; %s must not disable flow control''
      else ''%s does not support protocol revision %d anymore; upgrade %s to v0.3 or later'')
     [AStr self, AInt REVISION_ZERO, AStr peer]"

definition errRevision :: "string \<Rightarrow> ProtocolRevision \<Rightarrow> gerror" where
  "errRevision self rv = Errorf FailedPrecondition
     ''%s does not support protocol revision %d'' [AStr self, AInt rv]"

definition errServerWindow :: "string \<Rightarrow> u32 \<Rightarrow> u32 \<Rightarrow> gerror" where
  "errServerWindow peer got least = Errorf Internal
     ''protocol error: %s sent invalid initial window size of %d; must be at least %d''
     [AStr peer, AInt (uint got), AInt (uint least)]"

definition errMethodName :: "string \<Rightarrow> gerror" where
  "errMethodName n = Errorf InvalidArgument ''%s is not a well-formed method name'' [AStr n]"

definition errNotImplemented :: "string \<Rightarrow> gerror" where
  "errNotImplemented n = Errorf Unimplemented ''%s not implemented'' [AStr n]"

text \<open>The context of a stream: a child of the tunnel's, with the timeout of the headers.\<close>

definition stream_ctx :: "ctx \<Rightarrow> i64 option \<Rightarrow> ctx" where
  "stream_ctx c timeout =
     (case c of
        Some e \<Rightarrow> Some e
      | None \<Rightarrow> (case timeout of
                   Some d \<Rightarrow> if d \<le> 0 then Some CtxDeadlineExceeded else None
                 | None \<Rightarrow> None))"

definition newServerStream :: "ctx \<Rightarrow> i64 option \<Rightarrow> i64 \<Rightarrow> string \<Rightarrow> method_desc \<Rightarrow> sender
    \<Rightarrow> ClientToServerFrame receiver \<Rightarrow> tunnelServerStream" where
  "newServerStream c deadline streamID method md s r =
     \<lparr>ss_ctx = c, ss_deadline = deadline, ss_streamID = streamID, ss_method = method,
      ss_isClientStream = (case md of StreamDesc n cl sv \<Rightarrow> cl | MethodDesc n \<Rightarrow> False),
      ss_isServerStream = (case md of StreamDesc n cl sv \<Rightarrow> sv | MethodDesc n \<Rightarrow> False),
      ss_sender = s, ss_receiver = r, ss_halfClosed = None, ss_readErr = None, ss_numSent = 0,
      ss_headers = None, ss_trailers = None, ss_sentHeaders = False, ss_closed = False,
      ss_pc = Idle, ss_sendSize = 0\<rparr>"

text \<open>
  The checks of \<^verbatim>\<open>createStream\<close> that refuse this stream only, in the order of the source: the error, or
  the method name and the method. \<open>svcs\<close> is the registered services' \<^verbatim>\<open>QueryService\<close>.
\<close>

definition check_stream :: "(string \<rightharpoonup> ServiceDesc) \<Rightarrow> bool \<Rightarrow> tunnelServer \<Rightarrow> NewStream
    \<Rightarrow> gerror + string \<times> method_desc" where
  "check_stream svcs closing s f =
     (case tunnelRoles (sv_reverse s) of (self, peer) \<Rightarrow>
        let rv = NewStream_ProtocolRevision f;
            name = trim_slash (MethodName f);
            parts = split_slash name
        in if closing then Inl (errShuttingDown self)
           else if rv = REVISION_ZERO then Inl (errRevisionZero (sv_clientAcceptsSettings s) self peer)
           else if rv \<notin> set supportedRevisions then Inl (errRevision self rv)
           else if NewStream_InitialWindowSize f < minWindowSize rv
           then Inl (errServerWindow peer (NewStream_InitialWindowSize f) (minWindowSize rv))
           else if length parts \<noteq> 2 then Inl (errMethodName name)
           else case (case svcs (parts ! 0) of None \<Rightarrow> None | Some sd \<Rightarrow> findMethod sd (parts ! 1)) of
                  None \<Rightarrow> Inl (errNotImplemented name)
                | Some md \<Rightarrow> Inr (name, md))"

definition createStream :: "grpc_lib \<Rightarrow> (string \<rightharpoonup> ServiceDesc) \<Rightarrow> bool \<Rightarrow> i64 \<Rightarrow> NewStream \<Rightarrow> tunnelServer
    \<Rightarrow> (bool \<times> gerror option) \<times> tunnelServer" where
  "createStream L svcs closing streamID f s =
     (if streamID \<in> sv_streams s then ((False, Some (errExists streamID)), s)
      else if streamID \<le> sv_lastSeen s then ((False, Some (errUsed streamID)), s)
      else let s1 = s\<lparr>sv_lastSeen := streamID\<rparr>
           in case check_stream svcs closing s f of
                Inl e \<Rightarrow> ((True, Some e), s1)
              | Inr (name, md) \<Rightarrow>
                  (let timeout = timeoutFromHeaders L (fromProto (RequestHeaders f));
                       msgOverhead = messageOverhead (NewStream_ProtocolRevision f);
                       opt = sv_tunnelOpts s;
                       str = newServerStream (stream_ctx (sv_ctx s) timeout) timeout streamID name md
                         (newSender (NewStream_InitialWindowSize f) (maxChunkSize opt) msgOverhead)
                         (newReceiver (initialWindowSize opt) (minWindowUpdateSize opt) msgOverhead)
                   in ((True, None),
                       s1\<lparr>sv_heap := (sv_heap s)(streamID \<mapsto> str),
                          sv_streams := insert streamID (sv_streams s),
                          sv_serving := (sv_serving s)(streamID \<mapsto> Serving md)\<rparr>)))"

definition errServerNeverCreated :: "i64 \<Rightarrow> gerror" where
  "errServerNeverCreated streamID = Errorf Internal
     ''protocol error: received frame for stream ID %d: stream never created'' [AInt streamID]"

definition server_getStream :: "i64 \<Rightarrow> tunnelServer \<Rightarrow> gerror + i64 option" where
  "server_getStream streamID s =
     (if streamID \<in> sv_streams s then Inr (Some streamID)
      else if streamID \<le> sv_lastSeen s then Inr None
      else Inl (errServerNeverCreated streamID))"

definition server_removeStream :: "i64 \<Rightarrow> tunnelServer \<Rightarrow> tunnelServer" where
  "server_removeStream streamID s = s\<lparr>sv_streams := sv_streams s - {streamID}\<rparr>"

definition put_server :: "i64 \<Rightarrow> tunnelServerStream \<Rightarrow> tunnelServer \<Rightarrow> tunnelServer" where
  "put_server i st s = s\<lparr>sv_heap := (sv_heap s)(i \<mapsto> st)\<rparr>"

subsection \<open>Finishing a stream\<close>

text \<open>\<^verbatim>\<open>finishStream\<close> up to \<^verbatim>\<open>writeMu\<close>, and its locked part, which spawns the goroutine that sends.\<close>

definition srv_finish_begin :: "gerror option \<Rightarrow> i64 \<Rightarrow> tunnelServer \<Rightarrow> tunnelServer" where
  "srv_finish_begin err i s =
     (case sv_heap s i of
        None \<Rightarrow> s
      | Some st \<Rightarrow> server_removeStream i (put_server i (finish_begin err st) s))"

definition srv_finish_locked :: "grpc_lib \<Rightarrow> gerror option \<Rightarrow> i64 \<Rightarrow> tunnelServer \<Rightarrow> tunnelServer option" where
  "srv_finish_locked L err i s =
     (case sv_heap s i of
        None \<Rightarrow> None
      | Some st \<Rightarrow>
          (case finish_locked L err st of
             None \<Rightarrow> None
           | Some (st', fs) \<Rightarrow>
               Some ((put_server i st' s)
                 \<lparr>sv_jobs := sv_jobs s @ (if fs = [] then [] else [map (s2c i) fs])\<rparr>)))"

subsection \<open>The receive loop\<close>

definition errServerUnrecognizedFrame :: gerror where
  "errServerUnrecognizedFrame = Errorf Internal ''protocol error: unrecognized frame type'' []"

text \<open>
  \<^verbatim>\<open>acceptClientFrame\<close>; a call of \<^verbatim>\<open>finishStream\<close> leaves the loop waiting for its locked part.
\<close>

definition loop_finish :: "gerror option \<Rightarrow> i64 \<Rightarrow> tunnelServer \<Rightarrow> tunnelServer" where
  "loop_finish err i s = (srv_finish_begin err i s)\<lparr>sv_loop := SrvFinishing i err\<rparr>"

definition server_accept_data :: "ClientToServerFrame \<Rightarrow> i64 \<Rightarrow> tunnelServerStream \<Rightarrow> tunnelServer \<Rightarrow> tunnelServer" where
  "server_accept_data f i st s =
     (case accept server_measure f (ss_receiver st) of (err, r) \<Rightarrow>
        let s' = put_server i (st\<lparr>ss_receiver := r\<rparr>) s
        in case err of None \<Rightarrow> s' | Some e \<Rightarrow> loop_finish (Some e) i s')"

definition acceptClientFrame :: "ClientToServerFrame option \<Rightarrow> i64 \<Rightarrow> tunnelServer \<Rightarrow> tunnelServer" where
  "acceptClientFrame f i s =
     (case sv_heap s i of
        None \<Rightarrow> s
      | Some st \<Rightarrow>
          (case f of
             Some ClientToServer_HalfClose \<Rightarrow> put_server i (halfClose (Some EOF) st) s
           | Some ClientToServer_Cancel \<Rightarrow> loop_finish (Some CtxCanceled) i s
           | Some (ClientToServer_WindowUpdate w) \<Rightarrow>
               put_server i (st\<lparr>ss_sender := updateWindow w (ss_sender st)\<rparr>) s
           | None \<Rightarrow> loop_finish (Some errServerUnrecognizedFrame) i s
           | Some g \<Rightarrow> server_accept_data g i st s))"

text \<open>Returning from \<^verbatim>\<open>serve\<close> runs its deferred \<^verbatim>\<open>cancel\<close>: every stream's context is a child.\<close>

definition serve_return :: "gerror option \<Rightarrow> tunnelServer \<Rightarrow> tunnelServer" where
  "serve_return err s =
     s\<lparr>sv_loop := SrvReturned err, sv_ctx := ctx_cancel (sv_ctx s),
       sv_heap := (\<lambda>i. map_option (\<lambda>st. st\<lparr>ss_ctx := ctx_cancel (ss_ctx st)\<rparr>) (sv_heap s i))\<rparr>"

definition serve_step :: "grpc_lib \<Rightarrow> (string \<rightharpoonup> ServiceDesc) \<Rightarrow> bool \<Rightarrow> gerror + ClientToServer \<Rightarrow> tunnelServer
    \<Rightarrow> tunnelServer option" where
  "serve_step L svcs closing inp s =
     (if sv_loop s \<noteq> SrvRunning then None
      else case inp of
        Inl err \<Rightarrow> Some (serve_return (if err = EOF then None else Some err) s)
      | Inr m \<Rightarrow>
          (case C2S_Frame m of
             Some (ClientToServer_NewStream f) \<Rightarrow>
               (case createStream L svcs closing (C2S_StreamId m) f s of
                  ((ok, None), s') \<Rightarrow> Some s'
                | ((ok, Some e), s') \<Rightarrow>
                    if \<not> ok then Some (serve_return (Some e) s')
                    else Some (s'\<lparr>sv_jobs := sv_jobs s' @ [[s2c (C2S_StreamId m) (ServerToClient_CloseStream
                           \<lparr>ResponseTrailers = None, Status = Some (fst (FromError L e))\<rparr>)]]\<rparr>))
           | f \<Rightarrow>
               (case server_getStream (C2S_StreamId m) s of
                  Inl err \<Rightarrow> Some (serve_return (Some err) s)
                | Inr None \<Rightarrow> Some s
                | Inr (Some i) \<Rightarrow> Some (acceptClientFrame f i s))))"

text \<open>The loop resumes when the locked part of its \<^verbatim>\<open>finishStream\<close> has run.\<close>

definition serve_resume :: "grpc_lib \<Rightarrow> tunnelServer \<Rightarrow> tunnelServer option" where
  "serve_resume L s =
     (case sv_loop s of
        SrvFinishing i err \<Rightarrow> map_option (\<lambda>s'. s'\<lparr>sv_loop := SrvRunning\<rparr>) (srv_finish_locked L err i s)
      | _ \<Rightarrow> None)"

subsection \<open>Handlers\<close>

text \<open>
  What the code of a handler may end with: a panic, an error, for a unary method the response, and
  for a streaming method a nil error.
\<close>

datatype 'm handler_end = HPanic | HErr gerror | HResp 'm | HNil

definition errPanic :: gerror where
  "errPanic = Errorf Internal ''panic'' []"

definition serve_defer :: "gerror option \<Rightarrow> i64 \<Rightarrow> tunnelServer \<Rightarrow> tunnelServer" where
  "serve_defer err i s =
     (srv_finish_begin err i s)\<lparr>sv_serving := (sv_serving s)(i \<mapsto> ServeFinishing err)\<rparr>"

definition server_stream_send :: "('m \<Rightarrow> gerror + bytes) \<Rightarrow> 'm \<Rightarrow> gerror option \<Rightarrow> i64 \<Rightarrow> tunnelServer
    \<Rightarrow> (gerror option \<times> tunnelServer) option" where
  "server_stream_send marshal m sendRes i s =
     (case sv_heap s i of
        None \<Rightarrow> None
      | Some st \<Rightarrow>
          map_option (\<lambda>(err, st', fs). (err, (put_server i st' s)
              \<lparr>sv_sent := sv_sent s @ (if sendRes = None then map (s2c i) fs else [])\<rparr>))
            (server_SendMsg marshal m sendRes st))"

text \<open>\<^verbatim>\<open>serveStream\<close> after the handler; the response of a unary method is sent first.\<close>

definition serve_end :: "('m \<Rightarrow> gerror + bytes) \<Rightarrow> 'm handler_end \<Rightarrow> gerror option \<Rightarrow> i64 \<Rightarrow> tunnelServer
    \<Rightarrow> tunnelServer option" where
  "serve_end marshal h sendRes i s =
     (case sv_serving s i of
        Some (Serving md) \<Rightarrow>
          (case h of
             HPanic \<Rightarrow> Some (serve_defer (Some errPanic) i s)
           | HErr e \<Rightarrow> Some (serve_defer (Some e) i s)
           | HNil \<Rightarrow> (case md of
                        MethodDesc n \<Rightarrow> None
                      | StreamDesc n cl sv \<Rightarrow> Some (serve_defer None i s))
           | HResp m \<Rightarrow>
               (case md of
                  StreamDesc n cl sv \<Rightarrow> None
                | MethodDesc n \<Rightarrow>
                    (case server_stream_send marshal m sendRes i s of
                       None \<Rightarrow> None
                     | Some (Some e, s') \<Rightarrow> Some (serve_defer (Some e) i s')
                     | Some (None, s') \<Rightarrow> Some (s'\<lparr>sv_serving := (sv_serving s')(i \<mapsto> ServeSending)\<rparr>))))
      | _ \<Rightarrow> None)"

text \<open>The unary response has been sent, or failed to be.\<close>

definition serve_sent :: "i64 \<Rightarrow> tunnelServer \<Rightarrow> tunnelServer option" where
  "serve_sent i s =
     (case (sv_serving s i, map_option ss_pc (sv_heap s i)) of
        (Some ServeSending, Some (Returned r)) \<Rightarrow> Some (serve_defer r i s)
      | _ \<Rightarrow> None)"

definition serve_finish :: "grpc_lib \<Rightarrow> i64 \<Rightarrow> tunnelServer \<Rightarrow> tunnelServer option" where
  "serve_finish L i s =
     (case sv_serving s i of
        Some (ServeFinishing err) \<Rightarrow>
          map_option (\<lambda>s'. s'\<lparr>sv_serving := (sv_serving s)(i \<mapsto> ServeDone)\<rparr>) (srv_finish_locked L err i s)
      | _ \<Rightarrow> None)"

subsection \<open>What a handler does with its stream\<close>

definition server_stream_send_do :: "send_act \<Rightarrow> i64 \<Rightarrow> tunnelServer \<Rightarrow> tunnelServer option" where
  "server_stream_send_do a i s =
     (case sv_heap s i of
        None \<Rightarrow> None
      | Some st \<Rightarrow>
          if \<not> send_own a then None
          else map_option (\<lambda>(st', fs). (put_server i st' s)\<lparr>sv_sent := sv_sent s @ map (s2c i) fs\<rparr>)
                 (server_send_do a st))"

definition server_stream_setHeader :: "grpc_lib \<Rightarrow> MD \<Rightarrow> bool \<Rightarrow> gerror option \<Rightarrow> i64 \<Rightarrow> tunnelServer
    \<Rightarrow> (gerror option \<times> tunnelServer) option" where
  "server_stream_setHeader L md send sendRes i s =
     (case sv_heap s i of
        None \<Rightarrow> None
      | Some st \<Rightarrow>
          map_option (\<lambda>(err, st', fs). (err, (put_server i st' s)
              \<lparr>sv_sent := sv_sent s @ (if sendRes = None then map (s2c i) fs else [])\<rparr>))
            (setHeader L md send sendRes st))"

definition server_stream_setTrailer :: "grpc_lib \<Rightarrow> MD \<Rightarrow> i64 \<Rightarrow> tunnelServer
    \<Rightarrow> (gerror option \<times> tunnelServer) option" where
  "server_stream_setTrailer L md i s =
     (case sv_heap s i of
        None \<Rightarrow> None
      | Some st \<Rightarrow> map_option (\<lambda>(err, st'). (err, put_server i st' s)) (setTrailer L md st))"

text \<open>
  \<^verbatim>\<open>RecvMsg\<close>, entered or resumed: it waits, returns an error, or hands the data to
  \<^verbatim>\<open>proto.Unmarshal\<close>. An error the stream does not know yet finishes it first.
\<close>

datatype srv_recv = SrvWaits srv_phase | SrvErr gerror | SrvData bytes

definition server_stream_RecvMsg :: "srv_phase option \<Rightarrow> i64 \<Rightarrow> tunnelServer
    \<Rightarrow> (srv_recv \<times> tunnelServer) option" where
  "server_stream_RecvMsg ph i s =
     (case sv_heap s i of
        None \<Rightarrow> None
      | Some st \<Rightarrow>
          (case server_readMsg ph st of (res, st', us) \<Rightarrow>
             let s1 = (put_server i st' s)
                        \<lparr>sv_sent := sv_sent s @ map (s2c i) (server_sendUpdates us st)\<rparr>
             in case res of
                  SrvBlock ph' \<Rightarrow> Some (SrvWaits ph', s1)
                | SrvRet (d, ok, Some e) \<Rightarrow>
                    Some (SrvErr e,
                      if ok then s1
                      else (srv_finish_begin (Some e) i s1)\<lparr>sv_waiting := sv_waiting s @ [(i, Some e)]\<rparr>)
                | SrvRet (d, ok, None) \<Rightarrow> Some (SrvData d, s1)))"

definition recv_finish :: "grpc_lib \<Rightarrow> tunnelServer \<Rightarrow> tunnelServer option" where
  "recv_finish L s =
     (case sv_waiting s of
        [] \<Rightarrow> None
      | (i, err) # ws \<Rightarrow> map_option (\<lambda>s'. s'\<lparr>sv_waiting := ws\<rparr>) (srv_finish_locked L err i s))"

definition server_ctx_ends :: "i64 \<Rightarrow> tunnelServer \<Rightarrow> tunnelServer option" where
  "server_ctx_ends i s =
     (case sv_heap s i of
        None \<Rightarrow> None
      | Some st \<Rightarrow>
          if ss_deadline st = None then None
          else Some (put_server i (st\<lparr>ss_ctx := ctx_end CtxDeadlineExceeded (ss_ctx st)\<rparr>) s))"

definition tunnel_ctx_ends :: "gerror \<Rightarrow> tunnelServer \<Rightarrow> tunnelServer" where
  "tunnel_ctx_ends e s =
     s\<lparr>sv_ctx := ctx_end e (sv_ctx s),
       sv_heap := (\<lambda>i. map_option (\<lambda>st. st\<lparr>ss_ctx := ctx_end e (ss_ctx st)\<rparr>) (sv_heap s i))\<rparr>"

definition server_watch :: "i64 \<Rightarrow> tunnelServer \<Rightarrow> tunnelServer option" where
  "server_watch i s =
     (case sv_heap s i of
        None \<Rightarrow> None
      | Some st \<Rightarrow> map_option (\<lambda>st'. put_server i st' s) (server_ctx_watch st))"

text \<open>A goroutine sends its next frame; the result of \<^verbatim>\<open>Send\<close> is not looked at.\<close>

definition server_run_job :: "nat \<Rightarrow> gerror option \<Rightarrow> tunnelServer \<Rightarrow> tunnelServer option" where
  "server_run_job k sendRes s =
     (if k < length (sv_jobs s)
      then (case sv_jobs s ! k of
              [] \<Rightarrow> None
            | f # fs \<Rightarrow> Some (s\<lparr>sv_jobs := (sv_jobs s)[k := fs],
                              sv_sent := sv_sent s @ (if sendRes = None then [f] else [])\<rparr>))
      else None)"

subsection \<open>All that may happen to a server\<close>

datatype srv_act =
    SRecv bool "gerror + ClientToServer"
  | SResume
  | STunnelCtx gerror
  | SDeadline i64
  | SWatch i64
  | SSetHeader i64 MD bool "gerror option"
  | SSetTrailer i64 MD
  | SSendMsg i64 "gerror + bytes" "gerror option"
  | SSend i64 send_act
  | SRecvMsg i64 "srv_phase option"
  | SRecvFinish
  | SHandlerEnd i64 "(gerror + bytes) handler_end" "gerror option"
  | SSent i64
  | SFinish i64
  | SJob nat "gerror option"

fun srv_do :: "grpc_lib \<Rightarrow> (string \<rightharpoonup> ServiceDesc) \<Rightarrow> srv_act \<Rightarrow> tunnelServer \<Rightarrow> tunnelServer option" where
  "srv_do L svcs (SRecv closing inp) s = serve_step L svcs closing inp s"
| "srv_do L svcs SResume s = serve_resume L s"
| "srv_do L svcs (STunnelCtx e) s = Some (tunnel_ctx_ends e s)"
| "srv_do L svcs (SDeadline i) s = server_ctx_ends i s"
| "srv_do L svcs (SWatch i) s = server_watch i s"
| "srv_do L svcs (SSetHeader i md b r) s = map_option snd (server_stream_setHeader L md b r i s)"
| "srv_do L svcs (SSetTrailer i md) s = map_option snd (server_stream_setTrailer L md i s)"
| "srv_do L svcs (SSendMsg i b r) s = map_option snd (server_stream_send (\<lambda>x. x) b r i s)"
| "srv_do L svcs (SSend i a) s = server_stream_send_do a i s"
| "srv_do L svcs (SRecvMsg i ph) s = map_option snd (server_stream_RecvMsg ph i s)"
| "srv_do L svcs SRecvFinish s = recv_finish L s"
| "srv_do L svcs (SHandlerEnd i h r) s = serve_end (\<lambda>x. x) h r i s"
| "srv_do L svcs (SSent i) s = serve_sent i s"
| "srv_do L svcs (SFinish i) s = serve_finish L i s"
| "srv_do L svcs (SJob k r) s = server_run_job k r s"

fun srv_run :: "grpc_lib \<Rightarrow> (string \<rightharpoonup> ServiceDesc) \<Rightarrow> srv_act list \<Rightarrow> tunnelServer \<Rightarrow> tunnelServer option" where
  "srv_run L svcs [] s = Some s"
| "srv_run L svcs (a # as) s = (case srv_do L svcs a s of None \<Rightarrow> None | Some s' \<Rightarrow> srv_run L svcs as s')"

inductive srv_reach :: "grpc_lib \<Rightarrow> (string \<rightharpoonup> ServiceDesc) \<Rightarrow> tunnelServer \<Rightarrow> tunnelServer \<Rightarrow> bool"
  for L svcs s0 where
  srv_start: "srv_reach L svcs s0 s0"
| srv_step: "srv_reach L svcs s0 s \<Longrightarrow> srv_do L svcs a s = Some s' \<Longrightarrow> srv_reach L svcs s0 s'"

end
