(* ===== verification/Server_Invariant.thy ===== *)
theory Server_Invariant
  imports Tunnel_Server
begin

text \<open>
  The invariant of the server's end of a tunnel and its preservation by every operation of
  \<open>Tunnel_Server\<close>, operation by operation and then for every sequence of them.
\<close>

subsection \<open>Invariant\<close>

text \<open>A stream whose \<^verbatim>\<open>finishStream\<close> has begun.\<close>

definition ended :: "tunnelServerStream \<Rightarrow> bool" where
  "ended st \<longleftrightarrow> ss_ctx st \<noteq> None \<and> ss_halfClosed st \<noteq> None"

abbreviation srv_window :: "tunnelServer \<Rightarrow> nat" where
  "srv_window s \<equiv> unat (initialWindowSize (sv_tunnelOpts s))"

definition srv_streams_ok :: "tunnelServer \<Rightarrow> bool" where
  "srv_streams_ok s \<longleftrightarrow>
     (\<forall>i st. sv_heap s i = Some st \<longrightarrow> ss_streamID st = i \<and> server_stream_ok (srv_window s) st
        \<and> i \<le> sv_lastSeen s \<and> (i \<notin> sv_streams s \<longrightarrow> ended st) \<and> (sv_ctx s \<noteq> None \<longrightarrow> ss_ctx st \<noteq> None))
     \<and> (\<forall>i\<in>sv_streams s. \<exists>st. sv_heap s i = Some st \<and> \<not> ss_closed st)"

definition serving_ok :: "tunnelServer \<Rightarrow> bool" where
  "serving_ok s \<longleftrightarrow> (\<forall>i. (\<exists>p. sv_serving s i = Some p) \<longleftrightarrow> (\<exists>st. sv_heap s i = Some st))
     \<and> (\<forall>i. sv_serving s i = Some ServeDone \<longrightarrow> (\<exists>st. sv_heap s i = Some st \<and> ss_closed st))"

text \<open>Every pending \<^verbatim>\<open>finishStream\<close> is past its first part.\<close>

definition pending :: "tunnelServer \<Rightarrow> i64 \<Rightarrow> gerror option \<Rightarrow> bool" where
  "pending s i err \<longleftrightarrow> sv_loop s = SrvFinishing i err \<or> (i, err) \<in> set (sv_waiting s)
     \<or> sv_serving s i = Some (ServeFinishing err)"

definition pending_ok :: "tunnelServer \<Rightarrow> bool" where
  "pending_ok s \<longleftrightarrow> (\<forall>i err. pending s i err \<longrightarrow> i \<notin> sv_streams s \<and> sv_heap s i \<noteq> None)"

text \<open>The \<^verbatim>\<open>CloseStream\<close> frames of a stream, sent or in a goroutine that will send them.\<close>

fun is_close :: "ServerToClientFrame option \<Rightarrow> bool" where
  "is_close (Some (ServerToClient_CloseStream cl)) = True"
| "is_close _ = False"

definition close_frames :: "i64 \<Rightarrow> ServerToClient list \<Rightarrow> nat" where
  "close_frames i fs = length (filter (\<lambda>m. S2C_StreamId m = i \<and> is_close (S2C_Frame m)) fs)"

definition closes :: "tunnelServer \<Rightarrow> i64 \<Rightarrow> nat" where
  "closes s i = close_frames i (concat (sv_jobs s)) + close_frames i (sv_sent s)"

definition closes_ok :: "tunnelServer \<Rightarrow> bool" where
  "closes_ok s \<longleftrightarrow> (\<forall>i. closes s i \<le> 1
     \<and> (sv_lastSeen s < i \<or> (\<exists>st. sv_heap s i = Some st \<and> \<not> ss_closed st) \<longrightarrow> closes s i = 0))"

definition srv_inv :: "tunnelServer \<Rightarrow> bool" where
  "srv_inv s \<longleftrightarrow> opts_wf (sv_tunnelOpts s) \<and> srv_streams_ok s \<and> serving_ok s \<and> pending_ok s \<and> closes_ok s"

lemma close_frames_append [simp]: "close_frames i (fs @ gs) = close_frames i fs + close_frames i gs"
  by (simp add: close_frames_def)

lemma close_frames_Nil [simp]: "close_frames i [] = 0"
  by (simp add: close_frames_def)

lemma close_frames_Cons:
  "close_frames i (f # fs) = (if S2C_StreamId f = i \<and> is_close (S2C_Frame f) then 1 else 0) + close_frames i fs"
  by (simp add: close_frames_def)

lemma close_frames_none:
  "(\<And>f. f \<in> set fs \<Longrightarrow> \<not> is_close (Some f)) \<Longrightarrow> close_frames i (map (s2c j) fs) = 0"
  by (induction fs) (simp_all add: close_frames_Cons)

lemma srv_inv_serveTunnel: "opts_wf opts \<Longrightarrow> srv_inv (serveTunnel x b r opts)"
  by (simp add: srv_inv_def serveTunnel_def srv_streams_ok_def serving_ok_def pending_ok_def pending_def
      closes_ok_def closes_def close_frames_Cons settings_frame_def)

subsection \<open>Frame lemmas\<close>

lemma put_server_fields [simp]:
  "sv_heap (put_server i st s) = (sv_heap s)(i \<mapsto> st)" "sv_streams (put_server i st s) = sv_streams s"
  "sv_lastSeen (put_server i st s) = sv_lastSeen s" "sv_ctx (put_server i st s) = sv_ctx s"
  "sv_tunnelOpts (put_server i st s) = sv_tunnelOpts s" "sv_serving (put_server i st s) = sv_serving s"
  "sv_loop (put_server i st s) = sv_loop s" "sv_waiting (put_server i st s) = sv_waiting s"
  "sv_jobs (put_server i st s) = sv_jobs s" "sv_sent (put_server i st s) = sv_sent s"
  by (simp_all add: put_server_def)

lemma pending_put_server [simp]: "pending (put_server i st s) = pending s"
  by (simp add: pending_def fun_eq_iff)

lemma closes_put_server [simp]: "closes (put_server i st s) = closes s"
  by (simp add: closes_def fun_eq_iff)

lemma srv_streams_ok_frame [simp]:
  "srv_streams_ok (s\<lparr>sv_sent := x0\<rparr>) = srv_streams_ok s"
  "srv_streams_ok (s\<lparr>sv_jobs := x1\<rparr>) = srv_streams_ok s"
  "srv_streams_ok (s\<lparr>sv_loop := x2\<rparr>) = srv_streams_ok s"
  "srv_streams_ok (s\<lparr>sv_serving := x3\<rparr>) = srv_streams_ok s"
  "srv_streams_ok (s\<lparr>sv_waiting := x4\<rparr>) = srv_streams_ok s"
  by (simp_all add: srv_streams_ok_def)

lemma serving_ok_frame [simp]:
  "serving_ok (s\<lparr>sv_sent := x0\<rparr>) = serving_ok s"
  "serving_ok (s\<lparr>sv_jobs := x1\<rparr>) = serving_ok s"
  "serving_ok (s\<lparr>sv_loop := x2\<rparr>) = serving_ok s"
  "serving_ok (s\<lparr>sv_waiting := x3\<rparr>) = serving_ok s"
  "serving_ok (s\<lparr>sv_streams := x4\<rparr>) = serving_ok s"
  "serving_ok (s\<lparr>sv_lastSeen := x5\<rparr>) = serving_ok s"
  "serving_ok (s\<lparr>sv_ctx := x6\<rparr>) = serving_ok s"
  by (simp_all add: serving_ok_def)

lemma pending_ok_frame [simp]:
  "pending_ok (s\<lparr>sv_sent := x0\<rparr>) = pending_ok s"
  "pending_ok (s\<lparr>sv_jobs := x1\<rparr>) = pending_ok s"
  "pending_ok (s\<lparr>sv_ctx := x2\<rparr>) = pending_ok s"
  "pending_ok (s\<lparr>sv_lastSeen := x3\<rparr>) = pending_ok s"
  by (simp_all add: pending_ok_def pending_def)

lemma closes_ok_frame [simp]:
  "closes_ok (s\<lparr>sv_loop := x0\<rparr>) = closes_ok s"
  "closes_ok (s\<lparr>sv_serving := x1\<rparr>) = closes_ok s"
  "closes_ok (s\<lparr>sv_waiting := x2\<rparr>) = closes_ok s"
  "closes_ok (s\<lparr>sv_streams := x3\<rparr>) = closes_ok s"
  "closes_ok (s\<lparr>sv_ctx := x4\<rparr>) = closes_ok s"
  by (simp_all add: closes_ok_def closes_def)

text \<open>Sending frames that do not close a stream.\<close>

lemma srv_inv_sent:
  assumes "srv_inv s" and "\<And>f. f \<in> set fs \<Longrightarrow> \<not> is_close (Some f)"
  shows "srv_inv (s\<lparr>sv_sent := sv_sent s @ map (s2c j) fs\<rparr>)"
  using assms(1) close_frames_none [OF assms(2), of fs]
  by (simp add: srv_inv_def closes_ok_def closes_def)

text \<open>Replacing a stream by one that went on.\<close>

definition srv_goes_on :: "tunnelServerStream \<Rightarrow> tunnelServerStream \<Rightarrow> bool" where
  "srv_goes_on st st' \<longleftrightarrow> ss_streamID st' = ss_streamID st \<and> ss_closed st' = ss_closed st
     \<and> (ss_ctx st \<noteq> None \<longrightarrow> ss_ctx st' \<noteq> None) \<and> (ss_halfClosed st \<noteq> None \<longrightarrow> ss_halfClosed st' \<noteq> None)
     \<and> (\<forall>W. server_stream_ok W st \<longrightarrow> server_stream_ok W st')"

lemma serving_ok_put:
  assumes "serving_ok s" and "sv_heap s i = Some st" and "ss_closed st \<longrightarrow> ss_closed st'"
  shows "serving_ok (put_server i st' s)"
proof -
  have "sv_serving s i \<noteq> None"
    using assms(1,2) by (simp add: serving_ok_def)
  then show ?thesis
    using assms by (auto simp: serving_ok_def)
qed

lemma srv_inv_put:
  assumes "srv_inv s" and "sv_heap s i = Some st" and "srv_goes_on st st'"
  shows "srv_inv (put_server i st' s)"
proof -
  have ok: "srv_streams_ok s" "serving_ok s" "pending_ok s" "closes_ok s"
    using assms(1) by (simp_all add: srv_inv_def)
  have "srv_streams_ok (put_server i st' s)"
    using ok(1) assms(2,3) by (auto simp: srv_streams_ok_def srv_goes_on_def ended_def)
  moreover have "serving_ok (put_server i st' s)"
    using serving_ok_put [OF ok(2) assms(2)] assms(3) by (simp add: srv_goes_on_def)
  moreover have "pending_ok (put_server i st' s)"
    using ok(3) by (auto simp: pending_ok_def)
  moreover have "closes_ok (put_server i st' s)"
    using ok(4) assms(2,3) by (auto simp: closes_ok_def srv_goes_on_def)
  ultimately show ?thesis
    using assms(1) by (simp add: srv_inv_def)
qed

lemma srv_goes_onI:
  assumes "\<And>W. server_stream_ok W st \<Longrightarrow> server_stream_ok W st'" and "ss_streamID st' = ss_streamID st"
    and "ss_closed st' = ss_closed st" and "ss_ctx st' = ss_ctx st" and "ss_halfClosed st' = ss_halfClosed st"
  shows "srv_goes_on st st'"
  using assms by (simp add: srv_goes_on_def)

lemma srv_goes_on_ctx: "srv_goes_on st (st\<lparr>ss_ctx := ctx_end e (ss_ctx st)\<rparr>)"
  by (auto simp: srv_goes_on_def server_stream_ok_ctx)

lemma srv_goes_on_halfClose: "srv_goes_on st (halfClose e st)"
proof -
  have "ss_streamID (halfClose e st) = ss_streamID st" "ss_closed (halfClose e st) = ss_closed st"
    "ss_ctx (halfClose e st) = ss_ctx st" "ss_halfClosed (halfClose e st) \<noteq> None"
    by (simp_all add: halfClose_def)
  then show ?thesis by (simp add: srv_goes_on_def halfClose_ok)
qed

lemma srv_goes_on_setHeader: "setHeader L md b r st = Some (e, st', fs) \<Longrightarrow> srv_goes_on st st'"
  by (rule srv_goes_onI, erule setHeader_ok)
     (auto simp: setHeader_def sendHeadersLocked_def Let_def split: if_splits)

lemma srv_goes_on_setTrailer: "setTrailer L md st = Some (e, st') \<Longrightarrow> srv_goes_on st st'"
  by (rule srv_goes_onI, erule setTrailer_ok) (auto simp: setTrailer_def split: if_splits)

lemma srv_goes_on_SendMsg: "server_SendMsg ms m r st = Some (e, st', fs) \<Longrightarrow> srv_goes_on st st'"
  by (rule srv_goes_onI, erule server_SendMsg_ok)
     (auto simp: server_SendMsg_def sendHeadersLocked_def Let_def split: if_splits option.splits sum.splits)

lemma srv_goes_on_send_do: "server_send_do a st = Some (st', fs) \<Longrightarrow> srv_goes_on st st'"
  by (rule srv_goes_onI, erule server_send_do_ok) (auto simp: server_send_do_def split: option.splits)

lemma setHeader_not_close:
  "setHeader L md b r st = Some (e, st', fs) \<Longrightarrow> f \<in> set fs \<Longrightarrow> \<not> is_close (Some f)"
  by (auto simp: setHeader_def sendHeadersLocked_def Let_def split: if_splits)

lemma SendMsg_not_close:
  "server_SendMsg ms m r st = Some (e, st', fs) \<Longrightarrow> f \<in> set fs \<Longrightarrow> \<not> is_close (Some f)"
  by (auto simp: server_SendMsg_def sendHeadersLocked_def Let_def split: if_splits option.splits sum.splits)

lemma send_do_not_close:
  "server_send_do a st = Some (st', fs) \<Longrightarrow> f \<in> set fs \<Longrightarrow> \<not> is_close (Some f)"
  by (auto simp: server_send_do_def server_sendFunc_def split: option.splits if_splits)

lemma sendUpdates_not_close: "f \<in> set (server_sendUpdates us st) \<Longrightarrow> \<not> is_close (Some f)"
  by (auto simp: server_sendUpdates_def split: if_splits)

lemma srv_goes_on_watch: "server_ctx_watch st = Some st' \<Longrightarrow> srv_goes_on st st'"
  using server_ctx_watch_ok [of _ st st']
  by (auto simp: srv_goes_on_def server_ctx_watch_def split: if_splits)

lemma srv_goes_on_reads: "server_reads_from st st' \<Longrightarrow> srv_goes_on st st'"
  using server_reads_from_fields [of st st'] by (simp add: srv_goes_on_def server_reads_from_def)

lemma srv_inv_finish_begin:
  assumes "srv_inv s"
  shows "srv_inv (srv_finish_begin err i s)"
proof (cases "sv_heap s i")
  case None
  then show ?thesis using assms by (simp add: srv_finish_begin_def)
next
  case (Some st)
  have "srv_goes_on st (finish_begin err st)"
    using finish_begin_fields [of err st] finish_begin_ok [of _ st err] by (auto simp: srv_goes_on_def)
  then have "srv_inv (put_server i (finish_begin err st) s)"
    by (rule srv_inv_put [OF assms Some])
  then show ?thesis
    using Some finish_begin_fields [of err st]
    by (auto simp: srv_finish_begin_def server_removeStream_def srv_inv_def srv_streams_ok_def
        pending_ok_def pending_def ended_def split: if_splits)
qed

lemma srv_finish_begin_fields [simp]:
  "sv_loop (srv_finish_begin err i s) = sv_loop s" "sv_waiting (srv_finish_begin err i s) = sv_waiting s"
  "sv_serving (srv_finish_begin err i s) = sv_serving s" "sv_jobs (srv_finish_begin err i s) = sv_jobs s"
  "sv_heap s i \<noteq> None \<Longrightarrow> sv_heap (srv_finish_begin err i s) i \<noteq> None"
  "sv_heap s i \<noteq> None \<Longrightarrow> i \<notin> sv_streams (srv_finish_begin err i s)"
  by (auto simp: srv_finish_begin_def server_removeStream_def split: option.splits)

text \<open>A call of \<^verbatim>\<open>finishStream\<close> that has begun is pending somewhere.\<close>

lemma srv_inv_add_pending:
  assumes "srv_inv s" and "i \<notin> sv_streams s" and "sv_heap s i \<noteq> None"
  shows "srv_inv (s\<lparr>sv_loop := SrvFinishing i err\<rparr>)"
    and "srv_inv (s\<lparr>sv_waiting := sv_waiting s @ [(i, err)]\<rparr>)"
    and "srv_inv (s\<lparr>sv_serving := (sv_serving s)(i \<mapsto> ServeFinishing err)\<rparr>)"
proof -
  have ok: "serving_ok s" "pending_ok s" using assms(1) by (simp_all add: srv_inv_def)
  show "srv_inv (s\<lparr>sv_loop := SrvFinishing i err\<rparr>)"
    using assms ok(2) by (auto simp: srv_inv_def pending_ok_def pending_def)
  show "srv_inv (s\<lparr>sv_waiting := sv_waiting s @ [(i, err)]\<rparr>)"
    using assms ok(2) by (auto simp: srv_inv_def pending_ok_def pending_def)
  have "serving_ok (s\<lparr>sv_serving := (sv_serving s)(i \<mapsto> ServeFinishing err)\<rparr>)"
    using ok(1) assms(3) by (auto simp: serving_ok_def)
  moreover have "pending_ok (s\<lparr>sv_serving := (sv_serving s)(i \<mapsto> ServeFinishing err)\<rparr>)"
    using assms ok(2) by (auto simp: pending_ok_def pending_def)
  ultimately show "srv_inv (s\<lparr>sv_serving := (sv_serving s)(i \<mapsto> ServeFinishing err)\<rparr>)"
    using assms(1) by (simp add: srv_inv_def)
qed

lemma srv_inv_loop_finish: "srv_inv s \<Longrightarrow> sv_heap s i \<noteq> None \<Longrightarrow> srv_inv (loop_finish err i s)"
  by (simp add: loop_finish_def srv_inv_add_pending srv_inv_finish_begin)

lemma srv_inv_serve_defer: "srv_inv s \<Longrightarrow> sv_heap s i \<noteq> None \<Longrightarrow> srv_inv (serve_defer err i s)"
  using srv_inv_add_pending(3) [OF srv_inv_finish_begin, of s i err i err] by (simp add: serve_defer_def)

text \<open>The locked part: one \<^verbatim>\<open>CloseStream\<close>, the first time only.\<close>

lemma finish_locked_cases:
  assumes "finish_locked L err st = Some (st', fs)"
  shows "(ss_closed st \<and> st' = st \<and> fs = [])
    \<or> (\<not> ss_closed st \<and> ss_closed st' \<and> fs \<noteq> [] \<and> (\<forall>j i. close_frames i (map (s2c j) fs) = (if i = j then 1 else 0)))"
  using assms by (auto simp: finish_locked_def Let_def close_frames_Cons split: if_splits)

lemma finish_locked_fields:
  assumes "finish_locked L err st = Some (st', fs)"
  shows "ss_streamID st' = ss_streamID st" "ss_ctx st' = ss_ctx st" "ss_halfClosed st' = ss_halfClosed st"
    "ss_closed st'"
  using assms by (auto simp: finish_locked_def Let_def split: if_splits)

lemma srv_inv_finish_locked:
  assumes "srv_inv s" and "i \<notin> sv_streams s" and "srv_finish_locked L err i s = Some s'"
  shows "srv_inv s'"
proof -
  obtain st st' fs where st: "sv_heap s i = Some st" and fin: "finish_locked L err st = Some (st', fs)"
    and s': "s' = (put_server i st' s)\<lparr>sv_jobs := sv_jobs s @ (if fs = [] then [] else [map (s2c i) fs])\<rparr>"
    using assms(3) by (auto simp: srv_finish_locked_def split: option.splits)
  note flds = finish_locked_fields [OF fin]
  have ok: "srv_streams_ok s" "serving_ok s" "pending_ok s" "closes_ok s"
    using assms(1) by (simp_all add: srv_inv_def)
  have "ended st" "server_stream_ok (srv_window s) st"
    using ok(1) st assms(2) by (auto simp: srv_streams_ok_def)
  then have "server_stream_ok (srv_window s) st'" "ended st'"
    using finish_locked_ok [OF _ _ _ fin] flds by (auto simp: ended_def)
  then have "srv_streams_ok (put_server i st' s)"
    using ok(1) st assms(2) flds by (auto simp: srv_streams_ok_def)
  moreover have "serving_ok (put_server i st' s)"
    using serving_ok_put [OF ok(2) st] flds by simp
  moreover have "pending_ok (put_server i st' s)"
    using ok(3) by (auto simp: pending_ok_def)
  moreover have "i \<le> sv_lastSeen s"
    using ok(1) st by (auto simp: srv_streams_ok_def)
  then have "closes_ok s'"
    using ok(4) st flds finish_locked_cases [OF fin]
    by (auto simp: closes_ok_def closes_def s')
  ultimately show ?thesis
    using assms(1) by (simp add: srv_inv_def s')
qed

lemma pendingD: "srv_inv s \<Longrightarrow> pending s i err \<Longrightarrow> i \<notin> sv_streams s \<and> sv_heap s i \<noteq> None"
  by (auto simp: srv_inv_def pending_ok_def)

lemma srv_finish_locked_fields:
  assumes "srv_finish_locked L err i s = Some s'"
  shows "sv_streams s' = sv_streams s" "sv_loop s' = sv_loop s" "sv_waiting s' = sv_waiting s"
    "sv_serving s' = sv_serving s" "\<exists>st. sv_heap s' i = Some st \<and> ss_closed st"
    "(\<exists>st. sv_heap s' j = Some st) \<longleftrightarrow> (\<exists>st. sv_heap s j = Some st)"
  using assms by (auto simp: srv_finish_locked_def finish_locked_fields split: option.splits if_splits)

text \<open>A pending call that is over.\<close>

lemma srv_inv_serve_resume:
  assumes "srv_inv s" and "serve_resume L s = Some s'"
  shows "srv_inv s'"
proof -
  obtain i err s1 where l: "sv_loop s = SrvFinishing i err" "srv_finish_locked L err i s = Some s1"
    "s' = s1\<lparr>sv_loop := SrvRunning\<rparr>"
    using assms(2) by (auto simp: serve_resume_def split: srv_loop.splits)
  have "srv_inv s1"
    using srv_inv_finish_locked [OF assms(1) _ l(2)] pendingD [OF assms(1), of i err] l(1) by (auto simp: pending_def)
  then show ?thesis
    by (simp add: l(3) srv_inv_def pending_ok_def pending_def)
qed

lemma srv_inv_recv_finish:
  assumes "srv_inv s" and "recv_finish L s = Some s'"
  shows "srv_inv s'"
proof -
  obtain i err ws s1 where w: "sv_waiting s = (i, err) # ws" "srv_finish_locked L err i s = Some s1"
    "s' = s1\<lparr>sv_waiting := ws\<rparr>"
    using assms(2) by (auto simp: recv_finish_def split: list.splits)
  have "srv_inv s1"
    using srv_inv_finish_locked [OF assms(1) _ w(2)] pendingD [OF assms(1), of i err] w(1) by (auto simp: pending_def)
  moreover have "sv_waiting s1 = (i, err) # ws"
    using w(1) srv_finish_locked_fields(3) [OF w(2)] by simp
  ultimately show ?thesis
    by (auto simp: w(3) srv_inv_def pending_ok_def pending_def)
qed

lemma srv_inv_serve_finish:
  assumes "srv_inv s" and "serve_finish L i s = Some s'"
  shows "srv_inv s'"
proof -
  obtain err s1 where w: "sv_serving s i = Some (ServeFinishing err)" "srv_finish_locked L err i s = Some s1"
    "s' = s1\<lparr>sv_serving := (sv_serving s)(i \<mapsto> ServeDone)\<rparr>"
    using assms(2) by (auto simp: serve_finish_def split: option.splits serve_pc.splits)
  have s1: "srv_inv s1"
    using srv_inv_finish_locked [OF assms(1) _ w(2)] pendingD [OF assms(1), of i err] w(1) by (auto simp: pending_def)
  note flds = srv_finish_locked_fields [OF w(2)]
  have "serving_ok s'"
    using s1 flds by (auto simp: w(3) srv_inv_def serving_ok_def)
  moreover have "pending_ok s'"
    using s1 flds by (auto simp: w(3) srv_inv_def pending_ok_def pending_def)
  ultimately show ?thesis
    using s1 by (simp add: w(3) srv_inv_def)
qed

subsection \<open>Contexts\<close>

lemma srv_inv_all_ctx: "srv_inv s \<Longrightarrow> srv_inv (tunnel_ctx_ends e s)"
  by (auto simp: tunnel_ctx_ends_def srv_inv_def srv_streams_ok_def serving_ok_def pending_ok_def pending_def
      closes_ok_def closes_def server_stream_ok_ctx ended_def)

lemma serve_return_eq: "serve_return err s = (tunnel_ctx_ends CtxCanceled s)\<lparr>sv_loop := SrvReturned err\<rparr>"
  by (simp add: serve_return_def tunnel_ctx_ends_def)

lemma srv_inv_serve_return: "srv_inv s \<Longrightarrow> srv_inv (serve_return err s)"
  using srv_inv_all_ctx [of s CtxCanceled]
  by (auto simp: serve_return_eq srv_inv_def pending_ok_def pending_def)

subsection \<open>Creating a stream\<close>

lemma check_stream_window:
  "check_stream svcs b s f = Inr x \<Longrightarrow>
    minWindowSize (NewStream_ProtocolRevision f) \<le> NewStream_InitialWindowSize f"
  by (auto simp: check_stream_def Let_def split: if_splits prod.splits)

lemma server_stream_ok_new:
  assumes "opts_wf opt" and "minWindowSize rv \<le> w"
  shows "server_stream_ok (unat (initialWindowSize opt))
    (newServerStream x tm i m md (newSender w (maxChunkSize opt) (messageOverhead rv))
      (newReceiver (initialWindowSize opt) u (messageOverhead rv)))"
proof -
  have "messageOverhead rv < initialWindowSize opt"
    using opts_wf_minWindowSize [OF assms(1), of rv]
    by (simp add: minWindowSize_le_iff word_less_nat_alt)
  moreover have "0 < w" "messageOverhead rv < 4294967295"
    using assms(2) unat_messageOverhead_le [of rv]
    by (auto simp: minWindowSize_le_iff word_less_nat_alt)
  moreover have "0 < maxChunkSize opt"
    using assms(1) by (simp add: opts_wf_def)
  ultimately show ?thesis
    by (simp add: server_stream_ok_def newServerStream_def recv_inv_new sender_wf_newSender)
qed

lemma srv_inv_lastSeen:
  "srv_inv s \<Longrightarrow> sv_lastSeen s \<le> i \<Longrightarrow> srv_inv (s\<lparr>sv_lastSeen := i\<rparr>)"
  by (fastforce simp: srv_inv_def srv_streams_ok_def closes_ok_def closes_def)

lemma srv_inv_new:
  assumes "srv_inv s" and "sv_lastSeen s < i" and "server_stream_ok (srv_window s) st"
    and "ss_streamID st = i" and "\<not> ss_closed st" and "sv_ctx s \<noteq> None \<longrightarrow> ss_ctx st \<noteq> None"
  shows "srv_inv (s\<lparr>sv_lastSeen := i, sv_heap := (sv_heap s)(i \<mapsto> st), sv_streams := insert i (sv_streams s),
    sv_serving := (sv_serving s)(i \<mapsto> Serving md)\<rparr>)" (is "srv_inv ?s")
proof -
  have ok: "srv_streams_ok s" "serving_ok s" "pending_ok s" "closes_ok s"
    using assms(1) by (simp_all add: srv_inv_def)
  have new: "sv_heap s i = None"
    using ok(1) assms(2) unfolding srv_streams_ok_def by (metis not_le option.exhaust)
  have "srv_streams_ok (s\<lparr>sv_lastSeen := i\<rparr>)"
    using srv_inv_lastSeen [OF assms(1), of i] assms(2) by (simp add: srv_inv_def)
  then have "srv_streams_ok ?s"
    using assms(3-6) by (auto simp: srv_streams_ok_def)
  moreover have "serving_ok ?s"
    using ok(2) by (auto simp: serving_ok_def)
  moreover have "\<not> pending s i err" for err
    using ok(3) new by (auto simp: pending_ok_def)
  then have "pending_ok ?s"
    using ok(3) by (auto simp: pending_ok_def pending_def)
  moreover have "closes_ok ?s"
    using ok(4) assms(2) by (auto simp: closes_ok_def closes_def)
  ultimately show ?thesis
    using assms(1) by (simp add: srv_inv_def)
qed

lemma srv_inv_createStream:
  assumes "srv_inv s" and "createStream L svcs b i f s = ((ok, err), s')"
  shows "srv_inv s' \<and> (ok \<and> err \<noteq> None \<longrightarrow> s' = s\<lparr>sv_lastSeen := i\<rparr> \<and> sv_lastSeen s < i)"
proof (cases "i \<in> sv_streams s \<or> i \<le> sv_lastSeen s")
  case True
  then show ?thesis using assms by (auto simp: createStream_def split: if_splits)
next
  case False
  show ?thesis
  proof (cases "check_stream svcs b s f")
    case (Inl e)
    then show ?thesis
      using assms False by (auto simp: createStream_def intro: srv_inv_lastSeen)
  next
    case (Inr nm)
    obtain name md where nm: "nm = (name, md)" by (cases nm)
    have opt: "opts_wf (sv_tunnelOpts s)" using assms(1) by (simp add: srv_inv_def)
    show ?thesis
      using assms False Inr
      by (auto simp: createStream_def Let_def nm intro!: srv_inv_new server_stream_ok_new [OF opt check_stream_window [OF Inr]])
         (auto simp: newServerStream_def stream_ctx_def)
  qed
qed

subsection \<open>The receive loop\<close>

lemma srv_inv_accept_data:
  assumes "srv_inv s" and "sv_heap s i = Some st"
  shows "srv_inv (server_accept_data f i st s)"
proof -
  obtain e r where acc: "accept server_measure f (ss_receiver st) = (e, r)" by fastforce
  have "srv_goes_on st (st\<lparr>ss_receiver := r\<rparr>)"
    using server_accept_ok [of _ st f] acc by (auto intro: srv_goes_onI)
  then have "srv_inv (put_server i (st\<lparr>ss_receiver := r\<rparr>) s)"
    by (rule srv_inv_put [OF assms])
  then show ?thesis
    by (auto simp: server_accept_data_def acc Let_def intro: srv_inv_loop_finish split: option.splits)
qed

lemma srv_inv_acceptClientFrame:
  assumes "srv_inv s"
  shows "srv_inv (acceptClientFrame f i s)"
proof (cases "sv_heap s i")
  case None
  then show ?thesis using assms by (simp add: acceptClientFrame_def)
next
  case (Some st)
  have upd: "srv_goes_on st (st\<lparr>ss_sender := updateWindow w (ss_sender st)\<rparr>)" for w
    by (rule srv_goes_onI) (simp_all add: server_updateWindow_ok)
  show ?thesis
    using assms Some
    by (auto simp: acceptClientFrame_def intro!: srv_inv_loop_finish srv_inv_accept_data
        intro: srv_inv_put upd srv_goes_on_halfClose split: option.splits ClientToServerFrame.splits)
qed

lemma srv_inv_refused:
  assumes "srv_inv s" and "sv_lastSeen s < i"
  shows "srv_inv (s\<lparr>sv_lastSeen := i, sv_jobs := sv_jobs s @ [[s2c i (ServerToClient_CloseStream cl)]]\<rparr>)"
proof -
  have "srv_inv (s\<lparr>sv_lastSeen := i\<rparr>)" using assms by (intro srv_inv_lastSeen) simp_all
  moreover have "sv_heap s i = None"
    using assms unfolding srv_inv_def srv_streams_ok_def by (metis not_le option.exhaust)
  ultimately show ?thesis
    using assms by (auto simp: srv_inv_def closes_ok_def closes_def close_frames_Cons)
qed

lemma srv_inv_serve_step:
  assumes "srv_inv s" and "serve_step L svcs b inp s = Some s'"
  shows "srv_inv s'"
proof (cases inp)
  case (Inl e)
  then show ?thesis
    using assms by (auto simp: serve_step_def srv_inv_serve_return split: if_splits)
next
  case (Inr m)
  show ?thesis
  proof (cases "\<exists>f. C2S_Frame m = Some (ClientToServer_NewStream f)")
    case True
    then obtain f where f: "C2S_Frame m = Some (ClientToServer_NewStream f)" by blast
    obtain ok err s1 where cr: "createStream L svcs b (C2S_StreamId m) f s = ((ok, err), s1)"
      by (metis prod.exhaust)
    note inv = srv_inv_createStream [OF assms(1) cr]
    show ?thesis
    proof (cases "ok \<and> err \<noteq> None")
      case True
      then show ?thesis
        using assms Inr f cr inv srv_inv_refused [of s "C2S_StreamId m"]
        by (auto simp: serve_step_def split: if_splits)
    next
      case False
      then show ?thesis
        using assms Inr f cr inv
        by (auto simp: serve_step_def srv_inv_serve_return split: if_splits option.splits)
    qed
  next
    case False
    then have "s' = s \<or> (\<exists>e. s' = serve_return e s) \<or> (\<exists>f i. s' = acceptClientFrame f i s)"
      using assms(2) Inr
      by (auto simp: serve_step_def split: if_splits option.splits ClientToServerFrame.splits sum.splits)
    then show ?thesis
      using assms(1) by (auto intro: srv_inv_serve_return srv_inv_acceptClientFrame)
  qed
qed

subsection \<open>Handlers\<close>

lemma srv_inv_put_sent:
  assumes "srv_inv s" and "sv_heap s i = Some st" and "srv_goes_on st st'"
    and "\<And>f. f \<in> set fs \<Longrightarrow> \<not> is_close (Some f)"
  shows "srv_inv ((put_server i st' s)\<lparr>sv_sent := sv_sent s @ (if b then map (s2c i) fs else [])\<rparr>)"
  using srv_inv_sent [OF srv_inv_put [OF assms(1-3)] assms(4), of "if b then fs else []"]
  by (cases b) simp_all

lemma srv_inv_stream_send:
  assumes "srv_inv s" and "server_stream_send ms m r i s = Some (e, s')"
  shows "srv_inv s'"
proof -
  obtain st st' fs where x: "sv_heap s i = Some st" "server_SendMsg ms m r st = Some (e, st', fs)"
    "s' = (put_server i st' s)\<lparr>sv_sent := sv_sent s @ (if r = None then map (s2c i) fs else [])\<rparr>"
    using assms(2) by (auto simp: server_stream_send_def split: option.splits)
  show ?thesis
    unfolding x(3) by (rule srv_inv_put_sent [OF assms(1) x(1) srv_goes_on_SendMsg [OF x(2)] SendMsg_not_close [OF x(2)]])
qed

lemma srv_inv_stream_setHeader:
  assumes "srv_inv s" and "server_stream_setHeader L md b r i s = Some (e, s')"
  shows "srv_inv s'"
proof -
  obtain st st' fs where x: "sv_heap s i = Some st" "setHeader L md b r st = Some (e, st', fs)"
    "s' = (put_server i st' s)\<lparr>sv_sent := sv_sent s @ (if r = None then map (s2c i) fs else [])\<rparr>"
    using assms(2) by (auto simp: server_stream_setHeader_def split: option.splits)
  show ?thesis
    unfolding x(3) by (rule srv_inv_put_sent [OF assms(1) x(1) srv_goes_on_setHeader [OF x(2)] setHeader_not_close [OF x(2)]])
qed

lemma srv_inv_stream_setTrailer:
  "srv_inv s \<Longrightarrow> server_stream_setTrailer L md i s = Some (e, s') \<Longrightarrow> srv_inv s'"
  by (auto simp: server_stream_setTrailer_def intro: srv_inv_put srv_goes_on_setTrailer split: option.splits)

lemma srv_inv_stream_send_do:
  assumes "srv_inv s" and "server_stream_send_do a i s = Some s'"
  shows "srv_inv s'"
proof -
  obtain st st' fs where x: "sv_heap s i = Some st" "server_send_do a st = Some (st', fs)"
    "s' = (put_server i st' s)\<lparr>sv_sent := sv_sent s @ (if True then map (s2c i) fs else [])\<rparr>"
    using assms(2) by (auto simp: server_stream_send_do_def split: option.splits if_splits)
  show ?thesis
    unfolding x(3) by (rule srv_inv_put_sent [OF assms(1) x(1) srv_goes_on_send_do [OF x(2)] send_do_not_close [OF x(2)]])
qed

lemma srv_inv_RecvMsg:
  assumes "srv_inv s" and "server_stream_RecvMsg ph i s = Some (x, s')"
  shows "srv_inv s'"
proof -
  obtain st where st: "sv_heap s i = Some st"
    using assms(2) by (auto simp: server_stream_RecvMsg_def split: option.splits)
  obtain res st' us where rd: "server_readMsg ph st = (res, st', us)"
    by (metis prod_cases3)
  let ?s1 = "(put_server i st' s)\<lparr>sv_sent := sv_sent s @ map (s2c i) (server_sendUpdates us st)\<rparr>"
  have s1: "srv_inv ?s1"
    using srv_inv_put_sent [OF assms(1) st srv_goes_on_reads [OF server_readMsg_reads [OF rd]], of
        "server_sendUpdates us st" True] sendUpdates_not_close by auto
  have "srv_inv ((srv_finish_begin err i ?s1)\<lparr>sv_waiting := sv_waiting s @ [(i, err)]\<rparr>)" for err
    using srv_inv_add_pending(2) [OF srv_inv_finish_begin [OF s1], of i err i err] by simp
  then show ?thesis
    using assms(2) st rd s1
    by (auto simp: server_stream_RecvMsg_def Let_def split: srv_res.splits option.splits if_splits prod.splits)
qed

lemma server_stream_send_heap:
  "server_stream_send ms m r i s = Some (e, s') \<Longrightarrow> sv_heap s' i \<noteq> None"
  by (auto simp: server_stream_send_def split: option.splits)

lemma srv_inv_sending:
  assumes "srv_inv s" and "sv_heap s i \<noteq> None"
  shows "srv_inv (s\<lparr>sv_serving := (sv_serving s)(i \<mapsto> ServeSending)\<rparr>)"
proof -
  have "serving_ok (s\<lparr>sv_serving := (sv_serving s)(i \<mapsto> ServeSending)\<rparr>)"
    using assms by (auto simp: srv_inv_def serving_ok_def)
  moreover have "pending_ok (s\<lparr>sv_serving := (sv_serving s)(i \<mapsto> ServeSending)\<rparr>)"
    using assms(1) by (auto simp: srv_inv_def pending_ok_def pending_def)
  ultimately show ?thesis
    using assms(1) by (simp add: srv_inv_def)
qed

lemma serving_heap: "srv_inv s \<Longrightarrow> sv_serving s i = Some p \<Longrightarrow> sv_heap s i \<noteq> None"
  by (auto simp: srv_inv_def serving_ok_def)

lemma srv_inv_serve_end:
  assumes "srv_inv s" and "serve_end ms h r i s = Some s'"
  shows "srv_inv s'"
proof -
  obtain md where md: "sv_serving s i = Some (Serving md)"
    using assms(2) by (auto simp: serve_end_def split: option.splits serve_pc.splits)
  have heap: "sv_heap s i \<noteq> None" by (rule serving_heap [OF assms(1) md])
  consider err where "s' = serve_defer err i s"
    | e err s1 where "server_stream_send ms e r i s = Some (Some err, s1)" "s' = serve_defer (Some err) i s1"
    | e s1 where "server_stream_send ms e r i s = Some (None, s1)"
      "s' = s1\<lparr>sv_serving := (sv_serving s1)(i \<mapsto> ServeSending)\<rparr>"
    using assms(2) md by (auto simp: serve_end_def split: option.splits method_desc.splits handler_end.splits)
  then show ?thesis
  proof cases
    case 1
    then show ?thesis using srv_inv_serve_defer [OF assms(1) heap] by simp
  next
    case 2
    show ?thesis
      unfolding 2(2)
      by (rule srv_inv_serve_defer [OF srv_inv_stream_send [OF assms(1) 2(1)] server_stream_send_heap [OF 2(1)]])
  next
    case 3
    show ?thesis
      unfolding 3(2)
      by (rule srv_inv_sending [OF srv_inv_stream_send [OF assms(1) 3(1)] server_stream_send_heap [OF 3(1)]])
  qed
qed

lemma srv_inv_serve_sent:
  assumes "srv_inv s" and "serve_sent i s = Some s'"
  shows "srv_inv s'"
proof -
  obtain err where "s' = serve_defer err i s" "sv_serving s i = Some ServeSending"
    using assms(2) by (auto simp: serve_sent_def split: option.splits serve_pc.splits send_pc.splits)
  then show ?thesis
    using srv_inv_serve_defer [OF assms(1) serving_heap [OF assms(1)]] by simp
qed

lemma srv_inv_ctx_ends: "srv_inv s \<Longrightarrow> server_ctx_ends i s = Some s' \<Longrightarrow> srv_inv s'"
  by (auto simp: server_ctx_ends_def intro: srv_inv_put srv_goes_on_ctx split: option.splits if_splits)

lemma srv_inv_watch: "srv_inv s \<Longrightarrow> server_watch i s = Some s' \<Longrightarrow> srv_inv s'"
  by (auto simp: server_watch_def intro: srv_inv_put srv_goes_on_watch split: option.splits)

lemma close_frames_concat_update:
  "k < length js \<Longrightarrow> js ! k = f # fs \<Longrightarrow>
   close_frames i (concat js) = close_frames i [f] + close_frames i (concat (js[k := fs]))"
  by (induction js arbitrary: k) (auto simp: nth_Cons' close_frames_Cons split: nat.splits if_splits)

lemma srv_inv_run_job:
  assumes "srv_inv s" and "server_run_job k r s = Some s'"
  shows "srv_inv s'"
proof -
  obtain f fs where k: "k < length (sv_jobs s)" "sv_jobs s ! k = f # fs"
    "s' = s\<lparr>sv_jobs := (sv_jobs s)[k := fs], sv_sent := sv_sent s @ (if r = None then [f] else [])\<rparr>"
    using assms(2) by (auto simp: server_run_job_def split: if_splits list.splits)
  have "closes s' i \<le> closes s i" for i
    using close_frames_concat_update [OF k(1,2), of i] by (simp add: closes_def k(3))
  moreover have "closes_ok s" using assms(1) by (simp add: srv_inv_def)
  ultimately have "closes_ok s'"
    unfolding closes_ok_def by (metis (no_types, lifting) le_trans le_zero_eq k(3) tunnelServer.select_convs(5,7)
        tunnelServer.update_convs(8,9) tunnelServer.surjective)
  then show ?thesis
    using assms(1) by (simp add: srv_inv_def k(3))
qed

lemma srv_inv_do: "srv_inv s \<Longrightarrow> srv_do L svcs a s = Some s' \<Longrightarrow> srv_inv s'"
  by (cases a) (auto simp: srv_inv_all_ctx intro: srv_inv_serve_step srv_inv_serve_resume srv_inv_ctx_ends
      srv_inv_watch srv_inv_stream_setHeader srv_inv_stream_setTrailer srv_inv_stream_send
      srv_inv_stream_send_do srv_inv_RecvMsg srv_inv_recv_finish srv_inv_serve_end srv_inv_serve_sent
      srv_inv_serve_finish srv_inv_run_job)

lemma srv_inv_reach: "srv_reach L svcs s0 s \<Longrightarrow> srv_inv s0 \<Longrightarrow> srv_inv s"
  by (induction rule: srv_reach.induct) (auto intro: srv_inv_do)

lemma srv_reach_run: "srv_reach L svcs s0 s \<Longrightarrow> srv_run L svcs as s = Some s' \<Longrightarrow> srv_reach L svcs s0 s'"
  by (induction as arbitrary: s) (auto split: option.splits intro: srv_reach.srv_step)

subsection \<open>The contracts the server meets\<close>

interpretation srv_registry: stream_registry server_getStream server_removeStream sv_streams
    "\<lambda>s i. i \<le> sv_lastSeen s"
  by unfold_locales (auto simp: server_getStream_def server_removeStream_def errServerNeverCreated_def)

end
