(* ===== verification/Server_Properties.thy ===== *)
theory Server_Properties
  imports Client_Properties Server_Invariant
begin

text \<open>
  The properties of the server's end of a tunnel. \<open>demo_svcs\<close> is a table of services with one unary and one
  streaming method, \<open>demo_srv\<close> a server that has just begun to serve a tunnel.
\<close>

definition demo_svcs :: "string \<rightharpoonup> ServiceDesc" where
  "demo_svcs = [''svc'' \<mapsto> \<lparr>Methods = [''m''], Streams = [(''s'', True, True)]\<rparr>]"

definition demo_srv :: tunnelServer where
  "demo_srv = serveTunnel None True False demo_opts"

definition demo_open_frame :: "string \<Rightarrow> Metadata option \<Rightarrow> NewStream" where
  "demo_open_frame name h = \<lparr>MethodName = name, RequestHeaders = h, NewStream_InitialWindowSize = 1024,
     NewStream_ProtocolRevision = 2\<rparr>"

lemma demo_srv_inv: "srv_inv demo_srv"
  by (simp add: demo_srv_def srv_inv_serveTunnel demo_opts_wf)

lemma srv_reach_inv: "srv_reach L svcs (serveTunnel x b r opts) s \<Longrightarrow> opts_wf opts \<Longrightarrow> srv_inv s"
  by (erule srv_inv_reach) (rule srv_inv_serveTunnel)

lemmas demo_srv_eval =
  demo_srv_def serveTunnel_def demo_svcs_def demo_open_frame_def serve_step_def createStream_def check_stream_def
  Let_def trim_slash_def split_slash_def findMethod_def tunnelRoles_def supportedRevisions_def revision_defs
  minWindowSize_def messageOverhead_def revisionTwoMessageOverhead_def word_less_nat_alt word_le_nat_alt
  timeoutFromHeaders_def fromProto_def newServerStream_def stream_ctx_def demo_lib_def md_entries_def

subsection \<open>Streams and their ends\<close>

text \<open>
  C25. Whatever happens to a tunnel, a stream is closed at most once: among the frames sent and those a goroutine
  still has to send there is at most one CloseStream for a stream ID, there is none before the stream is
  finished, and a stream whose handler is gone is finished.
\<close>

theorem one_close_per_stream:
  assumes "srv_reach L svcs (serveTunnel x b r opts) s" and "opts_wf opts"
  shows "closes s i \<le> 1
    \<and> (i \<in> sv_streams s \<longrightarrow> closes s i = 0)
    \<and> (sv_serving s i = Some ServeDone \<longrightarrow> (\<exists>st. sv_heap s i = Some st \<and> ss_closed st \<and> ss_ctx st \<noteq> None
         \<and> ss_halfClosed st \<noteq> None) \<and> i \<notin> sv_streams s)"
proof -
  have inv: "srv_inv s" by (rule srv_reach_inv [OF assms])
  have live: "\<exists>st. sv_heap s i = Some st \<and> \<not> ss_closed st" if "i \<in> sv_streams s"
    using inv that by (auto simp: srv_inv_def srv_streams_ok_def)
  have fin: "\<exists>st. sv_heap s i = Some st \<and> ss_closed st \<and> ss_ctx st \<noteq> None \<and> ss_halfClosed st \<noteq> None"
    if gone: "sv_serving s i = Some ServeDone"
  proof -
    obtain st where st: "sv_heap s i = Some st" "ss_closed st"
      using inv gone unfolding srv_inv_def serving_ok_def by blast
    then have "server_stream_ok (srv_window s) st"
      using inv by (auto simp: srv_inv_def srv_streams_ok_def)
    then show ?thesis using st by (auto simp: server_stream_ok_def)
  qed
  have "closes s i \<le> 1 \<and> (i \<in> sv_streams s \<longrightarrow> closes s i = 0)"
    using inv live by (auto simp: srv_inv_def closes_ok_def)
  then show ?thesis using fin live by fastforce
qed

theorem one_close_per_stream_witness:
  "\<exists>s. srv_run demo_lib demo_svcs [SRecv False (Inr (c2s 0 (ClientToServer_NewStream (demo_open_frame ''/svc/s'' None)))),
       SHandlerEnd 0 HNil None, SFinish 0, SJob 1 None, SJob 1 None] demo_srv = Some s
     \<and> sv_serving s 0 = Some ServeDone \<and> closes s 0 = 1 \<and> 0 \<notin> sv_streams s"
proof -
  let ?run = "srv_run demo_lib demo_svcs [SRecv False (Inr (c2s 0 (ClientToServer_NewStream (demo_open_frame ''/svc/s'' None)))),
       SHandlerEnd 0 HNil None, SFinish 0, SJob 1 None, SJob 1 None] demo_srv"
  have "\<exists>s. ?run = Some s \<and> sv_serving s 0 = Some ServeDone \<and> closes s 0 = 1"
    by (simp add: demo_srv_eval serve_end_def serve_defer_def srv_finish_begin_def server_removeStream_def put_server_def
        finish_begin_def halfClose_def serve_finish_def srv_finish_locked_def finish_locked_def server_run_job_def
        closes_def close_frames_def settings_frame_def)
  then obtain s where s: "?run = Some s" "sv_serving s 0 = Some ServeDone" "closes s 0 = 1" by blast
  have "srv_reach demo_lib demo_svcs demo_srv s"
    by (rule srv_reach_run [OF srv_reach.srv_start s(1)])
  from one_close_per_stream [OF this [unfolded demo_srv_def] demo_opts_wf, of 0] s show ?thesis by blast
qed

text \<open>
  C26. A stream that is refused fails alone: when a new stream with a fresh ID does not pass the checks, the client is
  sent a CloseStream with the reason, no stream and no handler is touched and the loop goes on; and every later
  frame for the refused ID is ignored.
\<close>

theorem refused_stream_isolated:
  assumes "srv_inv s" and "sv_loop s = SrvRunning" and "sv_lastSeen s < i" and "check_stream svcs closing s f = Inl e"
    and "serve_step L svcs closing (Inr (c2s i (ClientToServer_NewStream f))) s = Some s'"
  shows "s' = s\<lparr>sv_lastSeen := i, sv_jobs := sv_jobs s @ [[s2c i (ServerToClient_CloseStream
           \<lparr>ResponseTrailers = None, Status = Some (fst (FromError L e))\<rparr>)]]\<rparr>
    \<and> ((\<nexists>g. fr = Some (ClientToServer_NewStream g)) \<longrightarrow>
         serve_step L svcs closing' (Inr \<lparr>C2S_StreamId = i, C2S_Frame = fr\<rparr>) s' = Some s')"
proof -
  have new: "i \<notin> sv_streams s"
    using assms(1,3) by (fastforce simp: srv_inv_def srv_streams_ok_def)
  then have s': "s' = s\<lparr>sv_lastSeen := i, sv_jobs := sv_jobs s @ [[s2c i (ServerToClient_CloseStream
           \<lparr>ResponseTrailers = None, Status = Some (fst (FromError L e))\<rparr>)]]\<rparr>"
    using assms(2-5) by (simp add: serve_step_def createStream_def)
  then have "server_getStream i s' = Inr None"
    using new by (intro srv_registry.lookup_used) simp_all
  then have "(\<nexists>g. fr = Some (ClientToServer_NewStream g)) \<longrightarrow>
      serve_step L svcs closing' (Inr \<lparr>C2S_StreamId = i, C2S_Frame = fr\<rparr>) s' = Some s'"
    using assms(2) s' by (auto simp: serve_step_def split: option.splits ClientToServerFrame.splits)
  then show ?thesis using s' by simp
qed

theorem refused_stream_isolated_witness:
  "\<exists>s'. serve_step demo_lib demo_svcs False (Inr (c2s 4 (ClientToServer_NewStream (demo_open_frame ''/svc/none'' None)))) demo_srv
       = Some s' \<and> sv_lastSeen s' = 4
     \<and> serve_step demo_lib demo_svcs False (Inr \<lparr>C2S_StreamId = 4, C2S_Frame = Some ClientToServer_HalfClose\<rparr>) s' = Some s'"
proof -
  have c: "check_stream demo_svcs False demo_srv (demo_open_frame ''/svc/none'' None) = Inl (errNotImplemented ''svc/none'')"
    by (simp add: demo_srv_eval)
  have "\<exists>s'. serve_step demo_lib demo_svcs False (Inr (c2s 4 (ClientToServer_NewStream (demo_open_frame ''/svc/none'' None)))) demo_srv
      = Some s'"
    by (simp add: demo_srv_eval)
  then obtain s' where s': "serve_step demo_lib demo_svcs False
      (Inr (c2s 4 (ClientToServer_NewStream (demo_open_frame ''/svc/none'' None)))) demo_srv = Some s'" by blast
  have "sv_loop demo_srv = SrvRunning" "sv_lastSeen demo_srv < 4" by (simp_all add: demo_srv_def serveTunnel_def)
  from refused_stream_isolated [OF demo_srv_inv this c s', of "Some ClientToServer_HalfClose" False]
  have "sv_lastSeen s' = 4" "serve_step demo_lib demo_svcs False
      (Inr \<lparr>C2S_StreamId = 4, C2S_Frame = Some ClientToServer_HalfClose\<rparr>) s' = Some s'" by auto
  then show ?thesis using s' by blast
qed

text \<open>
  C27. Frames that no correct client sends end the tunnel: a new stream with an ID that is in use or was used before,
  and any other frame for an ID that was never announced. The loop returns an Internal error, and the contexts of
  all streams are done, so that their handlers end.
\<close>

theorem protocol_errors_end_tunnel:
  assumes "srv_inv s" and "sv_loop s = SrvRunning"
    and "(case C2S_Frame m of Some (ClientToServer_NewStream f) \<Rightarrow> C2S_StreamId m \<le> sv_lastSeen s
          | _ \<Rightarrow> sv_lastSeen s < C2S_StreamId m)"
    and "serve_step L svcs closing (Inr m) s = Some s'"
  shows "(\<exists>e. sv_loop s' = SrvReturned (Some e) \<and> error_code e = Some Internal) \<and> sv_ctx s' \<noteq> None
    \<and> sv_streams s' = sv_streams s \<and> (\<forall>i st. sv_heap s' i = Some st \<longrightarrow> ss_ctx st \<noteq> None)"
proof -
  have "\<exists>e. s' = serve_return (Some e) s \<and> error_code e = Some Internal"
  proof (cases "\<exists>f. C2S_Frame m = Some (ClientToServer_NewStream f)")
    case True
    then obtain f where f: "C2S_Frame m = Some (ClientToServer_NewStream f)" by blast
    then have "C2S_StreamId m \<le> sv_lastSeen s" using assms(3) by simp
    then show ?thesis
      using assms(2,4) f by (auto simp: serve_step_def createStream_def errExists_def errUsed_def split: if_splits)
  next
    case False
    then have lt: "sv_lastSeen s < C2S_StreamId m"
      using assms(3) by (auto split: option.splits ClientToServerFrame.splits)
    then have "C2S_StreamId m \<notin> sv_streams s"
      using assms(1) by (fastforce simp: srv_inv_def srv_streams_ok_def)
    then obtain e where "server_getStream (C2S_StreamId m) s = Inl e" "error_code e = Some Internal"
      using srv_registry.lookup_unknown [of "C2S_StreamId m" s] lt by auto
    then show ?thesis
      using assms(2,4) False by (auto simp: serve_step_def split: option.splits ClientToServerFrame.splits)
  qed
  then show ?thesis
    by (auto simp: serve_return_def)
qed

theorem protocol_errors_end_tunnel_witness:
  "\<exists>s s'. serve_step demo_lib demo_svcs False (Inr (c2s 3 (ClientToServer_NewStream (demo_open_frame ''/svc/s'' None)))) demo_srv = Some s
     \<and> serve_step demo_lib demo_svcs False (Inr (c2s 3 (ClientToServer_NewStream (demo_open_frame ''/svc/m'' None)))) s = Some s'
     \<and> (\<exists>e. sv_loop s' = SrvReturned (Some e) \<and> error_code e = Some Internal)
     \<and> (\<forall>i st. sv_heap s' i = Some st \<longrightarrow> ss_ctx st \<noteq> None)"
proof -
  let ?m = "c2s 3 (ClientToServer_NewStream (demo_open_frame ''/svc/m'' None))"
  have "\<exists>s s'. serve_step demo_lib demo_svcs False (Inr (c2s 3 (ClientToServer_NewStream (demo_open_frame ''/svc/s'' None)))) demo_srv = Some s
      \<and> sv_loop s = SrvRunning \<and> sv_lastSeen s = 3 \<and> serve_step demo_lib demo_svcs False (Inr ?m) s = Some s'"
    by (simp add: demo_srv_eval)
  then obtain s s' where s: "serve_step demo_lib demo_svcs False (Inr (c2s 3 (ClientToServer_NewStream (demo_open_frame ''/svc/s'' None)))) demo_srv = Some s"
      "sv_loop s = SrvRunning" "sv_lastSeen s = 3" "serve_step demo_lib demo_svcs False (Inr ?m) s = Some s'" by blast
  have "(case C2S_Frame ?m of Some (ClientToServer_NewStream f) \<Rightarrow> C2S_StreamId ?m \<le> sv_lastSeen s
          | _ \<Rightarrow> sv_lastSeen s < C2S_StreamId ?m)" using s(3) by simp
  from protocol_errors_end_tunnel [OF srv_inv_serve_step [OF demo_srv_inv s(1)] s(2) this s(4)] s show ?thesis by blast
qed

subsection \<open>Accepting streams\<close>

lemma split_slash_two:
  assumes "length (split_slash n) = 2"
  shows "n = split_slash n ! 0 @ ''/'' @ split_slash n ! 1 \<and> CHR ''/'' \<notin> set (split_slash n ! 0)"
proof -
  let ?P = "\<lambda>c. c \<noteq> CHR ''/''"
  have sl: "CHR ''/'' \<in> set n" using assms by (auto simp: split_slash_def split: if_splits)
  then have ne: "dropWhile ?P n \<noteq> []" by (auto simp: dropWhile_eq_Nil_conv)
  then have "hd (dropWhile ?P n) = CHR ''/''" using hd_dropWhile [OF ne] by simp
  then have "dropWhile ?P n = CHR ''/'' # tl (dropWhile ?P n)"
    using ne by (metis list.collapse)
  then have "n = takeWhile ?P n @ CHR ''/'' # tl (dropWhile ?P n)"
    by (metis takeWhile_dropWhile_id)
  then show ?thesis using sl by (auto simp: split_slash_def dest: set_takeWhileD)
qed



subsection \<open>The receive loop is never stuck\<close>

text \<open>
  A call of send comes to its end once its context is done, whatever the window: it sends what the window allows
  and returns when it would have to wait.
\<close>

lemma chunk_progress:
  assumes "sender_wf s" and "\<not> w < send_needed s d i" and "send_chunkSz s d i w \<noteq> u32_of_len d"
  shows "length (drop (unat (send_chunkSz s d i w)) d) < length d"
proof -
  have d: "u32_of_len d \<noteq> 0" using assms(3) by (auto simp: send_chunkSz_def)
  then have "d \<noteq> []" by (auto simp: u32_of_len_def)
  moreover have "0 < unat (send_chunkSz s d i w)"
  proof -
    have "0 < unat (u32_of_len d)" using d by (simp add: unat_gt_0)
    then have "unat (min (u32_of_len d) 1) = 1" by (simp add: unat_min_word)
    moreover have "unat (send_overhead s i) + 1 < 4294967296"
      using assms(1) by (auto simp: send_overhead_def sender_wf_def word_less_nat_alt)
    ultimately have "unat (send_overhead s i + min (u32_of_len d) 1) = unat (send_overhead s i) + 1"
      by (simp add: unat_add_no_wrap)
    then have lt: "unat (send_overhead s i) < unat w"
      using assms(2) by (simp add: send_needed_def not_less word_le_nat_alt unat_max_word)
    then have "unat (w - send_overhead s i) = unat w - unat (send_overhead s i)"
      by (intro unat_sub_no_wrap) (simp add: word_le_nat_alt)
    then show ?thesis
      using lt d assms(1) by (simp add: send_chunkSz_def unat_min_word sender_wf_def word_less_nat_alt unat_gt_0)
  qed
  ultimately show ?thesis by (cases d) auto
qed

lemma send_returns_load:
  assumes "sys_pc y = AtLoad d i" and "sender_wf (sys_sender y)" and "sys_ctx y = Some e"
  shows "\<exists>as z. list_all send_own as \<and> sys_run as y = Some z \<and> send_idle (sys_pc z)"
  using assms
proof (induction "length d" arbitrary: y d i rule: less_induct)
  case less
  let ?s = "sys_sender y" and ?w = "snd_currentWindow (sys_sender y)"
  show ?case
  proof (cases "?w < send_needed ?s d i")
    case True
    then have "sys_run [Load, CtxDone] y = Some (y\<lparr>sys_pc := Returned (Some e)\<rparr>)"
      using less.prems by (simp add: send_load_def)
    then show ?thesis by (intro exI [of _ "[Load, CtxDone]"]) auto
  next
    case False
    let ?c = "send_chunkSz ?s d i ?w"
    obtain z where z: "sys_run [Load, Cas, SendFunc None] y = Some z" "sys_ctx z = Some e" "sender_wf (sys_sender z)"
      "sys_pc z = (if ?c = u32_of_len d then Returned None else AtLoad (drop (unat ?c) d) (i + 1))"
      using less.prems False by (auto simp: send_load_def send_cas_def send_after_def Let_def sender_wf_def)
    show ?thesis
    proof (cases "?c = u32_of_len d")
      case True
      then show ?thesis using z by (intro exI [of _ "[Load, Cas, SendFunc None]"]) auto
    next
      case cont: False
      obtain as z' where "list_all send_own as" "sys_run as z = Some z'" "send_idle (sys_pc z')"
        using less.hyps [OF chunk_progress [OF less.prems(2) False cont] _ z(3,2)] z(4) cont by auto
      then show ?thesis
        using z(1) by (intro exI [of _ "[Load, Cas, SendFunc None] @ as"] exI [of _ z']) (simp only: sys_run_append, simp)
    qed
  qed
qed

lemma send_returns:
  assumes "sender_wf (sys_sender y)" and "sys_ctx y = Some e"
  shows "\<exists>as z. list_all send_own as \<and> sys_run as y = Some z \<and> send_idle (sys_pc z)"
proof -
  have step: "\<exists>as z. list_all send_own as \<and> sys_run as x = Some z \<and> send_idle (sys_pc z)"
    if "sys_do a x = Some x'" "send_own a" "list_all send_own as" "sys_run as x' = Some z" "send_idle (sys_pc z)" for a x x' as z
    using that by (intro exI [of _ "a # as"] exI [of _ z]) simp
  have sent: "\<exists>as z. list_all send_own as \<and> sys_run as x = Some z \<and> send_idle (sys_pc z)"
    if x: "sys_pc x = AtSend d i c" "sender_wf (sys_sender x)" "sys_ctx x = Some e" for x d i c
  proof -
    obtain x' where x': "sys_do (SendFunc None) x = Some x'" "sender_wf (sys_sender x')" "sys_ctx x' = Some e"
      "sys_pc x' = (if c = u32_of_len d then Returned None else AtLoad (drop (unat c) d) (i + 1))"
      using x by (auto simp: send_after_def)
    have "\<exists>as z. list_all send_own as \<and> sys_run as x' = Some z \<and> send_idle (sys_pc z)"
      using send_returns_load [OF _ x'(2,3)] x'(4) by (cases "c = u32_of_len d") (auto intro: exI [of _ "[]"])
    then show ?thesis using step [OF x'(1)] by auto
  qed
  show ?thesis
  proof (cases "sys_pc y")
    case (AtLoad d i)
    then show ?thesis by (rule send_returns_load [OF _ assms])
  next
    case (AtSelect d i)
    then show ?thesis using assms(2) by (intro exI [of _ "[CtxDone]"]) simp
  next
    case (AtCas d i w)
    obtain y' where y': "sys_do Cas y = Some y'" "sys_ctx y' = Some e"
      "(\<exists>c. sys_pc y' = AtSend d i c) \<or> sys_pc y' = AtLoad d i"
      using AtCas assms(2) by (cases "snd_currentWindow (sys_sender y) = w") (auto simp: send_cas_def Let_def)
    have wf: "sender_wf (sys_sender y')" using sys_do_wf [OF y'(1)] assms(1) by simp
    have "\<exists>as z. list_all send_own as \<and> sys_run as y' = Some z \<and> send_idle (sys_pc z)"
      using y'(3) sent [OF _ wf y'(2)] send_returns_load [OF _ wf y'(2)] by blast
    then show ?thesis using step [OF y'(1)] by auto
  next
    case (AtSend d i c)
    then show ?thesis by (rule sent [OF _ assms])
  qed (auto intro: exI [of _ "[]"])
qed

text \<open>The steps of such a call on a stream of the server do the same to the stream.\<close>

definition same_call :: "send_sys \<Rightarrow> tunnelServerStream \<Rightarrow> bool" where
  "same_call y st \<longleftrightarrow> sys_sender y = ss_sender st \<and> sys_pc y = ss_pc st \<and> sys_size y = ss_sendSize st \<and> sys_ctx y = ss_ctx st"

lemma same_call_step:
  assumes "same_call y st" and "send_own a" and "sys_do a y = Some z"
  shows "\<exists>st' fs. server_send_do a st = Some (st', fs) \<and> same_call z st'"
  using assms
  by (cases a) (auto simp: same_call_def server_send_do_def sys_init_def split: send_pc.splits option.splits if_splits prod.splits)

lemma same_call_run:
  assumes "sv_heap s i = Some st" and "same_call y st" and "list_all send_own as" and "sys_run as y = Some z"
  shows "\<exists>s' st'. srv_run L svcs (map (SSend i) as) s = Some s' \<and> sv_heap s' i = Some st' \<and> same_call z st'
    \<and> sv_loop s' = sv_loop s"
  using assms
proof (induction as arbitrary: s st y)
  case (Cons a as)
  obtain y' where y': "sys_do a y = Some y'" "sys_run as y' = Some z"
    using Cons.prems(4) by (auto split: option.splits)
  obtain st' fs where st': "server_send_do a st = Some (st', fs)" "same_call y' st'"
    using same_call_step [OF Cons.prems(2) _ y'(1)] Cons.prems(3) by auto
  let ?s = "(put_server i st' s)\<lparr>sv_sent := sv_sent s @ map (s2c i) fs\<rparr>"
  have "srv_do L svcs (SSend i a) s = Some ?s"
    using Cons.prems(1,3) st'(1) by (simp add: server_stream_send_do_def)
  then show ?case
    using Cons.IH [of ?s st' y'] Cons.prems(3) st'(2) y'(2) by simp
qed auto

lemma srv_run_append: "srv_run L svcs (as @ bs) s = (case srv_run L svcs as s of None \<Rightarrow> None | Some s' \<Rightarrow> srv_run L svcs bs s')"
  by (induction as arbitrary: s) (auto split: option.splits)

lemma srv_inv_stream:
  "srv_inv s \<Longrightarrow> sv_heap s i = Some st \<Longrightarrow> server_stream_ok (srv_window s) st \<and> (i \<notin> sv_streams s \<longrightarrow> ended st)"
  by (simp add: srv_inv_def srv_streams_ok_def)

text \<open>
  C29. The receive loop is never stuck in finishing a stream: when it waits for the mutex that a handler's SendMsg
  holds, that call of send comes to its end by its own steps, since the context of the stream is cancelled first,
  and the loop then goes on; it needs no window update and no other frame, which only the loop could receive.
\<close>

theorem receive_loop_not_stuck:
  assumes "srv_reach L svcs (serveTunnel x b r opts) s" and "opts_wf opts" and "sv_loop s = SrvFinishing i err"
  shows "\<exists>as s'. list_all send_own as \<and> srv_run L svcs (map (SSend i) as @ [SResume]) s = Some s'
    \<and> sv_loop s' = SrvRunning"
proof -
  have inv: "srv_inv s" by (rule srv_reach_inv [OF assms(1,2)])
  have pend: "i \<notin> sv_streams s \<and> sv_heap s i \<noteq> None"
    by (rule pendingD [OF inv, of i err]) (simp add: pending_def assms(3))
  then obtain st where h: "sv_heap s i = Some st" by blast
  then obtain e where st: "sv_heap s i = Some st" "ss_ctx st = Some e" "sender_wf (ss_sender st)"
    using srv_inv_stream [OF inv h] pend by (auto simp: ended_def server_stream_ok_def)
  let ?y = "(sys_init (ss_sender st))\<lparr>sys_pc := ss_pc st, sys_size := ss_sendSize st, sys_ctx := ss_ctx st\<rparr>"
  obtain as z where as: "list_all send_own as" "sys_run as ?y = Some z" "send_idle (sys_pc z)"
    using send_returns [of ?y e] st by (auto simp: sys_init_def)
  have same: "same_call ?y st" by (simp add: same_call_def sys_init_def)
  obtain s' st' where s': "srv_run L svcs (map (SSend i) as) s = Some s'" "sv_heap s' i = Some st'" "same_call z st'"
    "sv_loop s' = sv_loop s"
    using same_call_run [OF st(1) same as(1,2)] by blast
  then have "send_idle (ss_pc st')" using as(3) by (simp add: same_call_def)
  then have "\<exists>s''. serve_resume L s' = Some s'' \<and> sv_loop s'' = SrvRunning"
    using s'(2,4) assms(3) by (auto simp: serve_resume_def srv_finish_locked_def finish_locked_def Let_def)
  then show ?thesis
    using as(1) s'(1) by (auto simp: srv_run_append intro!: exI [of _ as])
qed

theorem receive_loop_not_stuck_witness:
  "\<exists>s as s'. srv_run demo_lib demo_svcs [SRecv False (Inr (c2s 0 (ClientToServer_NewStream (demo_open_frame ''/svc/s'' None)))),
       SSendMsg 0 (Inr (replicate 5 1)) None, SRecv False (Inr (c2s 0 ClientToServer_Cancel))] demo_srv = Some s
     \<and> serve_resume demo_lib s = None
     \<and> srv_run demo_lib demo_svcs (map (SSend 0) as @ [SResume]) s = Some s' \<and> sv_loop s' = SrvRunning"
proof -
  let ?run = "srv_run demo_lib demo_svcs [SRecv False (Inr (c2s 0 (ClientToServer_NewStream (demo_open_frame ''/svc/s'' None)))),
       SSendMsg 0 (Inr (replicate 5 1)) None, SRecv False (Inr (c2s 0 ClientToServer_Cancel))] demo_srv"
  have "\<exists>s. ?run = Some s \<and> sv_loop s = SrvFinishing 0 (Some CtxCanceled) \<and> serve_resume demo_lib s = None"
    by (simp add: demo_srv_eval server_stream_send_def server_SendMsg_def sendHeadersLocked_def put_server_def send_begin_def
        MaxUint32_def server_getStream_def acceptClientFrame_def loop_finish_def srv_finish_begin_def finish_begin_def
        halfClose_def server_removeStream_def serve_resume_def srv_finish_locked_def finish_locked_def)
  then obtain s where s: "?run = Some s" "sv_loop s = SrvFinishing 0 (Some CtxCanceled)" "serve_resume demo_lib s = None"
    by blast
  have "srv_reach demo_lib demo_svcs demo_srv s"
    by (rule srv_reach_run [OF srv_reach.srv_start s(1)])
  from receive_loop_not_stuck [OF this [unfolded demo_srv_def] demo_opts_wf s(2)] s(1,3) show ?thesis by blast
qed

subsection \<open>Timeouts\<close>

lemma is_digit_not_sign: "is_digit c \<Longrightarrow> c \<noteq> CHR ''-'' \<and> c \<noteq> CHR ''+''"
  by (auto simp: is_digit_def)

lemma digits_val_snoc: "digits_val (s @ [c]) = 10 * digits_val s + (of_char c - 48)"
  by (simp add: digits_val_def)

lemma is_digit_int: "is_digit c \<Longrightarrow> (0 :: int) \<le> of_char c - 48 \<and> (of_char c :: int) - 48 \<le> 9"
  using of_nat_of_char [where 'a = int, of c] unfolding is_digit_def by linarith

lemma digits_val_bounds: "list_all is_digit s \<Longrightarrow> 0 \<le> digits_val s \<and> digits_val s < 10 ^ length s"
proof (induction s rule: rev_induct)
  case Nil
  then show ?case by (simp add: digits_val_def)
next
  case (snoc c s)
  then show ?case
    using is_digit_int [of c] by (simp add: digits_val_snoc)
qed

lemma Atoi_digits:
  assumes "ds \<noteq> []" and "list_all is_digit ds" and "digits_val ds < 2 ^ 63"
  shows "Atoi ds = Some (digits_val ds)"
proof -
  obtain c cs where ds: "ds = c # cs" using assms(1) by (cases ds) auto
  then have "c \<noteq> CHR ''-''" "c \<noteq> CHR ''+''" using assms(2) is_digit_not_sign [of c] by auto
  then show ?thesis
    using assms digits_val_bounds [OF assms(2)] by (simp add: Atoi_def ds)
qed

lemma timeout_value:
  assumes "md_Get L h ''grpc-timeout'' = vs @ [ds @ [u]]" and "ds \<noteq> []" and "list_all is_digit ds"
    and "digits_val ds < 2 ^ 63" and "timeout_unit u = Some k"
  shows "timeoutFromHeaders L h = Some (i64_wrap (digits_val ds * k))"
  using assms by (cases ds) (simp_all add: timeoutFromHeaders_def Let_def Atoi_digits)

text \<open>
  C30. The deadline of a stream: a grpc-timeout header of at most eight digits and a unit, which is what the protocol
  allows, gives exactly that many nanoseconds, for every unit but hours and for hours up to 2562047; the last
  value of the header counts.
\<close>

theorem timeout_exact:
  assumes "md_Get L h ''grpc-timeout'' = vs @ [ds @ [u]]" and "ds \<noteq> []" and "list_all is_digit ds"
    and "length ds \<le> 8" and "timeout_unit u = Some k" and "u = CHR ''H'' \<longrightarrow> digits_val ds \<le> 2562047"
  shows "timeoutFromHeaders L h = Some (digits_val ds * k) \<and> 0 \<le> digits_val ds * k"
proof -
  have "(10 :: int) ^ length ds \<le> 10 ^ 8" using assms(4) by (intro power_increasing) simp_all
  then have v: "0 \<le> digits_val ds" "digits_val ds < 10 ^ 8"
    using digits_val_bounds [OF assms(3)] by linarith+
  have k: "0 < k" "u \<noteq> CHR ''H'' \<Longrightarrow> k \<le> 60000000000" "u = CHR ''H'' \<Longrightarrow> k = 3600000000000"
    using assms(5) by (auto simp: timeout_unit_def split: if_splits)
  have "digits_val ds * k < 2 ^ 63"
  proof (cases "u = CHR ''H''")
    case True
    then show ?thesis using k(3) assms(6) by simp
  next
    case False
    have "digits_val ds * k \<le> 10 ^ 8 * 60000000000"
      using v k(1) k(2) [OF False] by (intro mult_mono) simp_all
    then show ?thesis by simp
  qed
  moreover have "0 \<le> digits_val ds * k" using v k(1) by simp
  ultimately show ?thesis
    using timeout_value [OF assms(1-3) _ assms(5)] v by (simp add: i64_wrap_id)
qed

theorem timeout_exact_witness:
  "timeoutFromHeaders demo_lib (Some [''grpc-timeout'' \<mapsto> [''1n'', ''25m'']]) = Some 25000000"
proof -
  have "md_Get demo_lib (Some [''grpc-timeout'' \<mapsto> [''1n'', ''25m'']]) ''grpc-timeout'' = [''1n''] @ [''25'' @ [CHR ''m'']]"
    by (simp add: demo_lib_def md_entries_def)
  from timeout_exact [OF this, of 1000000] show ?thesis
    by (simp add: is_digit_def digits_val_def timeout_unit_def)
qed



subsection \<open>Reading requests\<close>

lemma server_readLocked_genuine:
  assumes "server_stream_ok W st" and "ss_ctx st = None"
    and "server_readMsgLocked None st = (RdRet (x, ok, None), st', us)"
  shows "\<exists>cs rest. rcv_items (ss_receiver st) = map (\<lambda>(x, n, b). client_sendData x n b) cs @ rest \<and> cs \<noteq> []
    \<and> x = concat (map fst cs) \<and> map (snd \<circ> snd) cs = True # replicate (length cs - 1) False
    \<and> unat (fst (snd (hd cs))) = length x"
proof -
  obtain r where lp: "server_read_loop None (ss_halfClosed st) True (-1) [] (ss_receiver st) = (RdRet (x, ok, None), r, us)"
    using assms(2,3) by (auto simp: server_readMsgLocked_def Let_def split: if_splits prod.splits read_res.splits option.splits)
  have "ss_halfClosed st \<noteq> None \<or> \<not> rcv_closed (ss_receiver st) \<and> \<not> rcv_cancelled (ss_receiver st)"
    using assms(1,2) by (auto simp: server_stream_ok_def)
  from server_reader.loop_genuine [OF lp this] obtain cs where cs: "rcv_items (ss_receiver st) = req.frames cs @ rcv_items r"
    "cs \<noteq> []" "x = concat (map fst cs)" "snd (snd (hd cs))" "unat (fst (snd (hd cs))) = length x"
    "\<forall>c\<in>set (tl cs). \<not> snd (snd c)"
    by auto
  then show ?thesis
    by (intro exI [of _ cs] exI [of _ "rcv_items r"], cases cs) (simp_all add: req.frames_def not_first_marks)
qed

lemma server_readLocked_err:
  "server_readMsgLocked e st = (RdRet (x, ok, Some er), st', us) \<Longrightarrow> ss_readErr st' = Some er"
  by (auto simp: server_readMsgLocked_def Let_def split: if_splits prod.splits read_res.splits option.splits)

lemma server_readSecond_data:
  "server_readSecond d0 e st = (SrvRet (d, ok, None), st', us) \<Longrightarrow> d = d0 \<and> ss_readErr st' = Some EOF"
  by (auto simp: server_readSecond_def Let_def dest: server_readLocked_err
      split: prod.splits read_res.splits option.splits if_splits)

lemma server_readMsg_data:
  assumes "server_readMsg None st = (SrvRet (d, ok, None), st', us)"
  obtains ok' st1 us' where "server_readMsgLocked None st = (RdRet (d, ok', None), st1, us')"
    "ss_isClientStream st \<or> ss_readErr st' = Some EOF"
  using assms
  by (auto simp: server_readMsg_def server_readFirst_def dest: server_readSecond_data
      split: prod.splits read_res.splits if_splits)

text \<open>
  The server's reader hands out only what the client sent: when a fresh RecvMsg of a handler, on a stream whose context is
  not done, returns data, the frames at the head of the queue are the chunks of exactly that message; and when
  the method takes a single request, the reader has also seen the end of the requests.
\<close>

lemma server_reads_genuine:
  assumes "srv_inv s" and "sv_heap s i = Some st" and "ss_ctx st = None"
    and "server_stream_RecvMsg None i s = Some (SrvData d, s')"
  shows "\<exists>cs rest st'. rcv_items (ss_receiver st) = map (\<lambda>(x, n, b). client_sendData x n b) cs @ rest \<and> cs \<noteq> []
    \<and> d = concat (map fst cs) \<and> map (snd \<circ> snd) cs = True # replicate (length cs - 1) False
    \<and> unat (fst (snd (hd cs))) = length d
    \<and> sv_heap s' i = Some st' \<and> (ss_isClientStream st \<or> ss_readErr st' = Some EOF)"
proof -
  obtain res st' us where rd: "server_readMsg None st = (res, st', us)" by (metis prod_cases3)
  have res: "\<exists>ok. res = SrvRet (d, ok, None)" and s': "sv_heap s' i = Some st'"
    using assms(2,4) rd by (auto simp: server_stream_RecvMsg_def Let_def split: srv_res.splits option.splits if_splits)
  then obtain ok where rd': "server_readMsg None st = (SrvRet (d, ok, None), st', us)"
    using rd by blast
  obtain ok' st1 us' where "server_readMsgLocked None st = (RdRet (d, ok', None), st1, us')"
    and e: "ss_isClientStream st \<or> ss_readErr st' = Some EOF"
    by (rule server_readMsg_data [OF rd'])
  from server_readLocked_genuine [OF conjunct1 [OF srv_inv_stream [OF assms(1,2)]] assms(3) this(1)] s' e show ?thesis
    by (elim exE conjE) (intro exI conjI, assumption+)
qed

lemmas demo_read_eval =
  demo_srv_eval server_getStream_def acceptClientFrame_def server_accept_data_def accept_def charge_def newReceiver_def
  demo_opts_def put_server_def client_sendData_def halfClose_def halfClose_err_def close_receiver_def handleClosure_def
  server_stream_RecvMsg_def server_readMsg_def server_readFirst_def server_readSecond_def server_readMsgLocked_def
  server_read_loop.simps dequeue_def ack_due_def then_read_def acked_def server_sendUpdates_def



end
