(* ===== verification/Reverse_Channels.thy ===== *)
theory Reverse_Channels
  imports Prelude
begin

text \<open>
  \<^verbatim>\<open>reverseChannels\<close> of \<^verbatim>\<open>handler.go\<close>: the reverse tunnels that are available, picked in turn. Channels are
  numbers. The Go channel \<^verbatim>\<open>avail\<close> is replaced whenever the last tunnel goes, and a waiter keeps the one it
  read, so each is a number and \<open>rc_closed\<close> holds those that have been closed. Closing one twice
  would be a panic; \<open>add\<close> returns \<open>None\<close> for it.
\<close>

record ('c, 'k) reverseChannels =
  rc_avail :: nat
  rc_closed :: "nat set"
  rc_chans :: "('c \<times> 'k) list"
  rc_idx :: nat

definition newReverseChannels :: "('c, 'k) reverseChannels" where
  "newReverseChannels = \<lparr>rc_avail = 0, rc_closed = {}, rc_chans = [], rc_idx = 0\<rparr>"

definition allChans :: "('c, 'k) reverseChannels \<Rightarrow> 'c list" where
  "allChans c = map fst (rc_chans c)"

definition pick :: "('c, 'k) reverseChannels \<Rightarrow> 'c option \<times> ('c, 'k) reverseChannels" where
  "pick c =
     (if rc_chans c = [] then (None, c)
      else let idx = (if rc_idx c + 1 \<ge> length (rc_chans c) then 0 else rc_idx c + 1)
           in (Some (fst (rc_chans c ! idx)), c\<lparr>rc_idx := idx\<rparr>))"

definition add :: "'c \<Rightarrow> 'k \<Rightarrow> ('c, 'k) reverseChannels \<Rightarrow> ('c, 'k) reverseChannels option" where
  "add ch key c =
     (let c' = c\<lparr>rc_chans := rc_chans c @ [(ch, key)]\<rparr>
      in if length (rc_chans c') = 1
         then (if rc_avail c \<in> rc_closed c then None
               else Some (c'\<lparr>rc_closed := insert (rc_avail c) (rc_closed c)\<rparr>))
         else Some c')"

fun remove_first :: "'c \<Rightarrow> ('c \<times> 'k) list \<Rightarrow> ('k \<times> ('c \<times> 'k) list) option" where
  "remove_first ch [] = None"
| "remove_first ch ((c, k) # es) =
     (if c = ch then Some (k, es)
      else map_option (\<lambda>(k', es'). (k', (c, k) # es')) (remove_first ch es))"

definition remove :: "'c \<Rightarrow> ('c, 'k) reverseChannels \<Rightarrow> 'k option \<times> ('c, 'k) reverseChannels" where
  "remove ch c =
     (case remove_first ch (rc_chans c) of
        None \<Rightarrow> (None, c)
      | Some (key, es) \<Rightarrow>
          (Some key, if es = [] then c\<lparr>rc_chans := es, rc_avail := rc_avail c + 1\<rparr>
                     else c\<lparr>rc_chans := es\<rparr>))"

definition ready :: "('c, 'k) reverseChannels \<Rightarrow> bool" where
  "ready c \<longleftrightarrow> rc_chans c \<noteq> []"

text \<open>
  \<^verbatim>\<open>waitForReady\<close> reads \<^verbatim>\<open>avail\<close>, then waits for it or the context: \<open>None\<close> while it waits.
\<close>

definition waitForReady_begin :: "('c, 'k) reverseChannels \<Rightarrow> nat" where
  "waitForReady_begin c = rc_avail c"

definition waitForReady_end :: "nat \<Rightarrow> ctx \<Rightarrow> ('c, 'k) reverseChannels \<Rightarrow> gerror option option" where
  "waitForReady_end avail cx c =
     (if avail \<in> rc_closed c then Some None
      else case cx of None \<Rightarrow> None | Some e \<Rightarrow> Some (Some e))"

lemmas reverse_channel_ops [go_defs] = allChans_def pick_def add_def remove_def ready_def

subsection \<open>Invariant\<close>

text \<open>The current \<^verbatim>\<open>avail\<close> is closed exactly when there is a channel; the earlier ones are all closed.\<close>

definition rc_inv :: "('c, 'k) reverseChannels \<Rightarrow> bool" where
  "rc_inv c \<longleftrightarrow> rc_closed c = (if rc_chans c = [] then {..<rc_avail c} else {..rc_avail c})"

lemma rc_inv_new: "rc_inv newReverseChannels"
  by (simp add: rc_inv_def newReverseChannels_def)

lemma rc_inv_pick: "rc_inv c \<Longrightarrow> rc_inv (snd (pick c))"
  by (simp add: rc_inv_def pick_def Let_def)

lemma rc_inv_add:
  assumes "rc_inv c"
  shows "\<exists>c'. add ch key c = Some c' \<and> rc_inv c' \<and> rc_chans c' = rc_chans c @ [(ch, key)]
    \<and> rc_idx c' = rc_idx c"
  using assms by (auto simp: add_def rc_inv_def Let_def lessThan_Suc_atMost [symmetric] lessThan_Suc)

lemma remove_first_Some:
  "remove_first ch es = Some (k, es') \<Longrightarrow>
     \<exists>as bs. es = as @ (ch, k) # bs \<and> es' = as @ bs \<and> ch \<notin> fst ` set as"
proof (induction es arbitrary: es')
  case (Cons e es)
  obtain c k0 where e: "e = (c, k0)" by (cases e)
  show ?case
  proof (cases "c = ch")
    case True
    then show ?thesis using Cons.prems by (auto simp: e intro: exI [of _ "[]"])
  next
    case False
    then obtain es1 where "remove_first ch es = Some (k, es1)" "es' = (c, k0) # es1"
      using Cons.prems by (auto simp: e)
    then obtain as bs where "es = as @ (ch, k) # bs" "es1 = as @ bs" "ch \<notin> fst ` set as"
      using Cons.IH by blast
    then show ?thesis
      using False \<open>es' = (c, k0) # es1\<close> by (auto simp: e intro: exI [of _ "(c, k0) # as"])
  qed
qed simp

lemma remove_first_None: "remove_first ch es = None \<longleftrightarrow> ch \<notin> fst ` set es"
  by (induction es) (auto split: if_splits)

lemma rc_inv_remove: "rc_inv c \<Longrightarrow> rc_inv (snd (remove ch c))"
  by (auto simp: remove_def rc_inv_def lessThan_Suc_atMost dest!: remove_first_Some split: option.splits)

lemma remove_chans:
  assumes "distinct (map fst (rc_chans c))"
  shows "rc_chans (snd (remove ch c)) = filter (\<lambda>e. fst e \<noteq> ch) (rc_chans c)"
proof (cases "remove_first ch (rc_chans c)")
  case None
  then have "filter (\<lambda>e. fst e \<noteq> ch) (rc_chans c) = rc_chans c"
    by (auto simp: remove_first_None filter_id_conv)
  then show ?thesis using None by (simp add: remove_def)
next
  case (Some ke)
  obtain key es where ke: "ke = (key, es)" by (cases ke)
  obtain as bs where ab: "rc_chans c = as @ (ch, key) # bs" "es = as @ bs"
    using remove_first_Some [OF Some [unfolded ke]] by blast
  have "filter (\<lambda>e. fst e \<noteq> ch) as = as" "filter (\<lambda>e. fst e \<noteq> ch) bs = bs"
    using assms ab(1) by (force simp: filter_id_conv)+
  then show ?thesis
    using Some ab by (simp add: remove_def ke)
qed

lemma remove_reports: "fst (remove ch c) = None \<longleftrightarrow> ch \<notin> set (allChans c)"
  by (auto simp: remove_def allChans_def remove_first_None split: option.splits)
     (metis fst_conv image_eqI option.distinct(1) remove_first_None)

subsection \<open>Waiting\<close>

text \<open>
  Operations on the set; the waiter that began with \<open>rc_avail\<close> is woken by any \<open>add\<close> that follows.
\<close>

datatype ('c, 'k) rc_op = RcPick | RcAdd 'c 'k | RcRemove 'c

fun rc_step :: "('c, 'k) rc_op \<Rightarrow> ('c, 'k) reverseChannels \<Rightarrow> ('c, 'k) reverseChannels" where
  "rc_step RcPick c = snd (pick c)"
| "rc_step (RcAdd ch k) c = (case add ch k c of None \<Rightarrow> c | Some c' \<Rightarrow> c')"
| "rc_step (RcRemove ch) c = snd (remove ch c)"

lemma rc_inv_step: "rc_inv c \<Longrightarrow> rc_inv (rc_step x c)"
proof (cases x)
  case (RcAdd ch k)
  assume "rc_inv c"
  then obtain c' where "add ch k c = Some c'" "rc_inv c'" using rc_inv_add [of c ch k] by blast
  then show ?thesis by (simp add: RcAdd)
qed (simp_all add: rc_inv_pick rc_inv_remove)

lemma rc_closed_mono: "rc_closed c \<subseteq> rc_closed (rc_step x c)"
  by (cases x) (auto simp: pick_def add_def remove_def Let_def split: option.splits)

lemma rc_closed_fold: "rc_closed c \<subseteq> rc_closed (fold rc_step xs c)"
proof (induction xs arbitrary: c)
  case (Cons x xs)
  show ?case using rc_closed_mono [of c x] Cons.IH [of "rc_step x c"] by simp
qed simp

lemma rc_inv_fold: "rc_inv c \<Longrightarrow> rc_inv (fold rc_step xs c)"
  by (induction xs arbitrary: c) (simp_all add: rc_inv_step)

lemma avail_closed_by_add:
  assumes "rc_inv c"
  shows "rc_avail c \<in> rc_closed (rc_step (RcAdd ch k) c)"
  using assms by (auto simp: add_def Let_def rc_inv_def split: option.splits if_splits)

subsection \<open>Picking in turn\<close>

fun picks :: "nat \<Rightarrow> ('c, 'k) reverseChannels \<Rightarrow> 'c option list" where
  "picks 0 c = []"
| "picks (Suc n) c = (case pick c of (ch, c') \<Rightarrow> ch # picks n c')"

text \<open>The index the next \<open>pick\<close> uses.\<close>

definition next_idx :: "('c, 'k) reverseChannels \<Rightarrow> nat" where
  "next_idx c = (if rc_idx c + 1 \<ge> length (rc_chans c) then 0 else rc_idx c + 1)"

lemma pick_next:
  "rc_chans c \<noteq> [] \<Longrightarrow> pick c = (Some (allChans c ! next_idx c), c\<lparr>rc_idx := next_idx c\<rparr>)"
  by (simp add: pick_def Let_def next_idx_def allChans_def)

lemma next_idx_pick:
  assumes "rc_chans c \<noteq> []"
  shows "next_idx (c\<lparr>rc_idx := next_idx c\<rparr>) = (next_idx c + 1) mod length (rc_chans c)"
proof -
  have "next_idx c < length (rc_chans c)"
    using assms by (cases "rc_chans c") (auto simp: next_idx_def)
  then show ?thesis
    unfolding next_idx_def [of "c\<lparr>rc_idx := next_idx c\<rparr>"] by (cases "next_idx c + 1 = length (rc_chans c)") simp_all
qed

lemma picks_nth:
  assumes "rc_chans c \<noteq> []"
  shows "picks m c = map (\<lambda>j. Some (allChans c ! ((next_idx c + j) mod length (rc_chans c)))) [0..<m]"
  using assms
proof (induction m arbitrary: c)
  case (Suc m)
  let ?n = "length (rc_chans c)"
  have lt: "next_idx c < ?n"
    using Suc.prems by (cases "rc_chans c") (auto simp: next_idx_def)
  have "picks m (c\<lparr>rc_idx := next_idx c\<rparr>) =
      map (\<lambda>j. Some (allChans c ! (((next_idx c + 1) mod ?n + j) mod ?n))) [0..<m]"
    using Suc.IH [of "c\<lparr>rc_idx := next_idx c\<rparr>"] Suc.prems by (simp add: next_idx_pick allChans_def)
  then have "picks m (c\<lparr>rc_idx := next_idx c\<rparr>) =
      map (\<lambda>j. Some (allChans c ! ((next_idx c + j) mod ?n))) (map Suc [0..<m])"
    by (simp add: mod_add_left_eq comp_def)
  then show ?case
    using Suc.prems lt by (simp add: pick_next map_Suc_upt upt_conv_Cons del: upt_Suc)
qed simp

lemma picks_rotate: "rc_chans c \<noteq> [] \<Longrightarrow>
    picks (length (rc_chans c)) c = map Some (rotate (next_idx c) (allChans c))"
  by (rule nth_equalityI) (simp_all add: picks_nth nth_rotate allChans_def)

end
