(* ===== verification/Handler.thy ===== *)
theory Handler
  imports Contracts Options Reverse_Channels Tunnel_Server
begin

text \<open>
  \<^verbatim>\<open>TunnelServiceHandler\<close> of \<^verbatim>\<open>handler.go\<close>: forward tunnels, the registry of reverse tunnels by affinity key,
  and the channels that balance RPCs over them. Reverse tunnels are numbers; a key is \<open>None\<close> for the
  nil interface. A call of \<^verbatim>\<open>openReverseTunnel\<close> is cut at its locks (\<open>ort_pc\<close>), and so is
  \<^verbatim>\<open>unregister\<close>, which a tunnel that closes calls from another goroutine: \<open>handler_do\<close> performs one step.
\<close>

subsection \<open>State\<close>

text \<open>Where the call of \<^verbatim>\<open>openReverseTunnel\<close> for a tunnel stands, with the key once it is known.\<close>

datatype 'k ort_pc =
    OrtNone
  | OrtWaiting
  | OrtAdd "'k option"
  | OrtLookup "'k option"
  | OrtKeyAdd "'k option"
  | OrtConnect "'k option"
  | OrtAwait "'k option"
  | OrtDisconnect "'k option"
  | OrtRemoveKey "'k option"
  | OrtRemove "'k option"
  | OrtClose
  | OrtReturned

record 'k TunnelServiceHandler =
  h_handlers :: "(string \<times> ServiceDesc) list"
  h_noReverseTunnels :: bool
  h_onReverseTunnelConnect :: bool
  h_onReverseTunnelDisconnect :: bool
  h_affinityKey :: "(nat \<Rightarrow> 'k option) option"
  h_tunnelOpts :: tunnelOpts
  h_stopping :: bool
  h_reverse :: "(nat, 'k option) reverseChannels"
  h_reverseByKey :: "'k option \<rightharpoonup> (nat, 'k option) reverseChannels"
  h_calls :: "nat \<Rightarrow> 'k ort_pc"
  h_done :: "nat set"
  h_torn :: "nat set"
  h_unregistering :: "(nat \<times> 'k option) list"
  h_connected :: "nat list"
  h_disconnected :: "nat list"

record 'k TunnelServiceHandlerOptions =
  NoReverseTunnels :: bool
  OnReverseTunnelOpen :: bool
  OnReverseTunnelClose :: bool
  AffinityKey :: "(nat \<Rightarrow> 'k option) option"
  InitialWindowSize :: u32
  MaxChunkSize :: u32
  MinWindowUpdateSize :: u32
  EstablishmentTimeout :: i64

definition NewTunnelServiceHandler :: "'k TunnelServiceHandlerOptions \<Rightarrow> 'k TunnelServiceHandler" where
  "NewTunnelServiceHandler options =
     \<lparr>h_handlers = [], h_noReverseTunnels = NoReverseTunnels options,
      h_onReverseTunnelConnect = OnReverseTunnelOpen options,
      h_onReverseTunnelDisconnect = OnReverseTunnelClose options,
      h_affinityKey = AffinityKey options,
      h_tunnelOpts = initOptions
        \<lparr>initialWindowSize = InitialWindowSize options, maxChunkSize = MaxChunkSize options,
         minWindowUpdateSize = MinWindowUpdateSize options,
         establishmentTimeout = EstablishmentTimeout options\<rparr> [],
      h_stopping = False, h_reverse = newReverseChannels, h_reverseByKey = Map.empty,
      h_calls = (\<lambda>_. OrtNone), h_done = {}, h_torn = {}, h_unregistering = [], h_connected = [],
      h_disconnected = []\<rparr>"

subsection \<open>Forward tunnels\<close>

text \<open>Whether the peer takes part in negotiation: the value of the header it sent.\<close>

definition negotiates :: "string list \<Rightarrow> bool" where
  "negotiates vals \<longleftrightarrow> vals \<noteq> [] \<and> vals ! 0 = ''on''"

definition grpctunnelNegotiateKey :: string where
  "grpctunnelNegotiateKey = ''grpctunnel-negotiate''"

definition openTunnel :: "grpc_lib \<Rightarrow> ctx \<Rightarrow> MD \<Rightarrow> 'k TunnelServiceHandler \<Rightarrow> gerror + tunnelServer" where
  "openTunnel L streamCtx md h =
     (if h_handlers h = [] then Inl (Errorf Unimplemented ''forward tunnels not supported'' [])
      else let clientAcceptsSettings = negotiates (md_Get L md grpctunnelNegotiateKey)
           in Inr (serveTunnel streamCtx clientAcceptsSettings False (h_tunnelOpts h)))"

definition InitiateShutdown :: "'k TunnelServiceHandler \<Rightarrow> 'k TunnelServiceHandler" where
  "InitiateShutdown h = h\<lparr>h_stopping := True\<rparr>"

subsection \<open>Reverse tunnels\<close>

definition reverseChannelsForKey :: "'k option \<Rightarrow> 'k TunnelServiceHandler \<Rightarrow> 'k TunnelServiceHandler" where
  "reverseChannelsForKey key h =
     (case h_reverseByKey h key of
        None \<Rightarrow> h\<lparr>h_reverseByKey := (h_reverseByKey h)(key \<mapsto> newReverseChannels)\<rparr>
      | Some rc \<Rightarrow> h)"

definition set_pc :: "nat \<Rightarrow> 'k ort_pc \<Rightarrow> 'k TunnelServiceHandler \<Rightarrow> 'k TunnelServiceHandler" where
  "set_pc ch pc h = h\<lparr>h_calls := (h_calls h)(ch := pc)\<rparr>"

text \<open>\<^verbatim>\<open>unregister\<close>: removal from the table of all tunnels, then from that of its key.\<close>

definition unregister_all :: "nat \<Rightarrow> 'k TunnelServiceHandler \<Rightarrow> 'k TunnelServiceHandler" where
  "unregister_all ch h =
     (case remove ch (h_reverse h) of
        (None, rc) \<Rightarrow> h\<lparr>h_torn := insert ch (h_torn h)\<rparr>
      | (Some key, rc) \<Rightarrow>
          h\<lparr>h_reverse := rc, h_torn := insert ch (h_torn h),
            h_unregistering := h_unregistering h @ [(ch, key)]\<rparr>)"

definition remove_key :: "nat \<Rightarrow> 'k option \<Rightarrow> 'k TunnelServiceHandler \<Rightarrow> 'k TunnelServiceHandler" where
  "remove_key ch key h =
     (case h_reverseByKey h key of
        None \<Rightarrow> h
      | Some rc \<Rightarrow> h\<lparr>h_reverseByKey := (h_reverseByKey h)(key \<mapsto> snd (remove ch rc))\<rparr>)"

definition unregister_key :: "'k TunnelServiceHandler \<Rightarrow> 'k TunnelServiceHandler option" where
  "unregister_key h =
     (case h_unregistering h of
        [] \<Rightarrow> None
      | (ch, key) # us \<Rightarrow> Some ((remove_key ch key h)\<lparr>h_unregistering := us\<rparr>))"

text \<open>
  The next step of \<^verbatim>\<open>openReverseTunnel\<close> for the tunnel \<open>ch\<close>. \<^verbatim>\<open>newReverseChannel\<close> returns once the settings
  are there or the tunnel is done; \<^verbatim>\<open>ch.Close()\<close> is deferred first, so it runs last, through
  \<^verbatim>\<open>unregister\<close>. A panic of \<^verbatim>\<open>add\<close> would leave the call where it is (\<open>None\<close>).
\<close>

definition ort_step :: "nat \<Rightarrow> bool \<Rightarrow> 'k TunnelServiceHandler \<Rightarrow> 'k TunnelServiceHandler option" where
  "ort_step ch settled h =
     (case h_calls h ch of
        OrtNone \<Rightarrow>
          Some (set_pc ch (if h_noReverseTunnels h then OrtReturned else OrtWaiting) h)
      | OrtWaiting \<Rightarrow>
          if ch \<in> h_done h then Some (set_pc ch OrtClose h)
          else if settled
          then Some (set_pc ch (OrtAdd (case h_affinityKey h of None \<Rightarrow> None | Some f \<Rightarrow> f ch)) h)
          else None
      | OrtAdd key \<Rightarrow>
          map_option (\<lambda>rc. set_pc ch (OrtLookup key) (h\<lparr>h_reverse := rc\<rparr>)) (add ch key (h_reverse h))
      | OrtLookup key \<Rightarrow> Some (set_pc ch (OrtKeyAdd key) (reverseChannelsForKey key h))
      | OrtKeyAdd key \<Rightarrow>
          (case h_reverseByKey h key of
             None \<Rightarrow> None
           | Some rc \<Rightarrow>
               map_option (\<lambda>rc'. set_pc ch (OrtConnect key)
                   (h\<lparr>h_reverseByKey := (h_reverseByKey h)(key \<mapsto> rc')\<rparr>)) (add ch key rc))
      | OrtConnect key \<Rightarrow>
          Some (set_pc ch (OrtAwait key)
            (if h_onReverseTunnelConnect h then h\<lparr>h_connected := h_connected h @ [ch]\<rparr> else h))
      | OrtAwait key \<Rightarrow> if ch \<in> h_done h then Some (set_pc ch (OrtDisconnect key) h) else None
      | OrtDisconnect key \<Rightarrow>
          Some (set_pc ch (OrtRemoveKey key)
            (if h_onReverseTunnelDisconnect h then h\<lparr>h_disconnected := h_disconnected h @ [ch]\<rparr> else h))
      | OrtRemoveKey key \<Rightarrow> Some (set_pc ch (OrtRemove key) (remove_key ch key h))
      | OrtRemove key \<Rightarrow>
          Some (set_pc ch OrtClose (h\<lparr>h_reverse := snd (remove ch (h_reverse h))\<rparr>))
      | OrtClose \<Rightarrow>
          Some (set_pc ch OrtReturned ((unregister_all ch h)\<lparr>h_done := insert ch (h_done h)\<rparr>))
      | OrtReturned \<Rightarrow> None)"

subsection \<open>Channels over reverse tunnels\<close>

definition AllReverseTunnels :: "'k TunnelServiceHandler \<Rightarrow> nat list" where
  "AllReverseTunnels h = allChans (h_reverse h)"

text \<open>\<^verbatim>\<open>AsChannel\<close> and \<^verbatim>\<open>KeyAsChannel\<close>: \<open>None\<close> is a panic; otherwise which table the channel uses.\<close>

datatype 'k multiChannel = MultiAll | MultiKey "'k option"

definition AsChannel :: "'k TunnelServiceHandler \<Rightarrow> 'k multiChannel option" where
  "AsChannel h = (if h_noReverseTunnels h then None else Some MultiAll)"

definition KeyAsChannel :: "'k option \<Rightarrow> 'k TunnelServiceHandler \<Rightarrow> 'k multiChannel option" where
  "KeyAsChannel key h = (if h_noReverseTunnels h then None else Some (MultiKey key))"

definition pickKey :: "'k option \<Rightarrow> 'k TunnelServiceHandler \<Rightarrow> nat option \<times> 'k TunnelServiceHandler" where
  "pickKey key h =
     (case h_reverseByKey h key of
        None \<Rightarrow> (None, h)
      | Some rc \<Rightarrow>
          (case pick rc of (r, rc') \<Rightarrow> (r, h\<lparr>h_reverseByKey := (h_reverseByKey h)(key \<mapsto> rc')\<rparr>)))"

definition pickAll :: "'k TunnelServiceHandler \<Rightarrow> nat option \<times> 'k TunnelServiceHandler" where
  "pickAll h = (case pick (h_reverse h) of (r, rc) \<Rightarrow> (r, h\<lparr>h_reverse := rc\<rparr>))"

definition keyIsReady :: "'k option \<Rightarrow> 'k TunnelServiceHandler \<Rightarrow> bool" where
  "keyIsReady key h = (case h_reverseByKey h key of None \<Rightarrow> False | Some rc \<Rightarrow> ready rc)"

fun multi_pick :: "'k multiChannel \<Rightarrow> 'k TunnelServiceHandler \<Rightarrow> nat option \<times> 'k TunnelServiceHandler" where
  "multi_pick MultiAll h = pickAll h"
| "multi_pick (MultiKey key) h = pickKey key h"

fun multi_ready :: "'k multiChannel \<Rightarrow> 'k TunnelServiceHandler \<Rightarrow> bool" where
  "multi_ready MultiAll h = ready (h_reverse h)"
| "multi_ready (MultiKey key) h = keyIsReady key h"

text \<open>\<^verbatim>\<open>WaitForReady\<close> up to its wait: the \<^verbatim>\<open>avail\<close> it waits for.\<close>

fun multi_wait :: "'k multiChannel \<Rightarrow> 'k TunnelServiceHandler \<Rightarrow> nat \<times> 'k TunnelServiceHandler" where
  "multi_wait MultiAll h = (waitForReady_begin (h_reverse h), h)"
| "multi_wait (MultiKey key) h =
     (let h' = reverseChannelsForKey key h
      in (case h_reverseByKey h' key of None \<Rightarrow> 0 | Some rc \<Rightarrow> waitForReady_begin rc, h'))"

text \<open>\<^verbatim>\<open>Invoke\<close> and \<^verbatim>\<open>NewStream\<close>: the tunnel the RPC goes to, or the error.\<close>

definition multi_route :: "'k multiChannel \<Rightarrow> 'k TunnelServiceHandler \<Rightarrow> (gerror + nat) \<times> 'k TunnelServiceHandler" where
  "multi_route mc h =
     (case multi_pick mc h of
        (None, h') \<Rightarrow> (Inl (Errorf Unavailable ''no channels ready'' []), h')
      | (Some ch, h') \<Rightarrow> (Inr ch, h'))"

subsection \<open>All that may happen to a handler\<close>

datatype 'k h_act =
    HStep nat bool
  | HDone nat
  | HUnregister nat
  | HUnregisterKey
  | HPick "'k multiChannel"
  | HWait "'k multiChannel"
  | HShutdown

text \<open>\<open>HUnregister\<close> is \<^verbatim>\<open>tearDown\<close> of a tunnel that closes; \<open>HDone\<close> the context of a tunnel that is done.\<close>

fun handler_do :: "'k h_act \<Rightarrow> 'k TunnelServiceHandler \<Rightarrow> 'k TunnelServiceHandler option" where
  "handler_do (HStep ch b) h = ort_step ch b h"
| "handler_do (HDone ch) h = Some (h\<lparr>h_done := insert ch (h_done h)\<rparr>)"
| "handler_do (HUnregister ch) h = Some (unregister_all ch h)"
| "handler_do HUnregisterKey h = unregister_key h"
| "handler_do (HPick mc) h = Some (snd (multi_pick mc h))"
| "handler_do (HWait mc) h = Some (snd (multi_wait mc h))"
| "handler_do HShutdown h = Some (InitiateShutdown h)"

fun handler_run :: "'k h_act list \<Rightarrow> 'k TunnelServiceHandler \<Rightarrow> 'k TunnelServiceHandler option" where
  "handler_run [] h = Some h"
| "handler_run (a # as) h = (case handler_do a h of None \<Rightarrow> None | Some h' \<Rightarrow> handler_run as h')"

inductive handler_reach :: "'k TunnelServiceHandler \<Rightarrow> 'k TunnelServiceHandler \<Rightarrow> bool" for h0 where
  h_start: "handler_reach h0 h0"
| h_step: "handler_reach h0 h \<Longrightarrow> handler_do a h = Some h' \<Longrightarrow> handler_reach h0 h'"

subsection \<open>Invariant\<close>

text \<open>The key of a tunnel that may be in the table of all tunnels, or in the table of its key.\<close>

fun rev_key :: "'k ort_pc \<Rightarrow> 'k option option" where
  "rev_key (OrtLookup k) = Some k"
| "rev_key (OrtKeyAdd k) = Some k"
| "rev_key (OrtConnect k) = Some k"
| "rev_key (OrtAwait k) = Some k"
| "rev_key (OrtDisconnect k) = Some k"
| "rev_key (OrtRemoveKey k) = Some k"
| "rev_key (OrtRemove k) = Some k"
| "rev_key _ = None"

fun in_key :: "'k ort_pc \<Rightarrow> 'k option option" where
  "in_key (OrtConnect k) = Some k"
| "in_key (OrtAwait k) = Some k"
| "in_key (OrtDisconnect k) = Some k"
| "in_key (OrtRemoveKey k) = Some k"
| "in_key _ = None"

definition table_ok :: "('c, 'k) reverseChannels \<Rightarrow> ('c \<Rightarrow> 'k \<Rightarrow> bool) \<Rightarrow> bool" where
  "table_ok rc P \<longleftrightarrow> rc_inv rc \<and> distinct (map fst (rc_chans rc))
     \<and> (\<forall>ch k. (ch, k) \<in> set (rc_chans rc) \<longrightarrow> P ch k)"

text \<open>
  A tunnel is in a table only while its call of \<^verbatim>\<open>openReverseTunnel\<close> stands between adding and removing
  it, under its own key; and it is in both as long as it was not torn down.
\<close>

definition tables_ok :: "(nat \<Rightarrow> 'k option option) \<Rightarrow> (nat \<Rightarrow> 'k option option)
    \<Rightarrow> (nat, 'k option) reverseChannels \<Rightarrow> ('k option \<rightharpoonup> (nat, 'k option) reverseChannels) \<Rightarrow> bool" where
  "tables_ok R K rv bk \<longleftrightarrow> table_ok rv (\<lambda>ch k. R ch = Some k)
     \<and> (\<forall>k rc. bk k = Some rc \<longrightarrow> table_ok rc (\<lambda>ch k'. k' = k \<and> K ch = Some k))"

definition present_ok :: "nat set \<Rightarrow> (nat \<Rightarrow> 'k option option) \<Rightarrow> (nat \<Rightarrow> 'k option option)
    \<Rightarrow> (nat, 'k option) reverseChannels \<Rightarrow> ('k option \<rightharpoonup> (nat, 'k option) reverseChannels) \<Rightarrow> bool" where
  "present_ok torn R K rv bk \<longleftrightarrow>
     (\<forall>ch k. ch \<notin> torn \<and> R ch = Some k \<longrightarrow> (ch, k) \<in> set (rc_chans rv))
     \<and> (\<forall>ch k. ch \<notin> torn \<and> K ch = Some k \<longrightarrow> (\<exists>rc. bk k = Some rc \<and> (ch, k) \<in> set (rc_chans rc)))"

definition handler_inv :: "'k TunnelServiceHandler \<Rightarrow> bool" where
  "handler_inv h \<longleftrightarrow> opts_wf (h_tunnelOpts h)
     \<and> (\<forall>ch k. h_calls h ch = OrtKeyAdd k \<longrightarrow> h_reverseByKey h k \<noteq> None)
     \<and> fst ` set (h_unregistering h) \<subseteq> h_torn h
     \<and> tables_ok (rev_key \<circ> h_calls h) (in_key \<circ> h_calls h) (h_reverse h) (h_reverseByKey h)
     \<and> present_ok (h_torn h) (rev_key \<circ> h_calls h) (in_key \<circ> h_calls h) (h_reverse h) (h_reverseByKey h)"

lemma table_ok_new: "table_ok newReverseChannels P"
  by (simp add: table_ok_def rc_inv_new) (simp add: newReverseChannels_def)

lemma handler_inv_new: "handler_inv (NewTunnelServiceHandler options)"
  by (simp add: handler_inv_def tables_ok_def present_ok_def NewTunnelServiceHandler_def table_ok_new comp_def)

lemma table_ok_mono: "table_ok rc P \<Longrightarrow> (\<And>ch k. (ch, k) \<in> set (rc_chans rc) \<Longrightarrow> P ch k \<Longrightarrow> Q ch k) \<Longrightarrow> table_ok rc Q"
  by (simp add: table_ok_def)

lemma pick_chans [simp]: "rc_chans (snd (pick rc)) = rc_chans rc"
  by (simp add: pick_def Let_def)

lemma table_ok_pick: "table_ok rc P \<Longrightarrow> table_ok (snd (pick rc)) P"
  by (simp add: table_ok_def rc_inv_pick)

lemma table_ok_remove:
  "table_ok rc P \<Longrightarrow> table_ok (snd (remove ch rc)) (\<lambda>c k. P c k \<and> c \<noteq> ch)"
  by (auto simp: table_ok_def rc_inv_remove remove_chans distinct_map_filter)

lemma table_ok_chans_remove:
  "table_ok rc P \<Longrightarrow> rc_chans (snd (remove ch rc)) = filter (\<lambda>e. fst e \<noteq> ch) (rc_chans rc)"
  by (simp add: table_ok_def remove_chans)

lemma table_ok_add:
  assumes "table_ok rc P" and "\<And>k. \<not> P ch k" and "add ch key rc = Some rc'"
  shows "table_ok rc' (\<lambda>c k. P c k \<or> (c = ch \<and> k = key))" and "rc_chans rc' = rc_chans rc @ [(ch, key)]"
proof -
  have rc': "rc_inv rc'" "rc_chans rc' = rc_chans rc @ [(ch, key)]"
    using rc_inv_add [of rc ch key] assms(1,3) by (auto simp: table_ok_def)
  moreover have "ch \<notin> fst ` set (rc_chans rc)"
    using assms(1,2) unfolding table_ok_def by force
  ultimately show "table_ok rc' (\<lambda>c k. P c k \<or> (c = ch \<and> k = key))"
    using assms(1) by (auto simp: table_ok_def)
  show "rc_chans rc' = rc_chans rc @ [(ch, key)]" by (rule rc')
qed

subsection \<open>Steps\<close>

text \<open>A step that changes no table and leaves the tunnel where it may be.\<close>

lemma handler_inv_move:
  assumes "handler_inv h" and "rev_key pc = rev_key (h_calls h ch)" and "in_key pc = in_key (h_calls h ch)"
    and "\<And>k. pc = OrtKeyAdd k \<Longrightarrow> h_reverseByKey h k \<noteq> None"
  shows "handler_inv (set_pc ch pc h)"
proof -
  have "(rev_key \<circ> h_calls h)(ch := rev_key pc) = rev_key \<circ> h_calls h"
    "(in_key \<circ> h_calls h)(ch := in_key pc) = in_key \<circ> h_calls h"
    using assms(2,3) by (simp_all add: fun_eq_iff)
  then show ?thesis
    using assms(1,4) by (auto simp: handler_inv_def set_pc_def fun_upd_comp)
qed

lemma handler_inv_frame [simp]:
  "handler_inv (h\<lparr>h_connected := xs\<rparr>) = handler_inv h" "handler_inv (h\<lparr>h_disconnected := xs\<rparr>) = handler_inv h"
  "handler_inv (h\<lparr>h_done := d\<rparr>) = handler_inv h" "handler_inv (h\<lparr>h_stopping := b\<rparr>) = handler_inv h"
  by (simp_all add: handler_inv_def)

lemma handler_inv_forKey:
  assumes "handler_inv h"
  shows "handler_inv (reverseChannelsForKey key h)"
proof (cases "h_reverseByKey h key")
  case None
  have "tables_ok R K rv bk \<Longrightarrow> tables_ok R K rv (bk(key \<mapsto> newReverseChannels))" for R K rv and bk :: "'a option \<rightharpoonup> _"
    by (simp add: tables_ok_def table_ok_new)
  moreover have "bk key = None \<Longrightarrow> present_ok T R K rv bk \<Longrightarrow> present_ok T R K rv (bk(key \<mapsto> newReverseChannels))"
    for T R K rv and bk :: "'a option \<rightharpoonup> _"
    unfolding present_ok_def by fastforce
  ultimately show ?thesis
    using assms None by (auto simp: handler_inv_def reverseChannelsForKey_def)
qed (use assms in \<open>simp add: reverseChannelsForKey_def\<close>)

lemma forKey_fields:
  "h_calls (reverseChannelsForKey key h) = h_calls h" "h_reverseByKey (reverseChannelsForKey key h) key \<noteq> None"
  by (auto simp: reverseChannelsForKey_def split: option.splits)

lemma handler_inv_add:
  assumes "handler_inv h" and "h_calls h ch = OrtAdd key" and "add ch key (h_reverse h) = Some rc"
  shows "handler_inv (set_pc ch (OrtLookup key) (h\<lparr>h_reverse := rc\<rparr>))"
proof -
  let ?R = "rev_key \<circ> h_calls h" and ?K = "in_key \<circ> h_calls h"
  have no: "?R ch = None" "?K ch = None" using assms(2) by simp_all
  have ok: "table_ok (h_reverse h) (\<lambda>c k. ?R c = Some k)"
    using assms(1) by (simp add: handler_inv_def tables_ok_def)
  note new = table_ok_add [OF ok _ assms(3)]
  have "table_ok rc (\<lambda>c k. (?R(ch := Some key)) c = Some k)"
    by (rule table_ok_mono [OF new(1)]) (use no in auto)
  then have "tables_ok (?R(ch := Some key)) (?K(ch := None)) rc (h_reverseByKey h)"
    using assms(1) no(2) by (simp add: handler_inv_def tables_ok_def fun_upd_idem)
  moreover have "present_ok (h_torn h) (?R(ch := Some key)) (?K(ch := None)) rc (h_reverseByKey h)"
    using assms(1) no new(2) by (auto simp: handler_inv_def present_ok_def)
  ultimately show ?thesis
    using assms(1) by (auto simp: handler_inv_def set_pc_def fun_upd_comp)
qed

lemma handler_inv_keyAdd:
  assumes "handler_inv h" and "h_calls h ch = OrtKeyAdd key" and "h_reverseByKey h key = Some rc0"
    and "add ch key rc0 = Some rc"
  shows "handler_inv (set_pc ch (OrtConnect key) (h\<lparr>h_reverseByKey := (h_reverseByKey h)(key \<mapsto> rc)\<rparr>))"
proof -
  let ?R = "rev_key \<circ> h_calls h" and ?K = "in_key \<circ> h_calls h"
  have no: "?R ch = Some key" "?K ch = None" using assms(2) by simp_all
  have ok: "table_ok rc0 (\<lambda>c k'. k' = key \<and> ?K c = Some key)"
    using assms(1,3) by (simp add: handler_inv_def tables_ok_def)
  have new: "table_ok rc (\<lambda>c k'. (k' = key \<and> ?K c = Some key) \<or> (c = ch \<and> k' = key))"
    "rc_chans rc = rc_chans rc0 @ [(ch, key)]"
    using table_ok_add [OF ok _ assms(4)] no(2) by simp_all
  have "table_ok rc (\<lambda>c k'. k' = key \<and> (?K(ch := Some key)) c = Some key)"
    by (rule table_ok_mono [OF new(1)]) auto
  moreover have "table_ok rc' (\<lambda>c k'. k' = k \<and> (?K(ch := Some key)) c = Some k)"
    if "h_reverseByKey h k = Some rc'" "k \<noteq> key" for k rc'
  proof (rule table_ok_mono)
    show "table_ok rc' (\<lambda>c k'. k' = k \<and> ?K c = Some k)"
      using assms(1) that by (simp add: handler_inv_def tables_ok_def)
  qed (use no in auto)
  ultimately have "tables_ok (?R(ch := Some key)) (?K(ch := Some key)) (h_reverse h) ((h_reverseByKey h)(key \<mapsto> rc))"
    using assms(1) no(1) by (simp add: handler_inv_def tables_ok_def fun_upd_idem)
  moreover have "present_ok (h_torn h) (?R(ch := Some key)) (?K(ch := Some key)) (h_reverse h) ((h_reverseByKey h)(key \<mapsto> rc))"
    using assms(1,3) no new(2) by (fastforce simp: handler_inv_def present_ok_def)
  ultimately show ?thesis
    using assms(1) by (auto simp: handler_inv_def set_pc_def fun_upd_comp)
qed

text \<open>Removing a tunnel from a table.\<close>

lemma tables_ok_remove_all:
  assumes "tables_ok R K rv bk"
  shows "tables_ok (R(ch := x)) K (snd (remove ch rv)) bk"
proof -
  have "table_ok rv (\<lambda>c k. R c = Some k)" using assms by (simp add: tables_ok_def)
  then have "table_ok (snd (remove ch rv)) (\<lambda>c k. (R(ch := x)) c = Some k)"
    by (rule table_ok_mono [OF table_ok_remove]) auto
  then show ?thesis using assms by (simp add: tables_ok_def)
qed

lemma present_ok_remove_all:
  assumes "present_ok T R K rv bk" and "tables_ok R K rv bk" and "ch \<in> T' \<or> x = None" and "T \<subseteq> T'"
  shows "present_ok T' (R(ch := x)) K (snd (remove ch rv)) bk"
proof -
  have "rc_chans (snd (remove ch rv)) = filter (\<lambda>e. fst e \<noteq> ch) (rc_chans rv)"
    using assms(2) by (auto simp: tables_ok_def intro: table_ok_chans_remove)
  then show ?thesis using assms(1,3,4) by (simp add: present_ok_def) blast
qed

lemma tables_ok_remove_key:
  assumes "tables_ok R K rv bk" and "bk key = Some rc" and "x = K ch \<or> K ch = Some key"
  shows "tables_ok R (K(ch := x)) rv (bk(key \<mapsto> snd (remove ch rc)))"
proof -
  have "table_ok rc (\<lambda>c k'. k' = key \<and> K c = Some key)" using assms(1,2) by (simp add: tables_ok_def)
  then have "table_ok (snd (remove ch rc)) (\<lambda>c k'. k' = key \<and> (K(ch := x)) c = Some key)"
    by (rule table_ok_mono [OF table_ok_remove]) auto
  moreover have "table_ok rc' (\<lambda>c k'. k' = k \<and> (K(ch := x)) c = Some k)" if "bk k = Some rc'" "k \<noteq> key" for k rc'
  proof (rule table_ok_mono)
    show "table_ok rc' (\<lambda>c k'. k' = k \<and> K c = Some k)"
      using assms(1) that by (simp add: tables_ok_def)
  qed (use assms(3) that in auto)
  ultimately show ?thesis using assms(1) by (simp add: tables_ok_def)
qed

lemma present_ok_remove_key:
  assumes "present_ok T R K rv bk" and "tables_ok R K rv bk" and "bk key = Some rc" and "ch \<in> T \<or> x = None"
  shows "present_ok T R (K(ch := x)) rv (bk(key \<mapsto> snd (remove ch rc)))"
proof -
  have "rc_chans (snd (remove ch rc)) = filter (\<lambda>e. fst e \<noteq> ch) (rc_chans rc)"
    using assms(2,3) by (auto simp: tables_ok_def intro: table_ok_chans_remove)
  then show ?thesis using assms(1,3,4) by (fastforce simp: present_ok_def)
qed

lemma remove_None: "fst (remove ch rc) = None \<Longrightarrow> snd (remove ch rc) = rc"
  by (auto simp: remove_def split: option.splits prod.splits if_splits)

lemma unregister_all_fields:
  "h_reverse (unregister_all ch h) = snd (remove ch (h_reverse h))"
  "h_torn (unregister_all ch h) = insert ch (h_torn h)" "h_calls (unregister_all ch h) = h_calls h"
  "h_reverseByKey (unregister_all ch h) = h_reverseByKey h" "h_tunnelOpts (unregister_all ch h) = h_tunnelOpts h"
  "fst ` set (h_unregistering (unregister_all ch h)) \<subseteq> insert ch (fst ` set (h_unregistering h))"
  using remove_None [of ch "h_reverse h"] by (auto simp: unregister_all_def split: prod.splits option.splits)

lemma handler_inv_unregister_all:
  assumes "handler_inv h"
  shows "handler_inv (unregister_all ch h)"
proof -
  let ?R = "rev_key \<circ> h_calls h" and ?K = "in_key \<circ> h_calls h"
  have inv: "tables_ok ?R ?K (h_reverse h) (h_reverseByKey h)"
    "present_ok (h_torn h) ?R ?K (h_reverse h) (h_reverseByKey h)"
    using assms by (simp_all add: handler_inv_def)
  have "tables_ok ?R ?K (snd (remove ch (h_reverse h))) (h_reverseByKey h)"
    using tables_ok_remove_all [OF inv(1), of ch "?R ch"] by (simp only: fun_upd_triv)
  moreover have "present_ok (insert ch (h_torn h)) ?R ?K (snd (remove ch (h_reverse h))) (h_reverseByKey h)"
    using present_ok_remove_all [OF inv(2,1), of ch "insert ch (h_torn h)" "?R ch", unfolded fun_upd_triv] by blast
  moreover have "fst ` set (h_unregistering (unregister_all ch h)) \<subseteq> insert ch (h_torn h)"
    using assms unregister_all_fields(6) [of ch h] unfolding handler_inv_def by blast
  ultimately show ?thesis
    using assms by (simp add: handler_inv_def unregister_all_fields)
qed

lemma handler_inv_remove_key:
  assumes "handler_inv h" and "ch \<in> h_torn h"
  shows "handler_inv (remove_key ch key h)"
proof (cases "h_reverseByKey h key")
  case (Some rc)
  let ?R = "rev_key \<circ> h_calls h" and ?K = "in_key \<circ> h_calls h"
  have inv: "tables_ok ?R ?K (h_reverse h) (h_reverseByKey h)"
    "present_ok (h_torn h) ?R ?K (h_reverse h) (h_reverseByKey h)"
    using assms by (simp_all add: handler_inv_def)
  show ?thesis
    using tables_ok_remove_key [OF inv(1) Some, of "?K ch" ch, unfolded fun_upd_triv]
      present_ok_remove_key [OF inv(2,1) Some, of ch "?K ch", unfolded fun_upd_triv] assms Some
    by (auto simp: handler_inv_def remove_key_def)
qed (use assms in \<open>simp add: remove_key_def\<close>)

lemma handler_inv_RemoveKey:
  assumes "handler_inv h" and "h_calls h ch = OrtRemoveKey key"
  shows "handler_inv (set_pc ch (OrtRemove key) (remove_key ch key h))"
proof -
  let ?R = "rev_key \<circ> h_calls h" and ?K = "in_key \<circ> h_calls h"
  have inv: "tables_ok ?R ?K (h_reverse h) (h_reverseByKey h)"
    "present_ok (h_torn h) ?R ?K (h_reverse h) (h_reverseByKey h)"
    using assms(1) by (simp_all add: handler_inv_def)
  have R: "?R(ch := Some key) = ?R" using assms(2) by (simp add: fun_eq_iff)
  show ?thesis
  proof (cases "h_reverseByKey h key")
    case None
    have "tables_ok ?R (?K(ch := None)) (h_reverse h) (h_reverseByKey h)"
      using inv(1) None assms(2) by (fastforce simp: tables_ok_def table_ok_def)
    moreover have "present_ok (h_torn h) ?R (?K(ch := None)) (h_reverse h) (h_reverseByKey h)"
      using inv(2) by (auto simp: present_ok_def)
    ultimately show ?thesis
      using assms None R by (auto simp: handler_inv_def remove_key_def set_pc_def fun_upd_comp)
  next
    case (Some rc)
    then show ?thesis
      using tables_ok_remove_key [OF inv(1) Some, of None ch]
        present_ok_remove_key [OF inv(2,1) Some, of ch None] assms R
      by (auto simp: handler_inv_def remove_key_def set_pc_def fun_upd_comp)
  qed
qed

lemma handler_inv_Remove:
  assumes "handler_inv h" and "h_calls h ch = OrtRemove key"
  shows "handler_inv (set_pc ch OrtClose (h\<lparr>h_reverse := snd (remove ch (h_reverse h))\<rparr>))"
proof -
  let ?R = "rev_key \<circ> h_calls h" and ?K = "in_key \<circ> h_calls h"
  have inv: "tables_ok ?R ?K (h_reverse h) (h_reverseByKey h)"
    "present_ok (h_torn h) ?R ?K (h_reverse h) (h_reverseByKey h)"
    using assms(1) by (simp_all add: handler_inv_def)
  have K: "?K(ch := None) = ?K" using assms(2) by (simp add: fun_eq_iff)
  show ?thesis
    using tables_ok_remove_all [OF inv(1), of ch None] present_ok_remove_all [OF inv(2,1), of ch "h_torn h" None]
      assms K by (auto simp: handler_inv_def set_pc_def fun_upd_comp)
qed

lemma handler_inv_ort_step:
  assumes "handler_inv h" and "ort_step ch b h = Some h'"
  shows "handler_inv h'"
proof (cases "h_calls h ch")
  case (OrtLookup key)
  then show ?thesis
    using assms handler_inv_move [OF handler_inv_forKey [OF assms(1), of key], of "OrtKeyAdd key" ch]
      forKey_fields [of key h] by (auto simp: ort_step_def)
next
  case OrtClose
  then have "handler_inv (set_pc ch OrtReturned ((unregister_all ch h)\<lparr>h_done := insert ch (h_done h)\<rparr>))"
    by (intro handler_inv_move) (simp_all add: handler_inv_unregister_all assms(1) unregister_all_fields)
  then show ?thesis using assms(2) OrtClose by (simp add: ort_step_def)
next
  case (OrtAdd key)
  then show ?thesis using assms by (auto simp: ort_step_def intro: handler_inv_add)
next
  case (OrtKeyAdd key)
  then show ?thesis using assms by (auto simp: ort_step_def intro: handler_inv_keyAdd split: option.splits)
next
  case (OrtRemoveKey key)
  then show ?thesis using assms by (auto simp: ort_step_def intro: handler_inv_RemoveKey)
next
  case (OrtRemove key)
  then show ?thesis using assms by (auto simp: ort_step_def intro: handler_inv_Remove)
qed (use assms in \<open>auto simp: ort_step_def intro!: handler_inv_move split: if_splits\<close>)

lemma handler_inv_unregister_key:
  assumes "handler_inv h" and "unregister_key h = Some h'"
  shows "handler_inv h'"
proof -
  obtain ch key us where us: "h_unregistering h = (ch, key) # us"
    "h' = (remove_key ch key h)\<lparr>h_unregistering := us\<rparr>"
    using assms(2) by (auto simp: unregister_key_def split: list.splits)
  have "ch \<in> h_torn h" using assms(1) us(1) by (auto simp: handler_inv_def)
  from handler_inv_remove_key [OF assms(1) this, of key] show ?thesis
    using us by (auto simp: handler_inv_def remove_key_def split: option.splits)
qed

lemma handler_inv_pick: "handler_inv h \<Longrightarrow> handler_inv (snd (multi_pick mc h))"
proof (cases mc)
  case (MultiKey key)
  assume "handler_inv h"
  then show ?thesis
    using MultiKey
    by (cases "h_reverseByKey h key") (auto simp: pickKey_def case_prod_beta handler_inv_def tables_ok_def
        present_ok_def table_ok_pick, fastforce)
qed (auto simp: pickAll_def case_prod_beta handler_inv_def tables_ok_def present_ok_def table_ok_pick)

lemma handler_inv_do: "handler_inv h \<Longrightarrow> handler_do a h = Some h' \<Longrightarrow> handler_inv h'"
proof (cases a)
  case (HWait mc)
  then show "handler_inv h \<Longrightarrow> handler_do a h = Some h' \<Longrightarrow> handler_inv h'"
    by (cases mc) (auto simp: Let_def handler_inv_forKey)
qed (auto simp: handler_inv_unregister_all handler_inv_pick InitiateShutdown_def
    intro: handler_inv_ort_step handler_inv_unregister_key)

lemma handler_inv_reach: "handler_reach h0 h \<Longrightarrow> handler_inv h0 \<Longrightarrow> handler_inv h"
  by (induction rule: handler_reach.induct) (auto intro: handler_inv_do)

lemma handler_reach_run: "handler_reach h0 h \<Longrightarrow> handler_run as h = Some h' \<Longrightarrow> handler_reach h0 h'"
  by (induction as arbitrary: h) (auto split: option.splits intro: handler_reach.h_step)

subsection \<open>Shutdown\<close>

definition handler_next :: "'k h_act \<Rightarrow> 'k TunnelServiceHandler \<Rightarrow> 'k TunnelServiceHandler" where
  "handler_next a h = (case handler_do a h of None \<Rightarrow> h | Some h' \<Rightarrow> h')"

lemma stopping_frame [simp]:
  "h_stopping (set_pc ch pc h) = h_stopping h" "h_stopping (reverseChannelsForKey k h) = h_stopping h"
  "h_stopping (remove_key ch k h) = h_stopping h" "h_stopping (unregister_all ch h) = h_stopping h"
  "h_stopping (snd (multi_pick mc h)) = h_stopping h" "h_stopping (snd (multi_wait mc h)) = h_stopping h"
proof -
  show k: "h_stopping (reverseChannelsForKey k h) = h_stopping h" for k
    by (simp add: reverseChannelsForKey_def split: option.splits)
  show "h_stopping (snd (multi_wait mc h)) = h_stopping h"
    by (cases mc) (simp_all add: k Let_def)
  show "h_stopping (snd (multi_pick mc h)) = h_stopping h"
    by (cases mc) (simp_all add: pickAll_def pickKey_def split: option.splits prod.splits)
qed (simp_all add: set_pc_def remove_key_def unregister_all_def split: option.splits prod.splits)

lemma stopping_ort_step: "ort_step ch b h = Some h' \<Longrightarrow> h_stopping h' = h_stopping h"
  by (cases "h_calls h ch") (auto simp: ort_step_def split: if_splits option.splits)

lemma stopping_stays: "h_stopping h \<Longrightarrow> h_stopping (handler_next a h)"
  by (cases a) (auto simp: handler_next_def InitiateShutdown_def unregister_key_def stopping_ort_step
      split: option.splits list.splits)

interpretation handler_gate: shutdown_gate h_stopping handler_next "\<lambda>a. a = HShutdown"
  by unfold_locales (simp_all add: stopping_stays, simp add: handler_next_def InitiateShutdown_def)

end
