(* ===== verification/Establish.thy ===== *)
theory Establish
  imports Handler Client_Channel
begin

text \<open>
  \<^verbatim>\<open>establish.go\<close>, and the two ways to set up the client's end of a tunnel: \<^verbatim>\<open>pendingChannel.Start\<close> for a forward
  tunnel and \<^verbatim>\<open>newReverseChannel\<close> for a reverse one (\<^verbatim>\<open>tunnel_client.go\<close>). The timer of \<^verbatim>\<open>time.AfterFunc\<close>
  is armed, fired or stopped; its function runs some time after it fired, so the cancellation is a
  step of its own. \<^verbatim>\<open>est_cause\<close> is the cause the context was cancelled with.
\<close>

datatype timer = Armed | Fired | Stopped

record establishment =
  est_timer :: "timer option"
  est_err :: "gerror option"
  est_ctx :: ctx
  est_cause :: "gerror option"

definition establishmentTimeoutError :: "i64 \<Rightarrow> string \<Rightarrow> gerror" where
  "establishmentTimeoutError timeout peer = Errorf FailedPrecondition
     ''timed out after %v waiting to establish tunnel with %s; it may be unresponsive or using an unsupported version of grpctunnel''
     [AInt timeout, AStr peer]"

definition startEstablishment :: "ctx \<Rightarrow> i64 \<Rightarrow> string \<Rightarrow> establishment" where
  "startEstablishment c timeout peer =
     (if timeout > 0
      then \<lparr>est_timer = Some Armed, est_err = Some (establishmentTimeoutError timeout peer), est_ctx = c,
            est_cause = None\<rparr>
      else \<lparr>est_timer = None, est_err = None, est_ctx = c, est_cause = None\<rparr>)"

definition timer_fires :: "establishment \<Rightarrow> establishment option" where
  "timer_fires e = (if est_timer e = Some Armed then Some (e\<lparr>est_timer := Some Fired\<rparr>) else None)"

text \<open>\<^verbatim>\<open>cancel(cause)\<close> of a \<^verbatim>\<open>WithCancelCause\<close> context: the first call counts.\<close>

definition est_cancel :: "gerror option \<Rightarrow> establishment \<Rightarrow> establishment" where
  "est_cancel cause e =
     (if est_ctx e \<noteq> None then e
      else e\<lparr>est_ctx := Some CtxCanceled,
             est_cause := Some (case cause of None \<Rightarrow> CtxCanceled | Some x \<Rightarrow> x)\<rparr>)"

definition timer_cancels :: "establishment \<Rightarrow> establishment option" where
  "timer_cancels e = (if est_timer e = Some Fired then Some (est_cancel (est_err e) e) else None)"

definition timer_stop :: "establishment \<Rightarrow> bool \<times> establishment" where
  "timer_stop e =
     (if est_timer e = Some Armed then (True, e\<lparr>est_timer := Some Stopped\<rparr>) else (False, e))"

definition est_done :: "gerror option \<Rightarrow> establishment \<Rightarrow> gerror option \<times> establishment" where
  "est_done err e =
     (if est_timer e = None then (err, e)
      else case timer_stop e of (ok, e') \<Rightarrow> if \<not> ok then (est_err e, e') else (err, e'))"

definition est_release :: "establishment \<Rightarrow> establishment" where
  "est_release e = est_cancel None e"

subsection \<open>Forward tunnels\<close>

text \<open>
  \<^verbatim>\<open>Start\<close>: opening the stream, waiting for its headers, and waiting for the settings; then it has
  returned an error or the channel. The arguments are what \<^verbatim>\<open>OpenTunnel\<close> and \<^verbatim>\<open>Header\<close> return.
\<close>

datatype start_pc = StOpen | StHeader | StSettings | StErr "gerror option" | StOk

record start_sys =
  st_pc :: start_pc
  st_est :: establishment
  st_ch :: "tunnelChannel option"

definition NewChannel :: "TunnelOption list \<Rightarrow> tunnelOpts" where
  "NewChannel opts = initOptions
     \<lparr>initialWindowSize = 0, maxChunkSize = 0, minWindowUpdateSize = 0, establishmentTimeout = 0\<rparr> opts"

definition Start_begin :: "ctx \<Rightarrow> tunnelOpts \<Rightarrow> start_sys" where
  "Start_begin c opts =
     \<lparr>st_pc = StOpen, st_est = startEstablishment c (establishmentTimeout opts) (fst (tunnelRoles False)),
      st_ch = None\<rparr>"

definition Start_fails :: "gerror \<Rightarrow> start_sys \<Rightarrow> start_sys" where
  "Start_fails err y =
     (case est_done (Some err) (st_est y) of (err', e) \<Rightarrow>
        y\<lparr>st_pc := StErr err', st_est := est_release e\<rparr>)"

definition Start_open :: "gerror option \<Rightarrow> start_sys \<Rightarrow> start_sys option" where
  "Start_open res y =
     (if st_pc y \<noteq> StOpen then None
      else case res of Some err \<Rightarrow> Some (Start_fails err y) | None \<Rightarrow> Some (y\<lparr>st_pc := StHeader\<rparr>))"

definition Start_header :: "grpc_lib \<Rightarrow> tunnelOpts \<Rightarrow> Peer option \<Rightarrow> MD \<Rightarrow> caller_mem \<Rightarrow> gerror + MD \<Rightarrow> start_sys
    \<Rightarrow> start_sys option" where
  "Start_header L opts pr reqMD mem res y =
     (if st_pc y \<noteq> StHeader then None
      else case res of
        Inl err \<Rightarrow> Some (Start_fails err y)
      | Inr respMD \<Rightarrow>
          (let serverSendsSettings = negotiates (md_Get L respMD grpctunnelNegotiateKey)
           in Some (y\<lparr>st_pc := StSettings,
                      st_ch := Some (newTunnelChannel (est_ctx (st_est y)) pr reqMD serverSendsSettings
                                       False opts mem)\<rparr>)))"

text \<open>After \<^verbatim>\<open>waitForSettings\<close>; until then the channel goes on by itself.\<close>

definition Start_settled :: "start_sys \<Rightarrow> start_sys option" where
  "Start_settled y =
     (case (st_pc y, st_ch y) of
        (StSettings, Some c) \<Rightarrow>
          if waitForSettings c = Blocks then None
          else (case est_done None (st_est y) of
                  (Some err, e) \<Rightarrow>
                    Some (y\<lparr>st_pc := StErr (Some err), st_est := e, st_ch := Some (snd (channel_close None c))\<rparr>)
                | (None, e) \<Rightarrow> Some (y\<lparr>st_pc := StOk, st_est := e\<rparr>))
      | _ \<Rightarrow> None)"

subsection \<open>Reverse tunnels\<close>

definition newReverseChannel :: "grpc_lib \<Rightarrow> ctx \<Rightarrow> Peer option \<Rightarrow> MD \<Rightarrow> tunnelOpts \<Rightarrow> caller_mem \<Rightarrow> tunnelChannel" where
  "newReverseChannel L streamCtx pr md opts mem =
     newTunnelChannel streamCtx pr md (negotiates (md_Get L md grpctunnelNegotiateKey)) True opts mem"

text \<open>The function of the timer that limits how long the settings may take.\<close>

definition reverse_timeout :: "tunnelChannel \<Rightarrow> tunnelChannel" where
  "reverse_timeout c =
     (if establishmentTimeout (ch_tunnelOpts c) > 0 \<and> \<not> ch_awaitSettings c
      then snd (channel_close (Some (establishmentTimeoutError (establishmentTimeout (ch_tunnelOpts c))
                  (fst (tunnelRoles True)))) c)
      else c)"

lemmas establish_ops [go_defs] =
  startEstablishment_def timer_fires_def est_cancel_def timer_cancels_def timer_stop_def est_done_def
  est_release_def

subsection \<open>What is known of an establishment\<close>

text \<open>
  The timer and its error exist together; the context is cancelled with the timeout error only after the
  timer fired.
\<close>

definition est_inv :: "establishment \<Rightarrow> bool" where
  "est_inv e \<longleftrightarrow> (est_timer e = None \<longleftrightarrow> est_err e = None)
     \<and> (\<forall>x. est_err e = Some x \<longrightarrow> error_code x = Some FailedPrecondition)
     \<and> (est_cause e \<noteq> None \<and> est_cause e = est_err e \<longrightarrow> est_timer e = Some Fired)"

datatype est_act = EFire | ECancel | ECtx gerror | EDone "gerror option" | ERelease

fun est_do :: "est_act \<Rightarrow> establishment \<Rightarrow> establishment" where
  "est_do EFire e = (case timer_fires e of None \<Rightarrow> e | Some e' \<Rightarrow> e')"
| "est_do ECancel e = (case timer_cancels e of None \<Rightarrow> e | Some e' \<Rightarrow> e')"
| "est_do (ECtx x) e = e\<lparr>est_ctx := ctx_end x (est_ctx e)\<rparr>"
| "est_do (EDone err) e = snd (est_done err e)"
| "est_do ERelease e = est_release e"

lemma est_inv_start: "est_inv (startEstablishment c t peer)"
  by (simp add: est_inv_def startEstablishment_def establishmentTimeoutError_def)

lemma est_inv_do: "est_inv e \<Longrightarrow> est_inv (est_do a e)"
  by (cases a) (auto simp: est_inv_def go_defs Let_def split: option.splits if_splits)

lemma est_inv_fold: "est_inv e \<Longrightarrow> est_inv (fold est_do as e)"
  by (induction as arbitrary: e) (simp_all add: est_inv_do)

lemma stopped_stays: "est_timer e \<noteq> Some Armed \<Longrightarrow> est_timer (est_do a e) = est_timer e"
  by (cases a) (auto simp: go_defs split: option.splits if_splits)

lemma stopped_stays_fold: "est_timer e \<noteq> Some Armed \<Longrightarrow> est_timer (fold est_do as e) = est_timer e"
  by (induction as arbitrary: e) (simp_all add: stopped_stays)

end
