(* ===== verification/Reverse_Server.thy ===== *)
theory Reverse_Server
  imports Establish
begin

text \<open>
  \<^verbatim>\<open>reverse_server.go\<close>: the server that runs on the client side of a connection. Tunnels are numbers. Every
  operation runs under the server's mutex; \<^verbatim>\<open>Stop\<close> and \<^verbatim>\<open>GracefulStop\<close> then wait for the wait group (their
  \<^verbatim>\<open>defer\<close> order unlocks first). \<open>rs_serving\<close> are the calls of \<^verbatim>\<open>Serve\<close> between \<^verbatim>\<open>addInstance\<close> and
  \<^verbatim>\<open>wg.Done\<close>, and \<open>rs_hungup\<close> the tunnels whose \<^verbatim>\<open>CloseSend\<close> was called.
\<close>

definition stateActive :: nat where "stateActive = 0"
definition stateClosing :: nat where "stateClosing = 1"
definition stateClosed :: nat where "stateClosed = 2"

lemmas state_defs = stateActive_def stateClosing_def stateClosed_def

record ReverseTunnelServer =
  rs_opts :: tunnelOpts
  rs_instances :: "nat set option"
  rs_wg :: nat
  rs_state :: nat
  rs_serving :: "nat set"
  rs_hungup :: "nat set"

definition NewReverseTunnelServer :: "TunnelOption list \<Rightarrow> ReverseTunnelServer" where
  "NewReverseTunnelServer opts =
     \<lparr>rs_opts = initOptions
        \<lparr>initialWindowSize = 0, maxChunkSize = 0, minWindowUpdateSize = 0, establishmentTimeout = 0\<rparr> opts,
      rs_instances = Some {}, rs_wg = 0, rs_state = stateActive, rs_serving = {}, rs_hungup = {}\<rparr>"

definition instances :: "ReverseTunnelServer \<Rightarrow> nat set" where
  "instances s = (case rs_instances s of None \<Rightarrow> {} | Some I \<Rightarrow> I)"

definition addInstance :: "nat \<Rightarrow> ReverseTunnelServer \<Rightarrow> gerror option \<times> ReverseTunnelServer" where
  "addInstance stream s =
     (if rs_state s \<ge> stateClosing
      then (Some (errShuttingDown (fst (tunnelRoles True))), s)
      else (None, s\<lparr>rs_wg := rs_wg s + 1, rs_instances := Some (insert stream (instances s)),
                    rs_serving := insert stream (rs_serving s)\<rparr>))"

definition isClosing :: "ReverseTunnelServer \<Rightarrow> bool" where
  "isClosing s \<longleftrightarrow> rs_state s \<ge> stateClosing"

definition isClosed :: "ReverseTunnelServer \<Rightarrow> bool" where
  "isClosed s \<longleftrightarrow> rs_state s \<ge> stateClosed"

definition Stop :: "ReverseTunnelServer \<Rightarrow> ReverseTunnelServer" where
  "Stop s =
     (if rs_state s = stateClosed then s
      else s\<lparr>rs_state := stateClosed, rs_hungup := rs_hungup s \<union> instances s\<rparr>)"

definition GracefulStop :: "ReverseTunnelServer \<Rightarrow> ReverseTunnelServer" where
  "GracefulStop s = (if rs_state s \<noteq> stateActive then s else s\<lparr>rs_state := stateClosing\<rparr>)"

text \<open>The deferred \<^verbatim>\<open>wg.Wait()\<close> of both: whether it returns.\<close>

definition wg_Wait :: "ReverseTunnelServer \<Rightarrow> unit wait" where
  "wg_Wait s = (if rs_wg s = 0 then Ready () else Blocks)"

subsection \<open>Serve\<close>

text \<open>
  \<^verbatim>\<open>Serve\<close> up to \<^verbatim>\<open>serveTunnel\<close>: \<open>openRes\<close> is the error of \<^verbatim>\<open>OpenReverseTunnel\<close>, \<open>hdrRes\<close> what \<^verbatim>\<open>Header\<close> returns.
  The result is the error it returns, or whether the peer accepts settings.
\<close>

definition Serve_open :: "grpc_lib \<Rightarrow> gerror option \<Rightarrow> gerror + MD \<Rightarrow> establishment \<Rightarrow> nat \<Rightarrow> ReverseTunnelServer
    \<Rightarrow> (gerror option + bool) \<times> establishment \<times> ReverseTunnelServer" where
  "Serve_open L openRes hdrRes est stream s =
     (case openRes of
        Some err \<Rightarrow> (case est_done (Some err) est of (err', e) \<Rightarrow> (Inl err', est_release e, s))
      | None \<Rightarrow>
          (case est_done (case hdrRes of Inl err \<Rightarrow> Some err | Inr md \<Rightarrow> None) est of
             (Some err, e) \<Rightarrow> (Inl (Some err), est_release e, s)
           | (None, e) \<Rightarrow>
               (case addInstance stream s of
                  (Some err, s') \<Rightarrow> (Inl (Some err), est_release e, s')
                | (None, s') \<Rightarrow>
                    (Inr (case hdrRes of
                            Inl err \<Rightarrow> False
                          | Inr md \<Rightarrow> negotiates (md_Get L md grpctunnelNegotiateKey)), e, s'))))"

definition Serve_tunnel :: "ctx \<Rightarrow> bool \<Rightarrow> ReverseTunnelServer \<Rightarrow> tunnelServer" where
  "Serve_tunnel streamCtx clientAcceptsSettings s = serveTunnel streamCtx clientAcceptsSettings True (rs_opts s)"

text \<open>
  After \<^verbatim>\<open>serveTunnel\<close> returned \<open>err\<close>: what \<^verbatim>\<open>Serve\<close> returns, given the state of the caller's context.
\<close>

definition Serve_result :: "gerror option \<Rightarrow> ctx \<Rightarrow> ReverseTunnelServer \<Rightarrow> gerror option" where
  "Serve_result err cctx s =
     (case err of
        None \<Rightarrow> None
      | Some e \<Rightarrow> if errors_Is e CtxCanceled \<and> cctx = None \<and> isClosed s then None else Some e)"

definition Serve_exit :: "nat \<Rightarrow> ReverseTunnelServer \<Rightarrow> ReverseTunnelServer option" where
  "Serve_exit stream s =
     (if stream \<in> rs_serving s
      then Some (s\<lparr>rs_wg := rs_wg s - 1, rs_serving := rs_serving s - {stream}\<rparr>) else None)"

subsection \<open>All that may happen to a server\<close>

datatype rs_act = RAdd nat | RStop | RGracefulStop | RExit nat

text \<open>A stream that is being added is new: \<^verbatim>\<open>Serve\<close> wraps the stream it opened.\<close>

definition rs_do :: "rs_act \<Rightarrow> ReverseTunnelServer \<Rightarrow> ReverseTunnelServer option" where
  "rs_do a s =
     (case a of
        RAdd i \<Rightarrow> if i \<in> instances s then None else Some (snd (addInstance i s))
      | RStop \<Rightarrow> Some (Stop s)
      | RGracefulStop \<Rightarrow> Some (GracefulStop s)
      | RExit i \<Rightarrow> Serve_exit i s)"

inductive rs_reach :: "ReverseTunnelServer \<Rightarrow> ReverseTunnelServer \<Rightarrow> bool" for s0 where
  rs_start: "rs_reach s0 s0"
| rs_step: "rs_reach s0 s \<Longrightarrow> rs_do a s = Some s' \<Longrightarrow> rs_reach s0 s'"

fun rs_run :: "rs_act list \<Rightarrow> ReverseTunnelServer \<Rightarrow> ReverseTunnelServer option" where
  "rs_run [] s = Some s"
| "rs_run (a # as) s = (case rs_do a s of None \<Rightarrow> None | Some s' \<Rightarrow> rs_run as s')"

lemma rs_reach_run: "rs_reach s0 s \<Longrightarrow> rs_run as s = Some s' \<Longrightarrow> rs_reach s0 s'"
  by (induction as arbitrary: s) (auto split: option.splits intro: rs_reach.rs_step)

text \<open>
  The wait group counts the running calls of \<^verbatim>\<open>Serve\<close>; a stopped server has hung up every tunnel it
  ever had.
\<close>

definition rs_inv :: "ReverseTunnelServer \<Rightarrow> bool" where
  "rs_inv s \<longleftrightarrow> opts_wf (rs_opts s) \<and> finite (rs_serving s) \<and> rs_wg s = card (rs_serving s)
     \<and> rs_serving s \<subseteq> instances s \<and> rs_state s \<le> stateClosed
     \<and> (isClosed s \<longrightarrow> instances s \<subseteq> rs_hungup s)"

lemma rs_inv_new: "rs_inv (NewReverseTunnelServer opts)"
  by (simp add: rs_inv_def NewReverseTunnelServer_def instances_def isClosed_def state_defs)

lemma rs_inv_do: "rs_inv s \<Longrightarrow> rs_do a s = Some s' \<Longrightarrow> rs_inv s'"
  by (cases a) (auto simp: rs_inv_def rs_do_def addInstance_def Stop_def GracefulStop_def Serve_exit_def
      instances_def isClosed_def state_defs card_Diff_singleton card_insert_if split: if_splits option.splits)

lemma rs_inv_reach: "rs_reach s0 s \<Longrightarrow> rs_inv s0 \<Longrightarrow> rs_inv s"
  by (induction rule: rs_reach.induct) (auto intro: rs_inv_do)

definition rs_next :: "rs_act \<Rightarrow> ReverseTunnelServer \<Rightarrow> ReverseTunnelServer" where
  "rs_next a s = (case rs_do a s of None \<Rightarrow> s | Some s' \<Rightarrow> s')"

interpretation rs_gate: shutdown_gate isClosing rs_next "\<lambda>a. a = RStop \<or> a = RGracefulStop"
proof
  fix s :: ReverseTunnelServer and x
  show "isClosing s \<Longrightarrow> isClosing (rs_next x s)"
    by (cases x) (auto simp: rs_next_def rs_do_def isClosing_def addInstance_def Stop_def GracefulStop_def
        Serve_exit_def state_defs)
  show "x = RStop \<or> x = RGracefulStop \<Longrightarrow> isClosing (rs_next x s)"
    by (auto simp: rs_next_def rs_do_def isClosing_def Stop_def GracefulStop_def state_defs)
qed

end
