(* ===== verification/Handler_Properties.thy ===== *)
theory Handler_Properties
  imports Server_Properties Reverse_Server
begin

text \<open>
  The properties of establishing tunnels, of the handler with its reverse tunnels, and of the reverse tunnel server.
\<close>

subsection \<open>Establishing a tunnel\<close>

lemma est_err_do: "est_err (est_do a e) = est_err e"
  by (cases a) (auto simp: go_defs split: option.splits)

lemma est_err_fold: "est_err (fold est_do as e) = est_err e"
  by (induction as arbitrary: e) (simp_all add: est_err_do)

lemma est_cause_do:
  "est_cause e \<in> {None, Some CtxCanceled, est_err e} \<Longrightarrow> est_cause (est_do a e) \<in> {None, Some CtxCanceled, est_err e}"
  by (cases a) (auto simp: go_defs split: option.splits)

lemma est_cause_fold:
  "est_cause e \<in> {None, Some CtxCanceled, est_err e} \<Longrightarrow> est_cause (fold est_do as e) \<in> {None, Some CtxCanceled, est_err e}"
proof (induction as arbitrary: e)
  case (Cons a as)
  then show ?case using Cons.IH [of "est_do a e"] est_cause_do [of e a] by (simp add: est_err_do)
qed simp

lemma not_stopped:
  "(\<And>x. EDone x \<notin> set as) \<Longrightarrow> est_timer e \<noteq> Some Stopped \<Longrightarrow> (est_timer e = None \<longleftrightarrow> est_timer (fold est_do as e) = None)
     \<and> est_timer (fold est_do as e) \<noteq> Some Stopped"
proof (induction as arbitrary: e)
  case (Cons a as)
  have "est_timer (est_do a e) \<noteq> Some Stopped" "est_timer (est_do a e) = None \<longleftrightarrow> est_timer e = None"
    using Cons.prems by (cases a; auto simp: go_defs split: option.splits)+
  then show ?case using Cons.IH [of "est_do a e"] Cons.prems(1) by auto
qed simp

text \<open>
  C24. The establishment timeout decides once: whatever happens before, done returns the timeout error (FailedPrecondition) exactly
  when the timer fired before it, and otherwise what it was given; and then the timer never fires any more,
  so an established tunnel is never cancelled for taking too long to establish. Without a positive timeout there is no limit.
\<close>

theorem establishment_decides:
  assumes "e = fold est_do as (startEstablishment c t peer)" and "\<And>x. EDone x \<notin> set as"
    and "est_done err e = (res, e')"
  shows "(0 < t \<and> est_timer e = Some Fired \<and> res = Some (establishmentTimeoutError t peer)
        \<and> error_code (establishmentTimeoutError t peer) = Some FailedPrecondition)
    \<or> res = err \<and> est_timer e \<noteq> Some Fired
        \<and> (\<forall>bs. est_timer (fold est_do bs e') \<noteq> Some Fired
             \<and> est_cause (fold est_do bs e') \<noteq> Some (establishmentTimeoutError t peer))"
proof -
  let ?e0 = "startEstablishment c t peer"
  have inv: "est_inv e" using assms(1) est_inv_start est_inv_fold by blast
  have err: "est_err e = (if 0 < t then Some (establishmentTimeoutError t peer) else None)"
    unfolding assms(1) est_err_fold by (simp add: startEstablishment_def)
  have nst: "est_timer e \<noteq> Some Stopped" "est_timer e = None \<longleftrightarrow> \<not> 0 < t"
    using not_stopped [OF assms(2), of ?e0] assms(1) by (auto simp: startEstablishment_def split: if_splits)
  show ?thesis
  proof (cases "est_timer e = Some Fired")
    case True
    then show ?thesis
      using assms(3) err nst(2) by (auto simp: est_done_def timer_stop_def establishmentTimeoutError_def)
  next
    case False
    then have done_e: "res = err" "est_timer e' \<noteq> Some Armed" "est_timer e' \<noteq> Some Fired" "e' = est_do (EDone err) e"
      using assms(3) nst(1) by (cases "est_timer e"; cases "the (est_timer e)";
          auto simp: est_done_def timer_stop_def split: if_splits)+
    have "est_timer (fold est_do bs e') \<noteq> Some Fired
        \<and> est_cause (fold est_do bs e') \<noteq> Some (establishmentTimeoutError t peer)" for bs
    proof -
      have inv': "est_inv (fold est_do bs e')" unfolding done_e(4) by (intro est_inv_fold est_inv_do inv)
      have tm: "est_timer (fold est_do bs e') \<noteq> Some Fired"
        using stopped_stays_fold [OF done_e(2), of bs] done_e(3) by simp
      have eq: "fold est_do bs e' = fold est_do (as @ EDone err # bs) ?e0" by (simp add: done_e(4) assms(1))
      have "est_cause (fold est_do bs e') \<in> {None, Some CtxCanceled, est_err ?e0}"
        unfolding eq by (rule est_cause_fold) (simp add: startEstablishment_def)
      moreover have "est_err (fold est_do bs e') = est_err ?e0" unfolding eq by (rule est_err_fold)
      ultimately show ?thesis
        using tm inv' by (auto simp: est_inv_def establishmentTimeoutError_def Errorf_def)
    qed
    then show ?thesis using done_e(1) False by blast
  qed
qed

theorem establishment_decides_witness:
  "\<exists>e'. est_done None (fold est_do [EFire, ECancel] (startEstablishment None 7 ''server''))
       = (Some (establishmentTimeoutError 7 ''server''), e')"
proof -
  define e where "e = fold est_do [EFire, ECancel] (startEstablishment None 7 ''server'')"
  obtain res e' where d: "est_done None e = (res, e')" by fastforce
  have f: "est_timer e = Some Fired"
    by (simp add: e_def startEstablishment_def timer_fires_def timer_cancels_def est_cancel_def)
  from establishment_decides [OF e_def _ d] f d show ?thesis by (simp add: e_def)
qed

text \<open>
  C40. Start may return a channel that panics: when the context of the caller ends after the headers arrived but before the
  settings did, and the receive loop has not closed the channel yet, Start returns the channel without an error; its first
  NewStream reads the settings that are not there, which is a nil dereference.
\<close>

theorem start_unsettled_panics:
  assumes "Start_open None (Start_begin None opts) = Some y1" and "Start_header L opts pr md mem (Inr respMD) y1 = Some y2"
    and "st_ch y2 = Some c" and "chan_do L (ActTunnelCtx e) c = Some c'"
  shows "\<exists>y3. Start_settled (y2\<lparr>st_ch := Some c'\<rparr>) = Some y3 \<and> st_pc y3 = StOk \<and> st_ch y3 = Some c'
    \<and> (nc_opts a = [] \<longrightarrow> fst (newStream L a r c') = NewPanic)"
proof -
  have y1: "y1 = (Start_begin None opts)\<lparr>st_pc := StHeader\<rparr>"
    using assms(1) by (simp add: Start_open_def Start_begin_def)
  then have y2: "st_pc y2 = StSettings" "st_est y2 = startEstablishment None (establishmentTimeout opts) (fst (tunnelRoles False))"
    "c = newTunnelChannel None pr md (negotiates (md_Get L respMD grpctunnelNegotiateKey)) False opts mem"
    using assms(2,3) by (auto simp: Start_header_def Start_begin_def startEstablishment_def Let_def)
  have c': "c' = c\<lparr>ch_ctx := Some e\<rparr>" using assms(4) y2(3) by (simp add: newTunnelChannel_def)
  have "fst (newStream L a r c') = NewPanic" if "nc_opts a = []"
    using that by (simp add: c' y2(3) newStream_def allocateStream_def newTunnelChannel_def live_streams_def Let_def)
  moreover have "waitForSettings c' = Ready ()" by (simp add: waitForSettings_def c')
  moreover have "\<exists>e'. est_done None (st_est y2) = (None, e')"
    by (simp add: y2(2) est_done_def startEstablishment_def timer_stop_def)
  ultimately show ?thesis
    using y2(1) by (auto simp: Start_settled_def)
qed

theorem start_unsettled_panics_witness:
  "\<exists>y1 y2 c c' y3. Start_open None (Start_begin None demo_opts) = Some y1
     \<and> Start_header demo_lib demo_opts None None demo_mem (Inr (Some [grpctunnelNegotiateKey \<mapsto> [''on'']])) y1 = Some y2
     \<and> st_ch y2 = Some c \<and> ch_serverSendsSettings c \<and> chan_do demo_lib (ActTunnelCtx CtxCanceled) c = Some c'
     \<and> Start_settled (y2\<lparr>st_ch := Some c'\<rparr>) = Some y3 \<and> st_pc y3 = StOk \<and> st_ch y3 = Some c'
     \<and> fst (newStream demo_lib demo_call None c') = NewPanic"
proof -
  have "\<exists>y1 y2 c c'. Start_open None (Start_begin None demo_opts) = Some y1
     \<and> Start_header demo_lib demo_opts None None demo_mem (Inr (Some [grpctunnelNegotiateKey \<mapsto> [''on'']])) y1 = Some y2
     \<and> st_ch y2 = Some c \<and> ch_serverSendsSettings c \<and> chan_do demo_lib (ActTunnelCtx CtxCanceled) c = Some c'"
    by (simp add: Start_open_def Start_begin_def Start_header_def Let_def newTunnelChannel_def negotiates_def demo_lib_def
        md_entries_def)
  then obtain y1 y2 c c' where y: "Start_open None (Start_begin None demo_opts) = Some y1"
     "Start_header demo_lib demo_opts None None demo_mem (Inr (Some [grpctunnelNegotiateKey \<mapsto> [''on'']])) y1 = Some y2"
     "st_ch y2 = Some c" "ch_serverSendsSettings c" "chan_do demo_lib (ActTunnelCtx CtxCanceled) c = Some c'" by blast
  have "nc_opts demo_call = []" by (simp add: demo_call_def)
  with start_unsettled_panics [OF y(1-3,5), of demo_call None] y show ?thesis by blast
qed

subsection \<open>Reverse tunnels\<close>

text \<open>
  C36. Round robin: while the set of reverse tunnels does not change, the j-th pick is the j-th tunnel counted from the next index,
  around the list; as many picks as there are tunnels are the list of the tunnels, rotated. With no
  tunnel there is nothing to pick.
\<close>

theorem round_robin_fair:
  "(rc_chans c = [] \<longrightarrow> pick c = (None, c))
    \<and> (rc_chans c \<noteq> [] \<longrightarrow>
         picks m c = map (\<lambda>j. Some (allChans c ! ((next_idx c + j) mod length (rc_chans c)))) [0..<m]
         \<and> picks (length (rc_chans c)) c = map Some (rotate (next_idx c) (allChans c)))"
  using picks_nth [of c m] picks_rotate [of c] by (simp add: pick_def)

theorem round_robin_fair_witness:
  "picks 3 \<lparr>rc_avail = 0, rc_closed = {0}, rc_chans = [(10 :: nat, ()), (20, ()), (30, ())], rc_idx = 0\<rparr>
     = map Some (rotate 1 [10, 20, 30])"
proof -
  let ?c = "\<lparr>rc_avail = 0, rc_closed = {0}, rc_chans = [(10 :: nat, ()), (20, ()), (30, ())], rc_idx = 0\<rparr>"
  have "rc_chans ?c \<noteq> []" by simp
  then have "picks (length (rc_chans ?c)) ?c = map Some (rotate (next_idx ?c) (allChans ?c))"
    using round_robin_fair [of ?c 0] by blast
  moreover have "length (rc_chans ?c) = 3" "next_idx ?c = 1" "allChans ?c = [10, 20, 30]"
    by (simp_all add: allChans_def next_idx_def)
  ultimately show ?thesis by (simp only:)
qed

lemma pick_member:
  assumes "fst (pick rc) = Some ch"
  shows "ch \<in> set (allChans rc)"
proof -
  have ne: "rc_chans rc \<noteq> []" using assms by (auto simp: pick_def)
  then have "next_idx rc < length (allChans rc)" by (simp add: next_idx_def allChans_def)
  then have "allChans rc ! next_idx rc \<in> set (allChans rc)" by (rule nth_mem)
  then show ?thesis using assms pick_next [OF ne] by simp
qed

text \<open>The key that a call of \<^verbatim>\<open>openReverseTunnel\<close> carries is what the affinity function says of its tunnel.\<close>

definition affinity :: "'k TunnelServiceHandler \<Rightarrow> nat \<Rightarrow> 'k option" where
  "affinity h ch = (case h_affinityKey h of None \<Rightarrow> None | Some f \<Rightarrow> f ch)"

definition ort_key :: "'k ort_pc \<Rightarrow> 'k option option" where
  "ort_key pc = (case pc of OrtAdd k \<Rightarrow> Some k | _ \<Rightarrow> rev_key pc)"

definition keys_ok :: "'k TunnelServiceHandler \<Rightarrow> bool" where
  "keys_ok h \<longleftrightarrow> (\<forall>ch k. ort_key (h_calls h ch) = Some k \<longrightarrow> k = affinity h ch)"

lemma keys_ok_same: "keys_ok h \<Longrightarrow> h_calls h' = h_calls h \<Longrightarrow> h_affinityKey h' = h_affinityKey h \<Longrightarrow> keys_ok h'"
  by (simp add: keys_ok_def affinity_def)

lemma handler_keys_same [simp]:
  "h_calls (remove_key ch k h) = h_calls h" "h_affinityKey (remove_key ch k h) = h_affinityKey h"
  "h_calls (unregister_all ch h) = h_calls h" "h_affinityKey (unregister_all ch h) = h_affinityKey h"
  "h_calls (reverseChannelsForKey k h) = h_calls h" "h_affinityKey (reverseChannelsForKey k h) = h_affinityKey h"
  by (simp_all add: remove_key_def unregister_all_def reverseChannelsForKey_def split: option.splits prod.splits)

lemma keys_ok_ort:
  assumes "keys_ok h" and "ort_step ch settled h = Some h'"
  shows "keys_ok h' \<and> h_affinityKey h' = h_affinityKey h"
proof -
  have same: "h_affinityKey h' = h_affinityKey h"
    using assms(2) by (cases "h_calls h ch") (auto simp: ort_step_def set_pc_def split: if_splits option.splits)
  have "j \<noteq> ch \<Longrightarrow> h_calls h' j = h_calls h j" for j
    using assms(2) by (cases "h_calls h ch") (auto simp: ort_step_def set_pc_def split: if_splits option.splits)
  moreover have "k = affinity h ch \<or> ort_key (h_calls h ch) = Some k" if "ort_key (h_calls h' ch) = Some k" for k
    using assms(2) that
    by (cases "h_calls h ch") (auto simp: ort_step_def set_pc_def ort_key_def affinity_def split: if_splits option.splits)
  ultimately show ?thesis using assms(1) same unfolding keys_ok_def affinity_def by metis
qed

lemma keys_ok_do:
  assumes "keys_ok h" and "handler_do a h = Some h'"
  shows "keys_ok h' \<and> h_affinityKey h' = h_affinityKey h"
proof (cases "\<exists>ch settled. a = HStep ch settled")
  case True
  then show ?thesis using assms keys_ok_ort [OF assms(1)] by auto
next
  case False
  have pick: "h_calls (snd (multi_pick mc h)) = h_calls h \<and> h_affinityKey (snd (multi_pick mc h)) = h_affinityKey h" for mc
    by (cases mc) (auto simp: pickAll_def pickKey_def split: option.splits prod.splits)
  have wait: "h_calls (snd (multi_wait mc h)) = h_calls h \<and> h_affinityKey (snd (multi_wait mc h)) = h_affinityKey h" for mc
    by (cases mc) (auto simp: Let_def)
  have "h_calls h' = h_calls h \<and> h_affinityKey h' = h_affinityKey h"
    using assms(2) False pick wait by (cases a) (auto simp: unregister_key_def InitiateShutdown_def split: list.splits)
  then show ?thesis using keys_ok_same [OF assms(1)] by simp
qed

lemma keys_ok_reach: "handler_reach h0 h \<Longrightarrow> keys_ok h0 \<Longrightarrow> keys_ok h \<and> h_affinityKey h = h_affinityKey h0"
  by (induction rule: handler_reach.induct) (auto dest: keys_ok_do)

lemma affinity_reach:
  assumes "handler_reach (NewTunnelServiceHandler options) h" and "in_key (h_calls h ch) = Some key"
  shows "key = (case AffinityKey options of None \<Rightarrow> None | Some f \<Rightarrow> f ch)"
proof -
  have "keys_ok (NewTunnelServiceHandler options)" by (simp add: keys_ok_def NewTunnelServiceHandler_def ort_key_def)
  from keys_ok_reach [OF assms(1) this] have "keys_ok h" "h_affinityKey h = AffinityKey options"
    by (simp_all add: NewTunnelServiceHandler_def)
  moreover have "ort_key (h_calls h ch) = Some key" using assms(2) by (cases "h_calls h ch") (simp_all add: ort_key_def)
  ultimately show ?thesis by (auto simp: keys_ok_def affinity_def)
qed

lemma pickKey_registered:
  assumes "handler_inv h" and "fst (pickKey key h) = Some ch"
  shows "in_key (h_calls h ch) = Some key"
proof -
  obtain rc where rc: "h_reverseByKey h key = Some rc" "fst (pick rc) = Some ch"
    using assms(2) by (auto simp: pickKey_def split: option.splits prod.splits)
  then have "ch \<in> set (allChans rc)" by (intro pick_member)
  then show ?thesis
    using assms(1) rc(1) by (auto simp: handler_inv_def tables_ok_def table_ok_def allChans_def)
qed

text \<open>
  C37. The tables of reverse tunnels agree with the calls that serve them: in every reachable state of a handler, a tunnel whose call
  has returned or is about to close is in no table; an established tunnel that nobody tore down is in the table of all
  tunnels and in that of its key; and an RPC for a key goes only to a tunnel registered under that key, which is
  the key that the configured affinity function gives for the tunnel.
\<close>

theorem reverse_tables_agree:
  assumes "handler_reach (NewTunnelServiceHandler options) h"
  shows "(h_calls h ch \<in> {OrtClose, OrtReturned} \<longrightarrow> ch \<notin> set (AllReverseTunnels h)
        \<and> (\<forall>key rc. h_reverseByKey h key = Some rc \<longrightarrow> ch \<notin> set (allChans rc)))
    \<and> (h_calls h ch = OrtAwait k \<and> ch \<notin> h_torn h \<longrightarrow> ch \<in> set (AllReverseTunnels h)
        \<and> (\<exists>rc. h_reverseByKey h k = Some rc \<and> ch \<in> set (allChans rc)))
    \<and> (fst (pickKey key h) = Some ch \<longrightarrow> in_key (h_calls h ch) = Some key
        \<and> key = (case AffinityKey options of None \<Rightarrow> None | Some f \<Rightarrow> f ch))"
proof -
  have inv: "handler_inv h" by (rule handler_inv_reach [OF assms handler_inv_new])
  then have tab: "tables_ok (rev_key \<circ> h_calls h) (in_key \<circ> h_calls h) (h_reverse h) (h_reverseByKey h)"
    and pres: "present_ok (h_torn h) (rev_key \<circ> h_calls h) (in_key \<circ> h_calls h) (h_reverse h) (h_reverseByKey h)"
    by (simp_all add: handler_inv_def)
  have keyed: "in_key (h_calls h c) = Some key" if "h_reverseByKey h key = Some rc" "c \<in> set (allChans rc)" for c key rc
    using tab that by (auto simp: tables_ok_def table_ok_def allChans_def)
  have listed: "rev_key (h_calls h c) \<noteq> None" if "c \<in> set (AllReverseTunnels h)" for c
    using tab that by (auto simp: tables_ok_def table_ok_def allChans_def AllReverseTunnels_def)
  have "ch \<in> set (AllReverseTunnels h) \<and> (\<exists>rc. h_reverseByKey h k = Some rc \<and> ch \<in> set (allChans rc))"
    if "h_calls h ch = OrtAwait k" "ch \<notin> h_torn h"
  proof -
    have "(ch, k) \<in> set (rc_chans (h_reverse h))" "\<exists>rc. h_reverseByKey h k = Some rc \<and> (ch, k) \<in> set (rc_chans rc)"
      using pres that by (auto simp: present_ok_def)
    then show ?thesis by (force simp: AllReverseTunnels_def allChans_def)
  qed
  moreover have "in_key (h_calls h ch) = Some key \<and> key = (case AffinityKey options of None \<Rightarrow> None | Some f \<Rightarrow> f ch)"
    if "fst (pickKey key h) = Some ch"
    using pickKey_registered [OF inv that] affinity_reach [OF assms] by blast
  moreover have "ch \<notin> set (AllReverseTunnels h) \<and> (\<forall>key rc. h_reverseByKey h key = Some rc \<longrightarrow> ch \<notin> set (allChans rc))"
    if "h_calls h ch \<in> {OrtClose, OrtReturned}"
  proof -
    have n: "rev_key (h_calls h ch) = None" "in_key (h_calls h ch) = None" using that by auto
    have "ch \<notin> set (AllReverseTunnels h)" using listed [of ch] n(1) by blast
    moreover have "ch \<notin> set (allChans rc)" if "h_reverseByKey h key = Some rc" for key rc
      using keyed [OF that, of ch] n(2) by auto
    ultimately show ?thesis by blast
  qed
  ultimately show ?thesis by blast
qed

definition demo_handler :: "unit TunnelServiceHandler" where
  "demo_handler = NewTunnelServiceHandler \<lparr>NoReverseTunnels = False, OnReverseTunnelOpen = True, OnReverseTunnelClose = False,
     AffinityKey = Some (\<lambda>ch. Some ()), InitialWindowSize = 0, MaxChunkSize = 0, MinWindowUpdateSize = 0,
     EstablishmentTimeout = 0\<rparr>"

lemmas demo_handler_eval =
  demo_handler_def NewTunnelServiceHandler_def ort_step_def set_pc_def add_def Let_def newReverseChannels_def
  reverseChannelsForKey_def remove_key_def remove_def unregister_all_def

theorem reverse_tables_agree_witness:
  "\<exists>h. handler_run [HStep 5 True, HStep 5 True, HStep 5 True, HStep 5 True, HStep 5 True, HStep 5 True] demo_handler = Some h
     \<and> 5 \<in> set (AllReverseTunnels h)
     \<and> (\<exists>rc. h_reverseByKey h (Some ()) = Some rc \<and> 5 \<in> set (allChans rc))"
proof -
  let ?run = "handler_run [HStep 5 True, HStep 5 True, HStep 5 True, HStep 5 True, HStep 5 True, HStep 5 True] demo_handler"
  have "\<exists>h. ?run = Some h \<and> h_calls h 5 = OrtAwait (Some ()) \<and> 5 \<notin> h_torn h"
    by (simp add: demo_handler_eval)
  then obtain h where h: "?run = Some h" "h_calls h 5 = OrtAwait (Some ())" "5 \<notin> h_torn h" by blast
  have "handler_reach demo_handler h"
    by (rule handler_reach_run [OF handler_reach.h_start h(1)])
  from reverse_tables_agree [OF this [unfolded demo_handler_def]] h show ?thesis by blast
qed

lemma rc_avail_mono: "rc_avail c \<le> rc_avail (rc_step x c)"
  by (cases x) (auto simp: pick_def add_def remove_def Let_def split: option.splits)

lemma rc_avail_fold: "rc_avail c \<le> rc_avail (fold rc_step xs c)"
  by (induction xs arbitrary: c) (auto intro: order_trans [OF rc_avail_mono])



subsection \<open>Shutting down\<close>

text \<open>
  C35. Shutdown lets nothing new in: once shutdown was initiated on a handler, or a reverse tunnel server was stopped in either way, whatever
  else happens before or after, every new stream on an existing tunnel is refused with Unavailable, while the
  streams, handlers and frames of the tunnel are left alone and its loop goes on.
\<close>

theorem shutdown_refuses_streams:
  assumes "closing = h_stopping (fold handler_next xs h) \<and> HShutdown \<in> set xs
      \<or> closing = isClosing (fold rs_next ys rs) \<and> (RStop \<in> set ys \<or> RGracefulStop \<in> set ys)"
    and "srv_inv s" and "sv_loop s = SrvRunning" and "sv_lastSeen s < i"
  shows "\<exists>e. error_code e = Some Unavailable
    \<and> serve_step L svcs closing (Inr (c2s i (ClientToServer_NewStream f))) s
        = Some (s\<lparr>sv_lastSeen := i, sv_jobs := sv_jobs s @ [[s2c i (ServerToClient_CloseStream
            \<lparr>ResponseTrailers = None, Status = Some (fst (FromError L e))\<rparr>)]]\<rparr>)"
proof -
  have closing: "closing"
    using assms(1) handler_gate.closing_after [of HShutdown xs h] rs_gate.closing_after [of RStop ys rs]
      rs_gate.closing_after [of RGracefulStop ys rs] by auto
  have "i \<notin> sv_streams s"
    using assms(2,4) by (fastforce simp: srv_inv_def srv_streams_ok_def)
  then show ?thesis
    using assms(3,4) closing
    by (intro exI [of _ "errShuttingDown (fst (tunnelRoles (sv_reverse s)))"])
       (simp add: serve_step_def createStream_def check_stream_def errShuttingDown_def split: prod.splits)
qed

theorem shutdown_refuses_streams_witness:
  "\<exists>e s'. error_code e = Some Unavailable
    \<and> serve_step demo_lib demo_svcs (h_stopping (fold handler_next [HShutdown, HStep 5 True] demo_handler))
        (Inr (c2s 0 (ClientToServer_NewStream (demo_open_frame ''/svc/m'' None)))) demo_srv = Some s'"
proof -
  have "sv_loop demo_srv = SrvRunning" "sv_lastSeen demo_srv < 0" by (simp_all add: demo_srv_def serveTunnel_def)
  from shutdown_refuses_streams [OF _ demo_srv_inv this, of _ "[HShutdown, HStep 5 True]" demo_handler "[]" "NewReverseTunnelServer []" demo_lib demo_svcs]
  show ?thesis by fastforce
qed

lemma closing_serving:
  "isClosing s \<Longrightarrow> rs_run as s = Some s' \<Longrightarrow> rs_serving s' \<subseteq> rs_serving s \<and> isClosing s'"
proof (induction as arbitrary: s)
  case (Cons a as)
  obtain s1 where s1: "rs_do a s = Some s1" "rs_run as s1 = Some s'"
    using Cons.prems(2) by (auto split: option.splits)
  have "isClosing s1" using rs_gate.closing_step [OF Cons.prems(1), of a] s1(1) by (simp add: rs_next_def)
  moreover have "rs_serving s1 \<subseteq> rs_serving s"
    using Cons.prems(1) s1(1) by (cases a) (auto simp: rs_do_def addInstance_def isClosing_def Stop_def GracefulStop_def
        Serve_exit_def split: if_splits)
  ultimately show ?case using Cons.IH [OF _ s1(2)] by blast
qed simp

text \<open>
  C39. Stopping a reverse tunnel server: in every reachable state in which it is stopped, every tunnel it still serves has been hung up; from
  then on no tunnel is added, whatever happens; and the wait at the end of Stop and GracefulStop returns exactly when no
  call of Serve is running any more.
\<close>

theorem stopped_server_drains:
  assumes "rs_reach (NewReverseTunnelServer opts) s"
  shows "(isClosed s \<longrightarrow> rs_serving s \<subseteq> rs_hungup s)
    \<and> (isClosing s \<longrightarrow> (\<forall>as s'. rs_run as s = Some s' \<longrightarrow> rs_serving s' \<subseteq> rs_serving s)
         \<and> (\<exists>e. addInstance i s = (Some e, s) \<and> error_code e = Some Unavailable))
    \<and> (wg_Wait s = Ready () \<longleftrightarrow> rs_serving s = {})
    \<and> isClosed (Stop s) \<and> isClosing (GracefulStop s)"
proof -
  have inv: "rs_inv s" by (rule rs_inv_reach [OF assms rs_inv_new])
  have "wg_Wait s = Ready () \<longleftrightarrow> rs_serving s = {}"
    using inv by (auto simp: wg_Wait_def rs_inv_def)
  moreover have "isClosed s \<longrightarrow> rs_serving s \<subseteq> rs_hungup s"
    using inv by (auto simp: rs_inv_def)
  moreover have "\<exists>e. addInstance i s = (Some e, s) \<and> error_code e = Some Unavailable" if "isClosing s"
    using that by (simp add: addInstance_def isClosing_def errShuttingDown_def)
  moreover have "isClosed (Stop s) \<and> isClosing (GracefulStop s)"
    by (auto simp: isClosed_def isClosing_def Stop_def GracefulStop_def state_defs)
  ultimately show ?thesis using closing_serving by blast
qed

theorem stopped_server_drains_witness:
  "\<exists>s. rs_run [RAdd 3, RAdd 4, RStop, RExit 3] (NewReverseTunnelServer []) = Some s
     \<and> rs_serving s = {4} \<and> rs_serving s \<subseteq> rs_hungup s \<and> wg_Wait s = Blocks"
proof -
  have "\<exists>s. rs_run [RAdd 3, RAdd 4, RStop, RExit 3] (NewReverseTunnelServer []) = Some s \<and> rs_serving s = {4} \<and> isClosed s"
    by (auto simp: NewReverseTunnelServer_def rs_do_def addInstance_def Stop_def Serve_exit_def instances_def isClosed_def state_defs)
  then obtain s where s: "rs_run [RAdd 3, RAdd 4, RStop, RExit 3] (NewReverseTunnelServer []) = Some s" "rs_serving s = {4}" "isClosed s"
    by blast
  have "rs_reach (NewReverseTunnelServer []) s"
    by (rule rs_reach_run [OF rs_reach.rs_start s(1)])
  from stopped_server_drains [OF this] s show ?thesis
    by (cases "wg_Wait s") auto
qed

end
