(* ===== verification/Message_Flow.thy ===== *)
theory Message_Flow
  imports Client_Stream Server_Stream "HOL-Library.Sublist"
begin

text \<open>
  What a sequence of data frames means. \<open>parse\<close> reads a whole history of frames with the switch of a receiving loop: the messages it
  completes, and where it stands. A sender that sends one message after the other writes histories that parse as the messages it sent
  (\<open>writer_ok\<close>), also when a call of \<^verbatim>\<open>send\<close> fails in the middle of a message; a reader that takes frames from its queue returns the
  messages that its history parses as (\<open>outcome\<close>). A shorter history parses as fewer messages, so what is read is a prefix of what was sent.
\<close>

subsection \<open>The messages in a history\<close>

datatype reading = Reading int bytes | Broken

fun take_frame :: "(int \<Rightarrow> bytes \<Rightarrow> 'f \<Rightarrow> read_ret + int \<times> bytes) \<Rightarrow> bytes list \<times> reading \<Rightarrow> 'f \<Rightarrow> bytes list \<times> reading" where
  "take_frame sw (ms, Broken) f = (ms, Broken)"
| "take_frame sw (ms, Reading k b) f =
     (case sw k b f of
        Inr (k', b') \<Rightarrow> (ms, Reading k' b')
      | Inl (d, ok, None) \<Rightarrow> (ms @ [d], Reading (-1) [])
      | Inl (d, ok, Some e) \<Rightarrow> (ms, Broken))"

definition parse :: "(int \<Rightarrow> bytes \<Rightarrow> 'f \<Rightarrow> read_ret + int \<times> bytes) \<Rightarrow> 'f list \<Rightarrow> bytes list \<times> reading" where
  "parse sw fs = foldl (take_frame sw) ([], Reading (-1) []) fs"

lemma parse_Nil [simp]: "parse sw [] = ([], Reading (-1) [])"
  by (simp add: parse_def)

lemma parse_append: "parse sw (fs @ gs) = foldl (take_frame sw) (parse sw fs) gs"
  by (simp add: parse_def)

lemma take_frame_prefix: "prefix (fst st) (fst (take_frame sw st f))"
  by (cases "(sw, st, f)" rule: take_frame.cases) (auto split: sum.splits prod.splits option.splits)

lemma foldl_take_prefix: "prefix (fst st) (fst (foldl (take_frame sw) st fs))"
proof (induction fs arbitrary: st)
  case (Cons f fs)
  show ?case using take_frame_prefix [of st sw f] Cons [of "take_frame sw st f"] by (simp add: prefix_order.trans)
qed simp

lemma parse_prefix: "prefix fs gs \<Longrightarrow> prefix (fst (parse sw fs)) (fst (parse sw gs))"
  by (auto simp: prefix_def [of fs] parse_append foldl_take_prefix)

lemma foldl_take_Broken [simp]: "foldl (take_frame sw) (ms, Broken) fs = (ms, Broken)"
  by (induction fs) simp_all

subsection \<open>Writers\<close>

text \<open>The data a call of \<^verbatim>\<open>send\<close> has yet to send, and the number of chunks sent.\<close>

fun sending :: "send_pc \<Rightarrow> (bytes \<times> nat) option" where
  "sending (AtLoad d i) = Some (d, i)"
| "sending (AtSelect d i) = Some (d, i)"
| "sending (AtCas d i w) = Some (d, i)"
| "sending (AtSend d i c) = Some (d, i)"
| "sending Idle = None"
| "sending (Returned r) = None"

fun chunk_held :: "send_pc \<Rightarrow> bool" where
  "chunk_held (AtSend d i c) = (unat c \<le> length d)"
| "chunk_held _ = True"

text \<open>
  A history \<open>fs\<close> of a sender that stands at \<open>pc\<close> in the message \<open>cur\<close> and has sent the messages \<open>sent\<close>: it parses as these,
  and as the chunks of \<open>cur\<close> so far, unless an earlier call failed in the middle of a message and left the history broken.
\<close>

definition writer_ok :: "(int \<Rightarrow> bytes \<Rightarrow> 'f \<Rightarrow> read_ret + int \<times> bytes) \<Rightarrow> 'f list \<Rightarrow> send_pc \<Rightarrow> u32 \<Rightarrow> bytes \<Rightarrow> bytes list \<Rightarrow> bool" where
  "writer_ok sw fs pc n cur sent \<longleftrightarrow>
     prefix (fst (parse sw fs)) sent \<and> (snd (parse sw fs) \<noteq> Broken \<longrightarrow> fst (parse sw fs) = sent) \<and> chunk_held pc
     \<and> (\<forall>d i. sending pc = Some (d, i) \<longrightarrow> length cur \<le> MaxUint32 \<and> n = u32_of_len cur \<and> suffix d cur
          \<and> (if i = 0 then d = cur
             else snd (parse sw fs) = Broken \<or> (\<exists>b. snd (parse sw fs) = Reading (int (length cur)) b \<and> b @ d = cur)))"

lemma writer_ok_start: "writer_ok sw [] Idle n cur []"
  by (simp add: writer_ok_def)

lemma writer_ok_idle: "writer_ok sw fs pc n cur sent \<Longrightarrow> sending pc' = None \<Longrightarrow> writer_ok sw fs pc' n' cur' sent"
  by (cases pc') (auto simp: writer_ok_def)

lemma writer_ok_begin:
  "writer_ok sw fs pc n cur sent \<Longrightarrow> length b \<le> MaxUint32 \<Longrightarrow> writer_ok sw fs (send_begin b) (u32_of_len b) b sent"
  by (auto simp: writer_ok_def send_begin_def)

lemma unat_chunkSz_le: "length d \<le> MaxUint32 \<Longrightarrow> unat (send_chunkSz s d i w) \<le> length d"
  by (simp add: send_chunkSz_def unat_min_word unat_u32_of_len)

text \<open>What a switch owes the sender: an envelope in the middle of a message is an error.\<close>

locale framed = framing frame_of measure
  for frame_of :: "bytes \<Rightarrow> u32 \<Rightarrow> bool \<Rightarrow> 'f" and measure :: "'f \<Rightarrow> nat \<times> bool" +
  fixes switch :: "int \<Rightarrow> bytes \<Rightarrow> 'f \<Rightarrow> read_ret + int \<times> bytes"
  assumes first_opens: "length d < unat n \<Longrightarrow> switch (-1) b (frame_of d n True) = Inr (int (unat n), d)"
    and first_whole: "length d = unat n \<Longrightarrow> switch (-1) b (frame_of d n True) = Inl (d, True, None)"
    and first_late: "k \<noteq> -1 \<Longrightarrow> \<exists>e. switch k b (frame_of d n True) = Inl ([], False, Some e)"
    and more_goes_on: "int (length (b @ d)) < k \<Longrightarrow> switch k b (frame_of d n False) = Inr (k, b @ d)"
    and more_whole: "int (length (b @ d)) = k \<Longrightarrow> switch k b (frame_of d n False) = Inl (b @ d, True, None)"
begin

text \<open>One chunk of the message \<open>cur\<close>.\<close>

lemma take_first:
  assumes "length d \<le> length cur" and "length cur \<le> MaxUint32" and "d = take (length d) cur"
  shows "take_frame switch (ms, Reading k b) (frame_of d (u32_of_len cur) True) =
    (if k \<noteq> -1 then (ms, Broken) else if d = cur then (ms @ [cur], Reading (-1) []) else (ms, Reading (int (length cur)) d))"
proof -
  have n: "unat (u32_of_len cur) = length cur" using assms(2) by (simp add: unat_u32_of_len)
  show ?thesis
  proof (cases "k = -1")
    case True
    show ?thesis
    proof (cases "length d = length cur")
      case eq: True
      then have "d = cur" using assms(3) by simp
      then show ?thesis using True first_whole [of cur "u32_of_len cur" b] n by simp
    next
      case False
      then have "length d < unat (u32_of_len cur)" "d \<noteq> cur" using assms(1) n by auto
      then show ?thesis using True first_opens [of d "u32_of_len cur" b] n by simp
    qed
  next
    case False
    then show ?thesis using first_late [of k b d "u32_of_len cur"] by auto
  qed
qed

lemma take_more:
  assumes "b @ d @ rest = cur"
  shows "take_frame switch (ms, Reading (int (length cur)) b) (frame_of d n False) =
    (if rest = [] then (ms @ [cur], Reading (-1) []) else (ms, Reading (int (length cur)) (b @ d)))"
proof (cases "rest = []")
  case True
  then show ?thesis using assms more_whole [of b d "int (length cur)" n] by auto
next
  case False
  then have "int (length (b @ d)) < int (length cur)" using assms by (simp flip: assms)
  then show ?thesis using False more_goes_on [of b d "int (length cur)" n] by simp
qed

lemma writer_sends:
  assumes "writer_ok switch fs (AtSend d i c) n cur sent"
  shows "writer_ok switch (fs @ [frame_of (take (unat c) d) n (i = 0)]) (send_after d i c None) n cur
    (if c = u32_of_len d then sent @ [cur] else sent)"
proof -
  obtain ms rd where p: "parse switch fs = (ms, rd)" by fastforce
  have w: "prefix ms sent" "rd \<noteq> Broken \<longrightarrow> ms = sent" "unat c \<le> length d" "length cur \<le> MaxUint32" "n = u32_of_len cur" "suffix d cur"
      "if i = 0 then d = cur else rd = Broken \<or> (\<exists>b. rd = Reading (int (length cur)) b \<and> b @ d = cur)"
    using assms by (simp_all add: writer_ok_def p split: if_splits)
  have len: "length d \<le> MaxUint32" using w(4,6) suffix_length_le [OF w(6)] by simp
  have all: "c = u32_of_len d \<longleftrightarrow> drop (unat c) d = []"
    using w(3) len by (auto simp: unat_u32_of_len unat_eq_iff_word)
  define f where "f = frame_of (take (unat c) d) n (i = 0)"
  have p': "parse switch (fs @ [f]) = take_frame switch (ms, rd) f"
    by (simp add: parse_append p)
  have sfx: "suffix (drop (unat c) d) cur" using w(6) suffix_drop suffix_order.trans by blast
  have "writer_ok switch (fs @ [f]) (send_after d i c None) n cur (if c = u32_of_len d then sent @ [cur] else sent)"
  proof (cases rd)
    case Broken
    then have "parse switch (fs @ [f]) = (ms, Broken)" by (simp add: p')
    then show ?thesis
      using w(1,4,5) sfx by (auto simp: writer_ok_def send_after_def intro: prefix_order.trans)
  next
    case (Reading k b)
    then have ms: "ms = sent" using w(2) by simp
    show ?thesis
    proof (cases "i = 0")
      case True
      then have d: "d = cur" using w(7) by simp
      have "parse switch (fs @ [f]) =
          (if k \<noteq> -1 then (ms, Broken) else if take (unat c) d = cur then (ms @ [cur], Reading (-1) [])
           else (ms, Reading (int (length cur)) (take (unat c) d)))"
        unfolding p' unfolding Reading f_def True simp_thms w(5) by (rule take_first) (use w(3,4) d in simp_all)
      moreover have "take (unat c) d = cur \<longleftrightarrow> c = u32_of_len d"
        unfolding all using d by (metis append_take_drop_id append_self_conv drop_eq_Nil take_all)
      ultimately show ?thesis
        using ms w(4,5) sfx d append_take_drop_id [of "unat c" d] by (auto simp: writer_ok_def send_after_def)
    next
      case False
      then have cur: "k = int (length cur)" "b @ d = cur" using w(7) Reading by auto
      then have "parse switch (fs @ [f]) =
          (if drop (unat c) d = [] then (ms @ [cur], Reading (-1) []) else (ms, Reading (int (length cur)) (b @ take (unat c) d)))"
        using take_more [of b "take (unat c) d" "drop (unat c) d" cur ms n] False unfolding p' unfolding Reading f_def by simp
      then show ?thesis
        using ms w(4,5) sfx cur append_take_drop_id [of "unat c" d] unfolding all [symmetric]
        by (auto simp: writer_ok_def send_after_def)
    qed
  qed
  then show ?thesis by (simp add: f_def)
qed

text \<open>Any operation of a call of \<^verbatim>\<open>send\<close>; a message counts as sent when the call returns without an error.\<close>

lemma writer_step:
  assumes "sys_do a y = Some z" and "send_own a" and "sys_out y = []"
    and "writer_ok switch fs (sys_pc y) (sys_size y) cur sent"
  shows "writer_ok switch (fs @ frames (sys_out z)) (sys_pc z) (sys_size y) cur
    (if a = SendFunc None \<and> sys_pc z = Returned None then sent @ [cur] else sent)"
proof (cases a)
  case (SendFunc r)
  then obtain d i c where pc: "sys_pc y = AtSend d i c" using assms(1) by (auto split: send_pc.splits)
  show ?thesis
  proof (cases r)
    case None
    have "sys_pc z = Returned None \<longleftrightarrow> c = u32_of_len d" "sys_pc z = send_after d i c None"
        "frames (sys_out z) = [frame_of (take (unat c) d) (sys_size y) (i = 0)]"
      using assms(1,3) SendFunc None pc by (auto simp: send_after_def frames_def split: if_splits)
    then show ?thesis using writer_sends [OF assms(4) [unfolded pc]] SendFunc None by simp
  next
    case (Some e)
    then have "sys_out z = []" "sending (sys_pc z) = None" using assms(1,3) SendFunc pc by (auto simp: send_after_def)
    then show ?thesis using writer_ok_idle [OF assms(4)] SendFunc Some by (simp add: frames_def)
  qed
next
  case Cas
  then obtain d i w where pc: "sys_pc y = AtCas d i w" using assms(1) by (auto split: send_pc.splits)
  have w: "length cur \<le> MaxUint32" "suffix d cur" using assms(4) by (auto simp: writer_ok_def pc)
  then have "length d \<le> MaxUint32" using suffix_length_le [OF w(2)] by simp
  then show ?thesis
    using assms Cas pc unat_chunkSz_le [of d "sys_sender y" i w]
    by (auto simp: writer_ok_def send_cas_def Let_def frames_def split: if_splits)
qed (use assms in \<open>auto simp: writer_ok_def send_load_def Let_def frames_def split: send_pc.splits if_splits option.splits\<close>)

end

lemma client_switch_late: "k \<noteq> -1 \<Longrightarrow> \<exists>e. client_switch peer k b (server_sendFunc d n True) = Inl ([], False, Some e)"
  by (simp add: server_sendFunc_def)

lemma server_switch_late: "k \<noteq> -1 \<Longrightarrow> \<exists>e. server_switch k b (client_sendData d n True) = Inl ([], False, Some e)"
  by (simp add: client_sendData_def)

interpretation responses: framed server_sendFunc client_measure "client_switch peer" for peer
  by unfold_locales (rule client_switch_frames client_switch_late; assumption)+

interpretation requests: framed client_sendData server_measure server_switch
  by unfold_locales (rule server_switch_frames server_switch_late; assumption)+

text \<open>The name of the peer is in the errors only.\<close>

lemma parse_peer: "parse (client_switch peer) = parse (client_switch peer')"
proof -
  have "take_frame (client_switch peer) st f = take_frame (client_switch peer') st f" for st f
    by (cases "(client_switch peer, st, f)" rule: take_frame.cases; cases f) simp_all
  then have "take_frame (client_switch peer) = take_frame (client_switch peer')" by (intro ext)
  then show ?thesis by (intro ext) (simp add: parse_def)
qed

subsection \<open>Readers\<close>

text \<open>
  A reader of the history \<open>inp\<close>, with the frames \<open>items\<close> still queued: it has taken a prefix of the history (all of it but the queue while
  the stream is open), which parses as the messages \<open>got\<close> it returned and those it holds; a read that failed is the last one.
\<close>

definition reader_ok :: "(int \<Rightarrow> bytes \<Rightarrow> 'f \<Rightarrow> read_ret + int \<times> bytes) \<Rightarrow> 'f list \<Rightarrow> bool \<Rightarrow> 'f list \<Rightarrow> gerror option
    \<Rightarrow> bytes list \<Rightarrow> bytes list \<times> int \<times> bytes \<Rightarrow> bool" where
  "reader_ok sw inp opn items err got at \<longleftrightarrow> (\<exists>taken. prefix (taken @ items) inp \<and> (opn \<longrightarrow> taken @ items = inp)
     \<and> prefix (got @ fst at) (fst (parse sw taken))
     \<and> (err = None \<longrightarrow> parse sw taken = (got @ fst at, Reading (fst (snd at)) (snd (snd at)))))"

lemma reader_ok_start: "reader_ok sw [] opn [] None [] ([], -1, [])"
  by (simp add: reader_ok_def)

lemma reader_ok_got:
  assumes "reader_ok sw inp opn items err got at"
  shows "prefix (got @ fst at) (fst (parse sw inp))"
proof -
  obtain taken where "prefix (taken @ items) inp" "prefix (got @ fst at) (fst (parse sw taken))"
    using assms by (auto simp: reader_ok_def)
  moreover from this have "prefix (fst (parse sw taken)) (fst (parse sw inp))"
    using parse_prefix [of taken inp sw] append_prefixD by blast
  ultimately show ?thesis using prefix_order.trans by blast
qed

text \<open>The queue may be dropped, and the history go on after the end of the stream.\<close>

lemma reader_ok_weaken:
  assumes "reader_ok sw inp opn items err got at" and "prefix inp inp'" and "opn' \<longrightarrow> opn \<and> items' = items \<and> inp' = inp"
    and "items' = items \<or> items' = []"
  shows "reader_ok sw inp' opn' items' err got at"
proof -
  obtain taken where t: "prefix (taken @ items) inp" "opn \<longrightarrow> taken @ items = inp" "prefix (got @ fst at) (fst (parse sw taken))"
      "err = None \<longrightarrow> parse sw taken = (got @ fst at, Reading (fst (snd at)) (snd (snd at)))"
    using assms(1) by (auto simp: reader_ok_def)
  have "prefix (taken @ items') (taken @ items)" using assms(4) by auto
  then have "prefix (taken @ items') inp'" using t(1) assms(2) prefix_order.trans by blast
  then show ?thesis using t(2-4) assms(3) unfolding reader_ok_def by blast
qed

lemma reader_ok_queue:
  "reader_ok sw inp True items err got at \<Longrightarrow> reader_ok sw (inp @ [f]) opn (items @ [f]) err got at"
  unfolding reader_ok_def by (elim exE, rule exI) (auto simp flip: append_assoc)

lemma reader_ok_err:
  "reader_ok sw inp opn items err got at \<Longrightarrow> prefix (got' @ fst at') (got @ fst at) \<Longrightarrow> reader_ok sw inp opn items (Some e) got' at'"
  unfolding reader_ok_def using prefix_order.trans by blast

text \<open>One frame, and a run of either loop.\<close>

lemma reader_ok_take:
  assumes "reader_ok sw inp opn (f # items) None got (xs, k, b)"
  shows "sw k b f = Inr (k', b') \<Longrightarrow> reader_ok sw inp opn items None got (xs, k', b')"
    and "sw k b f = Inl (d, ok, None) \<Longrightarrow> reader_ok sw inp opn items None got (xs @ [d], -1, [])"
    and "sw k b f = Inl (d, ok, Some e) \<Longrightarrow> reader_ok sw inp opn items (Some e) got (xs, -1, [])"
proof -
  obtain taken where t: "prefix ((taken @ [f]) @ items) inp" "opn \<longrightarrow> (taken @ [f]) @ items = inp"
      "parse sw taken = (got @ xs, Reading k b)"
    using assms by (auto simp: reader_ok_def)
  have p: "parse sw (taken @ [f]) = take_frame sw (got @ xs, Reading k b) f" by (simp add: parse_append t(3))
  show "sw k b f = Inr (k', b') \<Longrightarrow> reader_ok sw inp opn items None got (xs, k', b')"
    and "sw k b f = Inl (d, ok, None) \<Longrightarrow> reader_ok sw inp opn items None got (xs @ [d], -1, [])"
    and "sw k b f = Inl (d, ok, Some e) \<Longrightarrow> reader_ok sw inp opn items (Some e) got (xs, -1, [])"
    unfolding reader_ok_def by (rule exI [of _ "taken @ [f]"]; use t(1,2) p in simp)+
qed

definition loop_read :: "(int \<Rightarrow> bytes \<Rightarrow> 'f \<Rightarrow> read_ret + int \<times> bytes) \<Rightarrow> 'f list \<Rightarrow> bool \<Rightarrow> 'f list \<Rightarrow> bytes list
    \<Rightarrow> bytes list \<Rightarrow> read_res \<Rightarrow> bool" where
  "loop_read sw inp opn items got xs res \<longleftrightarrow>
     (\<forall>k b. res = RdBlock k b \<longrightarrow> reader_ok sw inp opn items None got (xs, k, b))
     \<and> (\<forall>d ok. res = RdRet (d, ok, None) \<longrightarrow> reader_ok sw inp opn items None got (xs @ [d], -1, []))
     \<and> (\<forall>d ok e. res = RdRet (d, ok, Some e) \<longrightarrow> reader_ok sw inp opn items (Some e) got (xs, -1, []))"

lemma loop_read_returns:
  "reader_ok sw inp opn (f # items) None got (xs, k, b) \<Longrightarrow> sw k b f = Inl ret \<Longrightarrow> loop_read sw inp opn items got xs (RdRet ret)"
  by (auto simp: loop_read_def dest: reader_ok_take)

lemma loop_read_ends:
  "reader_ok sw inp opn items None got (xs, k, b) \<Longrightarrow> e \<noteq> None \<Longrightarrow> loop_read sw inp opn items got xs (RdRet ([], True, e))"
  by (auto simp: loop_read_def intro: reader_ok_err)

lemma loop_read_waits:
  "reader_ok sw inp opn items None got (xs, k, b) \<Longrightarrow> loop_read sw inp opn items got xs (RdBlock k b)"
  by (simp add: loop_read_def)

lemma dequeue_items:
  "dequeue m r = (DeqWait, r') \<Longrightarrow> rcv_items r' = rcv_items r"
  "dequeue m r = (DeqEnd, r') \<Longrightarrow> r' = r \<and> (rcv_closed r \<or> rcv_cancelled r)"
  by (cases rule: dequeue_cases [where r = r and m = m]; auto)+

lemma client_loop_read:
  assumes "client_read_loop peer dn k b r = (res, r', us)" and "rcv_closed r \<or> rcv_cancelled r \<longrightarrow> dn \<noteq> None"
    and "reader_ok (client_switch peer) inp opn (rcv_items r) None got (xs, k, b)"
  shows "loop_read (client_switch peer) inp opn (rcv_items r') got xs res"
  using assms
proof (induction "length (rcv_items r)" arbitrary: k b r us rule: less_induct)
  case less
  from less.prems(1) show ?case
  proof (cases rule: client_reader.loop_cases)
    case waits
    then show ?thesis using less.prems(3) by (simp add: dequeue_items(1) loop_read_waits)
  next
    case ends
    then show ?thesis using less.prems(2,3) dequeue_items(2) [OF ends(1)] by (auto intro: loop_read_ends)
  next
    case (returns f u ret)
    then show ?thesis using less.prems(3) by (auto simp: dequeue_item_front intro: loop_read_returns)
  next
    case (continues f u r1 k' b' us')
    have "reader_ok (client_switch peer) inp opn (rcv_items r1) None got (xs, k', b')"
      using less.prems(3) by (intro reader_ok_take(1) [where sw = "client_switch peer" and f = f, OF _ continues(2)])
        (simp add: dequeue_item_front [OF continues(1)])
    then show ?thesis
      using less.hyps [OF continues(4,3)] less.prems(2) dequeue_flags [OF continues(1)] by simp
  qed
qed

lemma server_loop_read:
  assumes "server_read_loop c hc h k b r = (res, r', us)" and "rcv_closed r \<longrightarrow> hc \<noteq> None" and "\<not> rcv_cancelled r"
    and "reader_ok server_switch inp opn (rcv_items r) None got (xs, k, b)"
  shows "loop_read server_switch inp opn (rcv_items r') got xs res"
  using assms
proof (induction "length (rcv_items r)" arbitrary: h k b r us rule: less_induct)
  case less
  show ?case
  proof (cases "h \<and> c \<noteq> None")
    case True
    then show ?thesis using less.prems(1,4) by (auto simp: server_read_loop.simps [of c hc True k b r] intro: loop_read_ends)
  next
    case False
    obtain d r1 where deq: "dequeue server_measure r = (d, r1)" by (cases "dequeue server_measure r")
    note run = less.prems(1) [unfolded server_read_loop_past [OF False]]
    show ?thesis
    proof (cases d)
      case DeqEnd
      then show ?thesis
        using run deq less.prems(2-4) dequeue_items(2) [of server_measure r r1] by (auto intro: loop_read_ends)
    next
      case DeqWait
      then show ?thesis using run deq less.prems(4) dequeue_items(1) [of server_measure r r1] by (auto intro: loop_read_waits)
    next
      case (DeqItem f u)
      have items: "rcv_items r = f # rcv_items r1" using deq DeqItem by (simp add: dequeue_item_front)
      note flags = dequeue_flags [OF deq]
      show ?thesis
      proof (cases "server_switch k b f")
        case (Inl ret)
        then show ?thesis using run deq DeqItem less.prems(4) items by (auto intro: loop_read_returns)
      next
        case (Inr kb)
        obtain k' b' where kb: "kb = (k', b')" by fastforce
        obtain us' where rec: "server_read_loop c hc True k' b' r1 = (res, r', us')"
          using run deq DeqItem Inr kb by (auto simp: then_read_def split: prod.splits)
        have "reader_ok server_switch inp opn (rcv_items r1) None got (xs, k', b')"
          by (rule reader_ok_take(1) [where sw = server_switch and f = f]) (use less.prems(4) items Inr kb in simp_all)
        then show ?thesis
          by (intro less.hyps [OF _ rec]) (use less.prems(2,3) flags items in simp_all)
      qed
    qed
  qed
qed

subsection \<open>RecvMsg\<close>

text \<open>Where a read stands: the messages it holds and the loop's variables.\<close>

fun client_at :: "read_phase option \<Rightarrow> bytes list \<times> int \<times> bytes" where
  "client_at None = ([], -1, [])"
| "client_at (Some (FirstRead k b)) = ([], k, b)"
| "client_at (Some (SecondRead d k b)) = ([d], k, b)"

fun server_at :: "srv_phase option \<Rightarrow> bytes list \<times> int \<times> bytes" where
  "server_at None = ([], -1, [])"
| "server_at (Some (SrvFirst k b)) = ([], k, b)"
| "server_at (Some (SrvSecond d k b)) = ([d], k, b)"

fun read_err :: "read_res \<Rightarrow> gerror option" where
  "read_err (RdRet (d, ok, e)) = e"
| "read_err (RdBlock k b) = None"

definition entered :: "(int \<times> bytes) option \<Rightarrow> gerror option \<Rightarrow> int \<Rightarrow> bytes \<Rightarrow> bool" where
  "entered entry err k b \<longleftrightarrow> (if entry = None then k = -1 \<and> b = [] else entry = Some (k, b) \<and> err = None)"

lemma client_locked_read:
  assumes "client_readMsgLocked peer entry st = (res, st', us)" and "client_stream_ok W st"
    and "entered entry (cs_readErr st) k b"
    and "reader_ok (client_switch peer) inp opn (rcv_items (cs_receiver st)) (cs_readErr st) got (xs, k, b)"
  shows "loop_read (client_switch peer) inp opn (rcv_items (cs_receiver st')) got xs res \<and> cs_readErr st' = read_err res"
proof (cases "entry = None \<and> cs_readErr st \<noteq> None")
  case True
  then show ?thesis using assms(1,3,4) by (auto simp: client_readMsgLocked_def loop_read_def entered_def)
next
  case False
  then have err: "cs_readErr st = None" and kb: "(case entry of None \<Rightarrow> (-1, []) | Some e \<Rightarrow> e) = (k, b)"
    using assms(3) by (auto simp: entered_def split: if_splits)
  obtain res' r us' where lp: "client_read_loop peer (cs_done st) k b (cs_receiver st) = (res', r, us')" by (metis prod_cases3)
  have "loop_read (client_switch peer) inp opn (rcv_items r) got xs res'"
    by (rule client_loop_read [OF lp]) (use assms(2,4) err in \<open>auto simp: client_stream_ok_def\<close>)
  moreover have "res' = res" "cs_receiver st' = r" "cs_readErr st' = read_err res"
    using assms(1) False err kb lp
    by (auto simp: client_readMsgLocked_def Let_def split: read_res.splits option.splits prod.splits)
  ultimately show ?thesis by simp
qed

text \<open>
  What a call of \<^verbatim>\<open>readMsg\<close> does for its caller: it waits, or returns a message, or an error. The peer's name is of no
  importance.
\<close>

definition client_read :: "ServerToClientFrame list \<Rightarrow> bool \<Rightarrow> tunnelClientStream \<Rightarrow> bytes list \<Rightarrow> msg_res \<Rightarrow> bool" where
  "client_read inp opn st got res \<longleftrightarrow>
     (\<forall>ph. res = MsgBlock ph \<longrightarrow> cs_readErr st = None
        \<and> reader_ok (client_switch []) inp opn (rcv_items (cs_receiver st)) (cs_readErr st) got (client_at (Some ph)))
     \<and> (\<forall>d ok e. res = MsgRet (d, ok, e) \<longrightarrow> reader_ok (client_switch []) inp opn (rcv_items (cs_receiver st)) (cs_readErr st)
          (if e = None then got @ [d] else got) (client_at None))"

lemma reader_ok_peer: "reader_ok (client_switch peer) = reader_ok (client_switch [])"
  by (intro ext) (simp add: reader_ok_def parse_peer [of peer "[]"])

lemma reader_ok_failed: "reader_ok sw inp opn items err got (xs, k, b) \<Longrightarrow> reader_ok sw inp opn items (Some e) got ([], -1, [])"
  by (erule reader_ok_err) (simp add: prefix_def)

lemma reader_ok_returned:
  "reader_ok sw inp opn items err got ([d], k, b) \<Longrightarrow> err = None \<longrightarrow> (k, b) = (-1, []) \<Longrightarrow>
   reader_ok sw inp opn items err (got @ [d]) ([], -1, [])"
  by (auto simp: reader_ok_def)

lemma client_second_read:
  assumes "client_readSecond peer d entry st = (res, st', us)" and "client_stream_ok W st"
    and "entered entry (cs_readErr st) k b"
    and "reader_ok (client_switch []) inp opn (rcv_items (cs_receiver st)) (cs_readErr st) got ([d], k, b)"
  shows "client_read inp opn st' got res"
proof -
  obtain res1 st1 us1 where lk: "client_readMsgLocked peer entry st = (res1, st1, us1)" by (metis prod_cases3)
  have rd: "loop_read (client_switch []) inp opn (rcv_items (cs_receiver st1)) got [d] res1" "cs_readErr st1 = read_err res1"
    using client_locked_read [OF lk assms(2,3), of inp opn got "[d]"] assms(4) unfolding loop_read_def reader_ok_peer [of peer] by blast+
  then show ?thesis
    using assms(1) lk
    by (auto simp: client_readSecond_def client_read_def loop_read_def Let_def split: read_res.splits option.splits if_splits
        intro: reader_ok_returned) (erule reader_ok_failed)+
qed

lemma client_first_read:
  assumes "client_readFirst peer entry st = (res, st', us)" and "client_stream_ok W st"
    and "entered entry (cs_readErr st) k b"
    and "reader_ok (client_switch []) inp opn (rcv_items (cs_receiver st)) (cs_readErr st) got ([], k, b)"
  shows "client_read inp opn st' got res"
proof -
  obtain res1 st1 us1 where lk: "client_readMsgLocked peer entry st = (res1, st1, us1)" by (metis prod_cases3)
  have rd: "loop_read (client_switch []) inp opn (rcv_items (cs_receiver st1)) got [] res1" "cs_readErr st1 = read_err res1"
    using client_locked_read [OF lk assms(2,3), of inp opn got "[]"] assms(4) unfolding loop_read_def reader_ok_peer [of peer] by blast+
  have ok: "client_stream_ok W st1" by (rule reads_from_ok [OF client_readMsgLocked_reads [OF lk] assms(2)])
  show ?thesis
  proof (cases "\<exists>d g. res1 = RdRet (d, g, None) \<and> \<not> cs_isServerStream st")
    case True
    then obtain d g where d: "res1 = RdRet (d, g, None)" by blast
    then obtain us' where "client_readSecond peer d None st1 = (res, st', us')"
      using assms(1) lk True by (auto simp: client_readFirst_def split: prod.splits)
    then show ?thesis
      by (rule client_second_read [OF _ ok]) (use rd d in \<open>simp_all add: entered_def loop_read_def\<close>)
  next
    case False
    then show ?thesis
      using assms(1) lk rd
      by (auto simp: client_readFirst_def client_read_def loop_read_def split: read_res.splits intro: reader_ok_returned)
  qed
qed

lemma client_msg_read:
  assumes "client_readMsg peer ph st = (res, st', us)" and "client_stream_ok W st" and "ph \<noteq> None \<longrightarrow> cs_readErr st = None"
    and "reader_ok (client_switch []) inp opn (rcv_items (cs_receiver st)) (cs_readErr st) got (client_at ph)"
  shows "client_read inp opn st' got res"
  using assms client_first_read [OF _ assms(2)] client_second_read [OF _ assms(2)]
  by (auto simp: client_readMsg_def entered_def split: option.splits read_phase.splits)

text \<open>The same on the server, while its receiver is not cancelled.\<close>

lemma server_locked_read:
  assumes "server_readMsgLocked entry st = (res, st', us)" and "server_stream_ok W st" and "\<not> rcv_cancelled (ss_receiver st)"
    and "entered entry (ss_readErr st) k b"
    and "reader_ok server_switch inp opn (rcv_items (ss_receiver st)) (ss_readErr st) got (xs, k, b)"
  shows "loop_read server_switch inp opn (rcv_items (ss_receiver st')) got xs res \<and> ss_readErr st' = read_err res"
proof (cases "entry = None \<and> ss_readErr st \<noteq> None")
  case True
  then show ?thesis using assms(1,4,5) by (auto simp: server_readMsgLocked_def loop_read_def entered_def)
next
  case False
  then have err: "ss_readErr st = None" and kb: "(case entry of None \<Rightarrow> (-1, []) | Some e \<Rightarrow> e) = (k, b)"
    using assms(4) by (auto simp: entered_def split: if_splits)
  obtain res' r us' where lp: "server_read_loop (ss_ctx st) (ss_halfClosed st) (entry = None) k b (ss_receiver st) = (res', r, us')"
    by (metis prod_cases3)
  have "loop_read server_switch inp opn (rcv_items r) got xs res'"
    by (rule server_loop_read [OF lp]) (use assms(2,3,5) err in \<open>auto simp: server_stream_ok_def\<close>)
  moreover have "res' = res" "ss_receiver st' = r" "ss_readErr st' = read_err res"
    using assms(1) False err kb lp
    by (auto simp: server_readMsgLocked_def Let_def split: read_res.splits option.splits prod.splits)
  ultimately show ?thesis by simp
qed

definition server_read :: "ClientToServerFrame list \<Rightarrow> bool \<Rightarrow> tunnelServerStream \<Rightarrow> bytes list \<Rightarrow> srv_res \<Rightarrow> bool" where
  "server_read inp opn st got res \<longleftrightarrow>
     (\<forall>ph. res = SrvBlock ph \<longrightarrow> ss_readErr st = None
        \<and> reader_ok server_switch inp opn (rcv_items (ss_receiver st)) (ss_readErr st) got (server_at (Some ph)))
     \<and> (\<forall>d ok e. res = SrvRet (d, ok, e) \<longrightarrow> reader_ok server_switch inp opn (rcv_items (ss_receiver st)) (ss_readErr st)
          (if e = None then got @ [d] else got) (server_at None))"

lemma server_second_read:
  assumes "server_readSecond d entry st = (res, st', us)" and "server_stream_ok W st" and "\<not> rcv_cancelled (ss_receiver st)"
    and "entered entry (ss_readErr st) k b"
    and "reader_ok server_switch inp opn (rcv_items (ss_receiver st)) (ss_readErr st) got ([d], k, b)"
  shows "server_read inp opn st' got res"
proof -
  obtain res1 st1 us1 where lk: "server_readMsgLocked entry st = (res1, st1, us1)" by (metis prod_cases3)
  show ?thesis
    using assms(1) lk server_locked_read [OF lk assms(2-5)]
    by (auto simp: server_readSecond_def server_read_def loop_read_def Let_def split: read_res.splits option.splits if_splits
        intro: reader_ok_returned) (erule reader_ok_failed)+
qed

lemma server_locked_cancelled:
  assumes "server_readMsgLocked entry st = (res, st', us)"
  shows "rcv_cancelled (ss_receiver st') = rcv_cancelled (ss_receiver st)"
proof -
  have "rcv_cancelled r = rcv_cancelled (ss_receiver st)"
    if "server_read_loop c hc h k b (ss_receiver st) = (res', r, us')" for c hc h k b res' r us'
    by (rule server_read_loop_keeps [OF _ that, of "\<lambda>s. rcv_cancelled s = rcv_cancelled (ss_receiver st)"])
       (simp_all add: dequeue_flags)
  then show ?thesis
    using assms by (auto simp: server_readMsgLocked_def Let_def split: if_splits prod.splits read_res.splits option.splits)
qed

lemma server_first_read:
  assumes "server_readFirst entry st = (res, st', us)" and "server_stream_ok W st" and "\<not> rcv_cancelled (ss_receiver st)"
    and "entered entry (ss_readErr st) k b"
    and "reader_ok server_switch inp opn (rcv_items (ss_receiver st)) (ss_readErr st) got ([], k, b)"
  shows "server_read inp opn st' got res"
proof -
  obtain res1 st1 us1 where lk: "server_readMsgLocked entry st = (res1, st1, us1)" by (metis prod_cases3)
  note rd = server_locked_read [OF lk assms(2-5)]
  have ok: "server_stream_ok W st1" "\<not> rcv_cancelled (ss_receiver st1)"
    using server_readMsgLocked_reads [OF lk] assms(2,3) server_locked_cancelled [OF lk] by (simp_all add: server_reads_from_def)
  show ?thesis
  proof (cases "\<exists>d g. res1 = RdRet (d, g, None) \<and> \<not> ss_isClientStream st")
    case True
    then obtain d g where d: "res1 = RdRet (d, g, None)" by blast
    then obtain us' where "server_readSecond d None st1 = (res, st', us')"
      using assms(1) lk True by (auto simp: server_readFirst_def split: prod.splits)
    then show ?thesis
      by (rule server_second_read [OF _ ok]) (use rd d in \<open>auto simp: entered_def loop_read_def\<close>)
  next
    case False
    then show ?thesis
      using assms(1) lk rd
      by (auto simp: server_readFirst_def server_read_def loop_read_def split: read_res.splits intro: reader_ok_returned)
  qed
qed

lemma server_msg_read:
  assumes "server_readMsg ph st = (res, st', us)" and "server_stream_ok W st" and "\<not> rcv_cancelled (ss_receiver st)"
    and "ph \<noteq> None \<longrightarrow> ss_readErr st = None"
    and "reader_ok server_switch inp opn (rcv_items (ss_receiver st)) (ss_readErr st) got (server_at ph)"
  shows "server_read inp opn st' got res"
  using assms server_first_read [OF _ assms(2,3)] server_second_read [OF _ assms(2,3)]
  by (auto simp: server_readMsg_def entered_def split: option.splits srv_phase.splits)

text \<open>
  Once the receiver is cancelled nothing waits: a read that waited returns the error of the half-close or, if there is none, an empty
  message; a read that starts now finds the context done.
\<close>

lemma server_loop_ended:
  "rcv_cancelled r \<Longrightarrow> server_read_loop c hc h k b r = (RdRet ([], True, if h \<and> c \<noteq> None then c else hc), r, [])"
  by (auto simp: server_read_loop.simps [of c hc h k b r] dequeue_def)

lemma server_locked_ended:
  assumes "server_readMsgLocked entry st = (res, st', us)" and "rcv_cancelled (ss_receiver st)" and "ss_ctx st \<noteq> None"
  shows "\<exists>e. res = RdRet ([], True, e) \<and> (entry = None \<longrightarrow> e \<noteq> None)"
  using assms
  by (auto simp: server_readMsgLocked_def server_loop_ended Let_def split: if_splits option.splits prod.splits)

lemma server_msg_ended:
  assumes "server_readMsg ph st = (res, st', us)" and "rcv_cancelled (ss_receiver st)" and "ss_ctx st \<noteq> None"
  shows "\<exists>ret. res = SrvRet ret \<and> (snd (snd ret) = None \<longrightarrow>
    (\<exists>k b. ph = Some (SrvFirst k b) \<and> fst ret = [] \<or> ph = Some (SrvSecond (fst ret) k b)))"
proof -
  have second: "\<exists>ret. res = SrvRet ret \<and> (snd (snd ret) = None \<longrightarrow> fst ret = d)"
    if r: "server_readSecond d entry st = (res, st', us)" "rcv_cancelled (ss_receiver st)" "ss_ctx st \<noteq> None" for d entry st res st' us
  proof -
    obtain res1 st1 us1 where lk: "server_readMsgLocked entry st = (res1, st1, us1)" by (metis prod_cases3)
    show ?thesis
      using r(1) lk server_locked_ended [OF lk r(2,3)]
      by (auto simp: server_readSecond_def Let_def simp del: split_paired_Ex split: option.splits if_splits)
  qed
  have first: "\<exists>ret. res = SrvRet ret \<and> (snd (snd ret) = None \<longrightarrow> entry \<noteq> None \<and> fst ret = [])"
    if r: "server_readFirst entry st = (res, st', us)" for entry
  proof -
    obtain res1 st1 us1 where lk: "server_readMsgLocked entry st = (res1, st1, us1)" by (metis prod_cases3)
    have st1: "rcv_cancelled (ss_receiver st1)" "ss_ctx st1 \<noteq> None"
      using server_locked_cancelled [OF lk] server_reads_from_fields(1) [OF server_readMsgLocked_reads [OF lk]] assms(2,3) by simp_all
    obtain e where e: "res1 = RdRet ([], True, e)" "entry = None \<longrightarrow> e \<noteq> None" using server_locked_ended [OF lk assms(2,3)] by blast
    show ?thesis
      using r lk e second [OF _ st1] by (auto simp: server_readFirst_def split: prod.splits if_splits)
  qed
  show ?thesis
    using assms(1) by (auto simp: server_readMsg_def split: option.splits srv_phase.splits dest!: first second [OF _ assms(2,3)])
qed

end
