(* ===== verification/Delivery_Client.thy ===== *)
theory Delivery_Client
  imports Message_Flow Channel_Invariant
begin

text \<open>
  What the client's end of a tunnel sends and reads, step by step. \<open>rpc_log\<close> records for every stream the message being sent, the messages
  sent (\<^verbatim>\<open>SendMsg\<close> returned no error), the messages \<^verbatim>\<open>RecvMsg\<close> returned, and where a call of \<^verbatim>\<open>RecvMsg\<close> waits. \<open>client_end\<close> relates
  the log to the frames the channel has sent and received; every step of the channel keeps it.
\<close>

subsection \<open>The data in a list of frames\<close>

fun up_data :: "ClientToServerFrame option \<Rightarrow> ClientToServerFrame list" where
  "up_data (Some (ClientToServer_RequestMessage m)) = [ClientToServer_RequestMessage m]"
| "up_data (Some (ClientToServer_MoreRequestData d)) = [ClientToServer_MoreRequestData d]"
| "up_data _ = []"

fun down_data :: "ServerToClientFrame option \<Rightarrow> ServerToClientFrame list" where
  "down_data (Some (ServerToClient_ResponseMessage m)) = [ServerToClient_ResponseMessage m]"
| "down_data (Some (ServerToClient_MoreResponseData d)) = [ServerToClient_MoreResponseData d]"
| "down_data _ = []"

definition data_up :: "i64 \<Rightarrow> ClientToServer list \<Rightarrow> ClientToServerFrame list" where
  "data_up i ms = concat (map (\<lambda>m. if C2S_StreamId m = i then up_data (C2S_Frame m) else []) ms)"

definition data_down :: "i64 \<Rightarrow> ServerToClient list \<Rightarrow> ServerToClientFrame list" where
  "data_down i ms = concat (map (\<lambda>m. if S2C_StreamId m = i then down_data (S2C_Frame m) else []) ms)"

lemma data_simps [simp]:
  "data_up i [] = []" "data_up i (x @ y) = data_up i x @ data_up i y"
  "data_down i [] = []" "data_down i (x' @ y') = data_down i x' @ data_down i y'"
  by (simp_all add: data_up_def data_down_def)

lemma data_single [simp]:
  "data_up i [m] = (if C2S_StreamId m = i then up_data (C2S_Frame m) else [])"
  "data_down i [n] = (if S2C_StreamId n = i then down_data (S2C_Frame n) else [])"
  by (simp_all add: data_up_def data_down_def)

lemma data_other [simp]:
  "i \<noteq> j \<Longrightarrow> data_up i (map (c2s j) fs) = []" "i \<noteq> j \<Longrightarrow> data_down i (map (s2c j) gs) = []"
  by (simp_all add: data_up_def data_down_def)

lemma data_none:
  "(\<And>m. m \<in> set ms \<Longrightarrow> C2S_StreamId m = i \<Longrightarrow> up_data (C2S_Frame m) = []) \<Longrightarrow> data_up i ms = []"
  "(\<And>n. n \<in> set ns \<Longrightarrow> S2C_StreamId n = i \<Longrightarrow> down_data (S2C_Frame n) = []) \<Longrightarrow> data_down i ns = []"
  by (auto simp: data_up_def data_down_def)

lemma data_chunks:
  "data_up i (map (c2s i) (map (\<lambda>(d, n, b). client_sendData d n b) cs)) = req.frames cs"
  "data_down i (map (s2c i) (map (\<lambda>(d, n, b). server_sendFunc d n b) cs)) = resp.frames cs"
  by (induction cs)
     (auto simp: data_up_def data_down_def req.frames_def resp.frames_def client_sendData_def server_sendFunc_def)

lemma data_updates [simp]:
  "data_up i (map (c2s j) (map ClientToServer_WindowUpdate us)) = []"
  "data_down i (map (s2c j) (map ServerToClient_WindowUpdate us)) = []"
  by (simp_all add: data_up_def data_down_def)

lemma prefix_data: "prefix ms ns \<Longrightarrow> prefix (data_up i ms) (data_up i ns)" "prefix ms' ns' \<Longrightarrow> prefix (data_down i ms') (data_down i ns')"
  by (auto simp: prefix_def)

subsection \<open>The log of an end\<close>

record 'p rpc_log =
  lg_cur :: "i64 \<Rightarrow> bytes"
  lg_sent :: "i64 \<Rightarrow> bytes list"
  lg_got :: "i64 \<Rightarrow> bytes list"
  lg_at :: "i64 \<Rightarrow> 'p option"

definition log_empty :: "'p rpc_log" where
  "log_empty = \<lparr>lg_cur = (\<lambda>i. []), lg_sent = (\<lambda>i. []), lg_got = (\<lambda>i. []), lg_at = (\<lambda>i. None)\<rparr>"

definition log_begins :: "i64 \<Rightarrow> bytes \<Rightarrow> 'p rpc_log \<Rightarrow> 'p rpc_log" where
  "log_begins i b lg = lg\<lparr>lg_cur := (lg_cur lg)(i := b)\<rparr>"

definition log_sends :: "i64 \<Rightarrow> 'p rpc_log \<Rightarrow> 'p rpc_log" where
  "log_sends i lg = lg\<lparr>lg_sent := (lg_sent lg)(i := lg_sent lg i @ [lg_cur lg i])\<rparr>"

definition log_waits :: "i64 \<Rightarrow> 'p option \<Rightarrow> 'p rpc_log \<Rightarrow> 'p rpc_log" where
  "log_waits i ph lg = lg\<lparr>lg_at := (lg_at lg)(i := ph)\<rparr>"

definition log_gets :: "i64 \<Rightarrow> bytes \<Rightarrow> 'p rpc_log \<Rightarrow> 'p rpc_log" where
  "log_gets i d lg = lg\<lparr>lg_got := (lg_got lg)(i := lg_got lg i @ [d]), lg_at := (lg_at lg)(i := None)\<rparr>"

lemmas log_defs = log_empty_def log_begins_def log_sends_def log_waits_def log_gets_def

text \<open>What a step of the channel \<open>c\<close> to \<open>c'\<close> adds to the client's log.\<close>

fun client_log :: "chan_act \<Rightarrow> tunnelChannel \<Rightarrow> tunnelChannel \<Rightarrow> read_phase rpc_log \<Rightarrow> read_phase rpc_log" where
  "client_log (ActSendMsg i (Inr b)) c c' lg = log_begins i b lg"
| "client_log (ActSend i (SendFunc None)) c c' lg =
     (if map_option cs_pc (ch_heap c' i) = Some (Returned None) then log_sends i lg else lg)"
| "client_log (ActRecvMsg i ph) c c' lg =
     (case stream_RecvMsg ph i c of
        Some (RecvWaits ph', _) \<Rightarrow> log_waits i (Some ph') lg
      | Some (RecvData d, _) \<Rightarrow> log_gets i d lg
      | _ \<Rightarrow> log_waits i None lg)"
| "client_log _ c c' lg = lg"

subsection \<open>The account of a stream\<close>

definition client_writes :: "i64 \<Rightarrow> ClientToServer list \<Rightarrow> tunnelClientStream \<Rightarrow> read_phase rpc_log \<Rightarrow> bool" where
  "client_writes i out st lg \<longleftrightarrow>
     writer_ok server_switch (data_up i out) (cs_pc st) (cs_sendSize st) (lg_cur lg i) (lg_sent lg i)"

definition client_reads :: "i64 \<Rightarrow> ServerToClient list \<Rightarrow> bool \<Rightarrow> tunnelClientStream \<Rightarrow> read_phase rpc_log \<Rightarrow> bool" where
  "client_reads i inp on st lg \<longleftrightarrow>
     reader_ok (client_switch []) (data_down i inp) (on \<and> \<not> rcv_closed (cs_receiver st)) (rcv_items (cs_receiver st)) (cs_readErr st)
       (lg_got lg i) (client_at (lg_at lg i))
     \<and> (lg_at lg i \<noteq> None \<longrightarrow> cs_readErr st = None)"

definition client_end :: "ServerToClient list \<Rightarrow> tunnelChannel \<Rightarrow> read_phase rpc_log \<Rightarrow> bool" where
  "client_end inp c lg \<longleftrightarrow>
     (\<forall>i st. ch_heap c i = Some st \<longrightarrow> client_writes i (ch_sent c) st lg \<and> client_reads i inp (i \<in> live_streams c) st lg)
     \<and> (\<forall>i. ch_heap c i = None \<longrightarrow> data_up i (ch_sent c) = [] \<and> lg_sent lg i = [] \<and> lg_got lg i = [] \<and> lg_at lg i = None)
     \<and> (\<forall>m\<in>set (ch_jobs c). up_data (C2S_Frame m) = [])"

lemma reader_ok_more: "reader_ok sw inp opn items err got at \<Longrightarrow> reader_ok sw (inp @ fs) False items err got at"
  by (erule reader_ok_weaken) simp_all

subsection \<open>Steps that neither send nor read\<close>

definition cs_still :: "bool \<Rightarrow> tunnelClientStream \<Rightarrow> bool \<Rightarrow> tunnelClientStream \<Rightarrow> bool" where
  "cs_still on st on' st' \<longleftrightarrow> (cs_pc st', cs_sendSize st', cs_readErr st') = (cs_pc st, cs_sendSize st, cs_readErr st)
     \<and> (rcv_items (cs_receiver st') = rcv_items (cs_receiver st) \<or> rcv_items (cs_receiver st') = [])
     \<and> (on' \<and> \<not> rcv_closed (cs_receiver st') \<longrightarrow> on \<and> \<not> rcv_closed (cs_receiver st)
          \<and> rcv_items (cs_receiver st') = rcv_items (cs_receiver st))"

definition client_still :: "tunnelChannel \<Rightarrow> tunnelChannel \<Rightarrow> bool" where
  "client_still c c' \<longleftrightarrow> (\<forall>i. data_up i (ch_sent c') = data_up i (ch_sent c))
     \<and> (\<forall>m\<in>set (ch_jobs c'). m \<in> set (ch_jobs c) \<or> up_data (C2S_Frame m) = [])
     \<and> (\<forall>i. ch_heap c i = None \<longrightarrow> ch_heap c' i = None)
     \<and> (\<forall>i st. ch_heap c i = Some st \<longrightarrow>
          (\<exists>st'. ch_heap c' i = Some st' \<and> cs_still (i \<in> live_streams c) st (i \<in> live_streams c') st'))"

lemma client_end_still:
  assumes "client_end inp c lg" and "client_still c c'" and "\<And>i. prefix (data_down i inp) (data_down i inp')"
    and "\<And>i. i \<in> live_streams c' \<Longrightarrow> data_down i inp' = data_down i inp"
  shows "client_end inp' c' lg"
proof -
  have "client_writes i (ch_sent c') st' lg \<and> client_reads i inp' (i \<in> live_streams c') st' lg" if st': "ch_heap c' i = Some st'" for i st'
  proof -
    obtain st where st: "ch_heap c i = Some st" "cs_still (i \<in> live_streams c) st (i \<in> live_streams c') st'"
      using assms(2) st' unfolding client_still_def by (metis not_None_eq option.inject)
    have "client_writes i (ch_sent c) st lg" "client_reads i inp (i \<in> live_streams c) st lg"
      using assms(1) st(1) by (simp_all add: client_end_def)
    moreover from this(2) have "reader_ok (client_switch []) (data_down i inp') (i \<in> live_streams c' \<and> \<not> rcv_closed (cs_receiver st'))
        (rcv_items (cs_receiver st')) (cs_readErr st) (lg_got lg i) (client_at (lg_at lg i))"
      unfolding client_reads_def
      by (elim conjE, elim reader_ok_weaken [OF _ assms(3)]) (use st(2) assms(4) in \<open>auto simp: cs_still_def\<close>)
    ultimately show ?thesis
      using st(2) assms(2) by (simp add: client_writes_def client_reads_def cs_still_def client_still_def)
  qed
  moreover have "ch_heap c i = None" if "ch_heap c' i = None" for i
    using assms(2) that unfolding client_still_def by (metis not_None_eq option.distinct(1))
  ultimately show ?thesis
    using assms(1,2) unfolding client_end_def client_still_def by metis
qed

lemma cs_still_refl [simp]: "cs_still on st on st"
  by (simp add: cs_still_def)

lemma client_still_refl [simp]: "client_still c c"
  by (simp add: client_still_def)

lemma client_still_trans:
  assumes "client_still c c1" and "client_still c1 c2"
  shows "client_still c c2"
proof -
  have "\<exists>st'. ch_heap c2 i = Some st' \<and> cs_still (i \<in> live_streams c) st (i \<in> live_streams c2) st'" if st: "ch_heap c i = Some st" for i st
  proof -
    obtain st1 where 1: "ch_heap c1 i = Some st1" "cs_still (i \<in> live_streams c) st (i \<in> live_streams c1) st1"
      using assms(1) st unfolding client_still_def by blast
    obtain st2 where 2: "ch_heap c2 i = Some st2" "cs_still (i \<in> live_streams c1) st1 (i \<in> live_streams c2) st2"
      using assms(2) 1(1) unfolding client_still_def by blast
    have "cs_still (i \<in> live_streams c) st (i \<in> live_streams c2) st2" using 1(2) 2(2) by (auto simp: cs_still_def)
    then show ?thesis using 2(1) by blast
  qed
  then show ?thesis using assms unfolding client_still_def by metis
qed

lemma client_still_frame [simp]:
  "client_still c (c'\<lparr>ch_mem := x0\<rparr>) = client_still c c'" "client_still c (c'\<lparr>ch_loop := x1\<rparr>) = client_still c c'"
  "client_still c (c'\<lparr>ch_ctx := x2\<rparr>) = client_still c c'" "client_still c (c'\<lparr>ch_tearDowns := x3\<rparr>) = client_still c c'"
  "client_still c (c'\<lparr>ch_streamDone := x4\<rparr>) = client_still c c'" "client_still c (c'\<lparr>ch_settings := x5\<rparr>) = client_still c c'"
  "client_still c (c'\<lparr>ch_awaitSettings := x6\<rparr>) = client_still c c'" "client_still c (c'\<lparr>ch_useRevision := x7\<rparr>) = client_still c c'"
  by (simp_all add: client_still_def)

lemma client_still_remove: "client_still c (removeStream i c)"
  by (auto simp: client_still_def cs_still_def removeStream_def live_streams_def split: option.splits)

lemma client_still_put:
  "ch_heap c i = Some st \<Longrightarrow> cs_still (i \<in> live_streams c) st (i \<in> live_streams c) st' \<Longrightarrow> client_still c (put_stream i st' c)"
  by (auto simp: client_still_def put_stream_def)

lemma client_still_job: "up_data (C2S_Frame j) = [] \<Longrightarrow> client_still c (c\<lparr>ch_jobs := ch_jobs c @ [j]\<rparr>)"
  by (auto simp: client_still_def)

lemma client_still_sent: "(\<And>i. data_up i ms = []) \<Longrightarrow> client_still c (c\<lparr>ch_sent := ch_sent c @ ms\<rparr>)"
  by (auto simp: client_still_def)

lemma close_receiver_flags [simp]: "rcv_closed (close_receiver r)" "rcv_items (close_receiver r) = rcv_items r"
  by (auto simp: close_receiver_def handleClosure_def Let_def)

lemma cancel_receiver_flags [simp]: "rcv_closed (cancel_receiver r) = rcv_closed r" "rcv_items (cancel_receiver r) = []"
  "rcv_cancelled (cancel_receiver r)"
  by (auto simp: cancel_receiver_def handleClosure_def Let_def)

lemma client_still_finish: "client_still c (snd (finishStream e tr i c))"
proof (cases "\<exists>st st'. ch_heap c i = Some st \<and> client_finish e tr st = Some st'")
  case True
  then obtain st st' where st: "ch_heap c i = Some st" "client_finish e tr st = Some st'" by blast
  have "cs_still on st on st'" for on
    using st(2) by (auto simp: client_finish_def cs_still_def split: if_splits)
  then have "client_still c (removeStream i (put_stream i st' c))"
    by (intro client_still_trans [OF client_still_put [OF st(1)] client_still_remove])
  then show ?thesis by (simp add: finishStream_def st)
qed (auto simp: finishStream_def split: option.splits)

lemma finishStream_closed: "finishStream e tr i c = (True, c') \<Longrightarrow> ch_heap c' i = Some st \<Longrightarrow> rcv_closed (cs_receiver st)"
  by (auto simp: finishStream_def client_finish_def put_stream_def split: option.splits if_splits)

lemma client_still_cancel: "client_still c (cancelStream e i c)"
proof -
  obtain b d where f: "finishStream e None i c = (b, d)" by fastforce
  have d: "client_still c d" using client_still_finish [of c e None i] f by simp
  show ?thesis
  proof (cases "b \<and> ch_heap d i \<noteq> None")
    case True
    then obtain st where st: "ch_heap d i = Some st" by blast
    let ?d = "put_stream i (st\<lparr>cs_receiver := cancel_receiver (cs_receiver st)\<rparr>) d"
    have "rcv_closed (cs_receiver st)" using finishStream_closed [of e None i c d st] f True st by simp
    then have "client_still d ?d" by (intro client_still_put [OF st]) (simp add: cs_still_def)
    moreover have "client_still ?d (?d\<lparr>ch_jobs := ch_jobs ?d @ [c2s i ClientToServer_Cancel]\<rparr>)"
      by (rule client_still_job) simp
    ultimately have "client_still c (?d\<lparr>ch_jobs := ch_jobs ?d @ [c2s i ClientToServer_Cancel]\<rparr>)"
      using d client_still_trans by blast
    then show ?thesis using True st f by (simp add: cancelStream_def put_stream_def)
  qed (use d f in \<open>auto simp: cancelStream_def split: bool.splits option.splits\<close>)
qed

lemma client_still_close: "client_still c (snd (channel_close e c))"
  by (auto simp: channel_close_def Let_def client_still_def cs_still_def cancel_ctx_def)

lemma client_still_exit: "client_still c (snd (recv_exit e c))"
  by (simp add: recv_exit_def client_still_close)

subsection \<open>Steps of one stream\<close>

definition log_only :: "i64 \<Rightarrow> 'p rpc_log \<Rightarrow> 'p rpc_log \<Rightarrow> bool" where
  "log_only i lg lg' \<longleftrightarrow> (\<forall>j. j \<noteq> i \<longrightarrow> lg_cur lg' j = lg_cur lg j \<and> lg_sent lg' j = lg_sent lg j \<and> lg_got lg' j = lg_got lg j
     \<and> lg_at lg' j = lg_at lg j)"

lemma log_only_simps [simp]:
  "log_only i lg lg" "log_only i lg (log_begins i b lg)" "log_only i lg (log_sends i lg)" "log_only i lg (log_waits i ph lg)"
  "log_only i lg (log_gets i d lg)"
  by (simp_all add: log_only_def log_defs)

lemma client_end_at:
  "client_end inp c lg \<Longrightarrow> ch_heap c i = Some st \<Longrightarrow> client_writes i (ch_sent c) st lg \<and> client_reads i inp (i \<in> live_streams c) st lg"
  by (simp add: client_end_def)

lemma client_end_put:
  assumes "client_end inp c lg" and "ch_heap c i = Some st" and "log_only i lg lg'"
    and "\<And>j. j \<noteq> i \<Longrightarrow> data_down j inp' = data_down j inp"
    and "client_writes i (ch_sent c @ map (c2s i) fs) st' lg'" and "client_reads i inp' (i \<in> live_streams c) st' lg'"
  shows "client_end inp' ((put_stream i st' c)\<lparr>ch_sent := ch_sent c @ map (c2s i) fs\<rparr>) lg'"
  using assms by (auto simp: client_end_def client_writes_def client_reads_def log_only_def put_stream_def)

lemma client_end_put_only:
  assumes "client_end inp c lg" and "ch_heap c i = Some st" and "log_only i lg lg'"
    and "\<And>j. j \<noteq> i \<Longrightarrow> data_down j inp' = data_down j inp"
    and "client_writes i (ch_sent c) st' lg'" and "client_reads i inp' (i \<in> live_streams c) st' lg'"
  shows "client_end inp' (put_stream i st' c) lg'"
  using client_end_put [of inp c lg i st lg' inp' "[]" st'] assms by (simp add: put_stream_def)

lemma client_end_SendMsg:
  assumes "client_end inp c lg" and "stream_SendMsg (\<lambda>_. b) () i c = Some (e, c')"
  shows "client_end inp c' (client_log (ActSendMsg i b) c c' lg)"
proof -
  obtain st st' where st: "ch_heap c i = Some st" "client_SendMsg (\<lambda>_. b) () st = Some (e, st')" "c' = put_stream i st' c"
    using assms(2) by (auto simp: stream_SendMsg_def split: option.splits)
  let ?lg = "client_log (ActSendMsg i b) c c' lg"
  have lg: "log_only i lg ?lg" "lg_sent ?lg = lg_sent lg" "lg_got ?lg = lg_got lg" "lg_at ?lg = lg_at lg"
    by (cases b; simp add: log_begins_def log_only_def)+
  have w: "client_writes i (ch_sent c) st lg" "client_reads i inp (i \<in> live_streams c) st lg"
    using assms(1) st(1) by (simp_all add: client_end_def)
  have "send_idle (cs_pc st)" using st(2) by (auto simp: client_SendMsg_def split: if_splits)
  then have idle: "sending (cs_pc st) = None" by (cases "cs_pc st") simp_all
  have "cs_pc st' = cs_pc st \<or> (\<exists>x. b = Inr x \<and> length x \<le> MaxUint32 \<and> cs_pc st' = send_begin x \<and> cs_sendSize st' = u32_of_len x)"
    using st(2) by (auto simp: client_SendMsg_def Let_def split: if_splits sum.splits)
  then have "client_writes i (ch_sent c) st' ?lg"
    using w(1) idle
    by (auto simp: client_writes_def lg(2) intro: writer_ok_idle)
       (auto simp: log_begins_def intro: writer_ok_begin)
  moreover have "cs_receiver st' = cs_receiver st" "cs_readErr st' = cs_readErr st"
    using st(2) by (auto simp: client_SendMsg_def Let_def split: if_splits sum.splits)
  then have "client_reads i inp (i \<in> live_streams c) st' ?lg" using w(2) by (simp add: client_reads_def lg)
  ultimately show ?thesis unfolding st(3) using client_end_put_only [OF assms(1) st(1)] lg(1) st(3) by simp
qed

lemma client_end_send_do:
  assumes "client_end inp c lg" and "stream_send_do a i c = Some c'"
  shows "client_end inp c' (client_log (ActSend i a) c c' lg)"
proof -
  obtain st st' fs where st: "ch_heap c i = Some st" "send_own a" "client_send_do a st = Some (st', fs)"
    "c' = (put_stream i st' c)\<lparr>ch_sent := ch_sent c @ map (c2s i) fs\<rparr>"
    using assms(2) by (auto simp: stream_send_do_def split: option.splits if_splits)
  let ?y = "(sys_init (cs_sender st))\<lparr>sys_pc := cs_pc st, sys_size := cs_sendSize st, sys_ctx := cs_ctx st\<rparr>"
  obtain z where z: "sys_do a ?y = Some z" "st' = st\<lparr>cs_sender := sys_sender z, cs_pc := sys_pc z\<rparr>"
      "fs = map (\<lambda>(d, n, b). client_sendData d n b) (sys_out z)"
    using st(3) by (auto simp: client_send_do_def simp del: sys_do.simps split: option.splits)
  let ?done = "a = SendFunc None \<and> sys_pc z = Returned None"
  have lg: "client_log (ActSend i a) c c' lg = (if ?done then log_sends i lg else lg)"
    by (cases "(ActSend i a, c, c', lg)" rule: client_log.cases) (simp_all add: st(4) z(2) put_stream_def)
  have w: "client_writes i (ch_sent c) st lg" "client_reads i inp (i \<in> live_streams c) st lg"
    using assms(1) st(1) by (simp_all add: client_end_def)
  have "writer_ok server_switch (data_up i (ch_sent c)) (sys_pc ?y) (sys_size ?y) (lg_cur lg i) (lg_sent lg i)"
    using w(1) by (simp add: client_writes_def)
  from requests.writer_step [OF z(1) st(2) _ this]
  have "client_writes i (ch_sent c @ map (c2s i) fs) st' (client_log (ActSend i a) c c' lg)"
    unfolding lg by (auto simp: client_writes_def z(2,3) data_chunks sys_init_def log_sends_def simp del: map_map split: if_splits)
  moreover have "client_reads i inp (i \<in> live_streams c) st' (client_log (ActSend i a) c c' lg)"
    using w(2) unfolding lg by (simp add: client_reads_def z(2) log_sends_def)
  ultimately show ?thesis unfolding st(4) using client_end_put [OF assms(1) st(1)] lg st(4) by simp
qed

lemma client_end_RecvMsg:
  assumes "client_end inp c lg" and "stream_RecvMsg ph i c = Some (x, c')" and "chan_inv c" and "ph = lg_at lg i"
  shows "client_end inp c' (client_log (ActRecvMsg i ph) c c' lg)"
proof -
  obtain st where st: "ch_heap c i = Some st"
    using assms(2) by (auto simp: stream_RecvMsg_def split: option.splits)
  obtain res st' us where rd: "client_readMsg (fst (tunnelRoles (ch_reverse c))) ph st = (res, st', us)" by (metis prod_cases3)
  let ?c1 = "(put_stream i st' c)\<lparr>ch_sent := ch_sent c @ map (c2s i) (client_sendUpdates us st)\<rparr>"
  let ?lg = "client_log (ActRecvMsg i ph) c c' lg"
  have w: "client_writes i (ch_sent c) st lg" "client_reads i inp (i \<in> live_streams c) st lg"
    using assms(1) st by (simp_all add: client_end_def)
  have ok: "client_stream_ok (chan_window c) st" using assms(3) st by (simp add: chan_inv_def streams_ok_def)
  have fl: "rcv_closed (cs_receiver st') = rcv_closed (cs_receiver st)" "cs_pc st' = cs_pc st" "cs_sendSize st' = cs_sendSize st"
    using client_readMsg_reads [OF rd] by (cases st; cases st'; simp add: reads_from_def)+
  have rs: "client_read (data_down i inp) (i \<in> live_streams c \<and> \<not> rcv_closed (cs_receiver st)) st' (lg_got lg i) res"
    by (rule client_msg_read [OF rd ok]) (use w(2) assms(4) in \<open>auto simp: client_reads_def\<close>)
  have lg: "?lg = (case res of MsgBlock ph' \<Rightarrow> log_waits i (Some ph') lg | MsgRet (d, k, None) \<Rightarrow> log_gets i d lg
      | MsgRet (d, k, Some e) \<Rightarrow> log_waits i None lg)"
    using st rd by (simp add: stream_RecvMsg_def Let_def split: msg_res.splits option.splits)
  have "client_reads i inp (i \<in> live_streams c) st' ?lg"
    using rs fl(1) unfolding lg
    by (auto simp: client_read_def client_reads_def log_waits_def log_gets_def split: msg_res.splits option.splits)
  moreover have "lg_cur ?lg = lg_cur lg" "lg_sent ?lg = lg_sent lg" "log_only i lg ?lg"
    unfolding lg by (simp_all add: log_waits_def log_gets_def log_only_def split: msg_res.splits option.splits)
  moreover have "data_up i (map (c2s i) (client_sendUpdates us st)) = []"
    by (simp add: client_sendUpdates_def del: map_map)
  ultimately have c1: "client_end inp ?c1 ?lg"
    using w(1) fl(2,3) by (intro client_end_put [OF assms(1) st]) (simp_all add: client_writes_def)
  have "c' = ?c1 \<or> (\<exists>e. c' = cancelStream e i ?c1)"
    using assms(2) st rd by (auto simp: stream_RecvMsg_def Let_def split: msg_res.splits option.splits if_splits)
  then show ?thesis using c1 client_end_still [OF c1 client_still_cancel, of inp] by auto
qed

subsection \<open>New streams\<close>

lemma client_end_new:
  assumes "client_end inp c lg" and "chan_inv c" and "0 \<le> ch_lastStreamID (snd (newStream L a r c))"
    and "\<And>i. ch_lastStreamID c < i \<Longrightarrow> data_down i inp = []"
  shows "client_end inp (snd (newStream L a r c)) lg"
proof -
  obtain res c1 where al: "allocateStream L a c = (res, c1)" by fastforce
  have ids: "ids_ok c" using assms(2) by (simp add: chan_inv_def)
  have last: "ch_lastStreamID (snd (newStream L a r c)) = ch_lastStreamID c1"
    using al by (simp add: newStream_def split: alloc_res.splits option.splits)
  have added: "client_end inp (snd (newStream L a r c)) lg" if c1: "client_end inp c1 lg"
  proof -
    have "client_still c1 (c1\<lparr>ch_sent := ch_sent c1 @ [c2s i (newStream_frame a md c1)], ch_watched := ws\<rparr>)" for i md ws
      by (auto simp: client_still_def newStream_frame_def)
    then show ?thesis
      using al c1 client_end_still [OF c1, of _ inp] client_still_remove
      by (auto simp: newStream_def split: alloc_res.splits option.splits)
  qed
  show ?thesis
  proof (cases "ch_finished c \<or> ch_lastStreamID c < 0")
    case True
    then have "c1 = c" using allocateStream_refused [OF True, of L a] al by auto
    then show ?thesis using added assms(1) by simp
  next
    case False
    then have c: "\<not> ch_finished c" "0 \<le> ch_lastStreamID c" by simp_all
    note none = ids_ok_fresh(1) [OF ids c(2)]
    have c1: "ch_sent c1 = ch_sent c" "ch_jobs c1 = ch_jobs c" "ch_lastStreamID c1 = fresh_id c"
        "ch_heap c1 = ch_heap c \<and> live_streams c1 = live_streams c
         \<or> (\<exists>x m hs ts cl sv s w u v. ch_heap c1 = (ch_heap c)(fresh_id c \<mapsto> newClientStream x (fresh_id c) m hs ts cl sv s (newReceiver w u v))
             \<and> live_streams c1 = insert (fresh_id c) (live_streams c))"
      using al c by (auto simp: allocateStream_def Let_def fresh_id_def split: option.splits opts_res.splits prod.splits if_splits; blast)+
    have "fresh_id c = ch_lastStreamID c + 1"
      using ids_ok_fresh(2) [OF ids c(2)] assms(3) c1(3) by (simp add: last split: if_splits)
    then have down: "data_down (fresh_id c) inp = []" using assms(4) by simp
    have blank: "data_up (fresh_id c) (ch_sent c) = []" "lg_sent lg (fresh_id c) = []" "lg_got lg (fresh_id c) = []" "lg_at lg (fresh_id c) = None"
      using assms(1) none by (simp_all add: client_end_def)
    have fresh: "client_writes (fresh_id c) (ch_sent c) (newClientStream x (fresh_id c) m hs ts cl sv s (newReceiver w u v)) lg"
        "client_reads (fresh_id c) inp on (newClientStream x (fresh_id c) m hs ts cl sv s (newReceiver w u v)) lg" for on x m hs ts cl sv s w u v
      using blank down by (simp_all add: client_writes_def client_reads_def newClientStream_def writer_ok_start reader_ok_start)
    have "client_end inp c1 lg"
      using c1(4) assms(1) none unfolding client_end_def c1(1,2) by (elim disjE exE conjE) (auto simp: fresh split: if_splits)
    then show ?thesis by (rule added)
  qed
qed

subsection \<open>Frames that arrive\<close>

lemma finishStream_live:
  "ch_heap c i = Some st \<Longrightarrow> cs_done st = None \<Longrightarrow> live_streams (snd (finishStream e tr i c)) = live_streams c - {i}"
  by (simp add: finishStream_def client_finish_def)

lemma put_stream_same [simp]: "ch_heap c i = Some st \<Longrightarrow> put_stream i st c = c"
  by (simp add: put_stream_def fun_upd_idem)

lemma client_end_accept_data:
  assumes "client_end inp c lg" and "chan_inv c" and "i \<in> live_streams c" and "down_data (Some f) = [f]"
  shows "client_end (inp @ [s2c i f]) (accept_data f i c) lg"
proof -
  obtain st where st: "ch_heap c i = Some st" "cs_done st = None" using assms(2,3) by (auto simp: chan_inv_def streams_ok_def)
  obtain e r where acc: "accept client_measure f (cs_receiver st) = (e, r)" by fastforce
  let ?st = "st\<lparr>cs_receiver := r\<rparr>"
  have w: "client_writes i (ch_sent c) st lg" "client_reads i inp True st lg" using client_end_at [OF assms(1) st(1)] assms(3) by simp_all
  have put: "client_end (inp @ [s2c i f]) (put_stream i ?st c) lg" if "client_reads i (inp @ [s2c i f]) True ?st lg"
    using client_end_put_only [OF assms(1) st(1), of lg "inp @ [s2c i f]" ?st] that w(1) assms(3) by (simp add: client_writes_def)
  show ?thesis
  proof (cases rule: accept_cases [where r = "cs_receiver st" and m = client_measure and x = f])
    case closed
    then have "client_reads i (inp @ [s2c i f]) True ?st lg"
      using w(2) acc assms(4) by (auto simp: client_reads_def intro: reader_ok_more)
    then show ?thesis using put closed acc by (simp add: accept_data_def st)
  next
    case queued
    then have "client_reads i (inp @ [s2c i f]) True ?st lg"
      using w(2) acc assms(4) by (auto simp: client_reads_def intro: reader_ok_queue)
    then show ?thesis using put queued acc by (simp add: accept_data_def st)
  next
    case exceeded
    then have "accept_data f i c = snd (finishStream e None i c)" using acc st by (auto simp: accept_data_def)
    then show ?thesis
      using client_end_still [OF assms(1) client_still_finish [of c e None i], of "inp @ [s2c i f]"] finishStream_live [OF st]
      by (auto simp: prefix_def)
  qed
qed

lemma client_end_acceptServerFrame:
  assumes "client_end inp c lg" and "chan_inv c" and "i \<in> live_streams c"
  shows "client_end (inp @ [\<lparr>S2C_StreamId = i, S2C_Frame = f\<rparr>]) (acceptServerFrame L f i c) lg"
proof (cases "down_data f = []")
  case True
  have "client_still c (acceptServerFrame L f i c)"
    using True client_still_put
    by (cases "(L, f, i, c)" rule: acceptServerFrame.cases)
       (auto simp: client_still_finish client_gotHeaders_def cs_still_def split: option.splits if_splits)
  from client_end_still [OF assms(1) this] show ?thesis using True by (auto simp: prefix_def)
next
  case False
  then obtain g where g: "f = Some g" "down_data (Some g) = [g]" by (cases f rule: down_data.cases) simp_all
  then have "acceptServerFrame L f i c = accept_data g i c" by (cases g) simp_all
  then show ?thesis using client_end_accept_data [OF assms g(2)] g(1) by simp
qed

lemma recv_exit_live: "closed_ok c \<Longrightarrow> live_streams (snd (recv_exit e c)) = {}"
  by (auto simp: recv_exit_def channel_close_def Let_def closed_ok_def live_streams_def)

lemma client_end_recv:
  assumes "client_end inp c lg" and "chan_inv c" and "recvLoop L (Inr m) c = Some c'"
  shows "client_end (inp @ [m]) c' lg"
proof -
  have other: "client_end (inp @ [m]) c1 lg" if "client_still c c1" "\<And>i. i \<in> live_streams c1 \<Longrightarrow> data_down i [m] = []" for c1
    by (rule client_end_still [OF assms(1) that(1)]) (use that(2) in \<open>auto simp: prefix_def\<close>)
  have loop: "client_end (inp @ [m]) (c1\<lparr>ch_loop := l\<rparr>) lg = client_end (inp @ [m]) c1 lg" for c1 l
    by (simp add: client_end_def)
  have rev: "client_still c (snd (recv_exit e (c\<lparr>ch_useRevision := u\<rparr>)))" for e u
    by (rule client_still_trans [OF _ client_still_exit]) simp
  have exit: "client_end (inp @ [m]) (snd (recv_exit e c)) lg" "client_end (inp @ [m]) (snd (recv_exit e (c\<lparr>ch_useRevision := u\<rparr>))) lg" for e u
    using assms(2) by (intro other client_still_exit rev; simp add: recv_exit_live chan_inv_def)+
  have drop: "client_end (inp @ [m]) c lg" if "S2C_StreamId m \<notin> live_streams c"
    by (rule other) (use that in auto)
  have acc: "client_end (inp @ [m]) (acceptServerFrame L (S2C_Frame m) (S2C_StreamId m) c) lg" if "S2C_StreamId m \<in> live_streams c"
    using client_end_acceptServerFrame [OF assms(1,2) that, of "S2C_Frame m" L] by (cases m) simp
  have settings: "client_end (inp @ [m]) (snd (accept_settings stg c)) lg" if "S2C_Frame m = Some (ServerToClient_Settings stg)" for stg
    using exit(2) that by (auto simp: accept_settings_def Let_def intro!: other split: prod.splits)
  have "client_end (inp @ [m]) (snd (recvLoop_start L (Inr m) c)) lg"
    using exit(1) settings by (auto simp: recvLoop_start_def split: option.splits ServerToClientFrame.splits)
  moreover have "client_end (inp @ [m]) (snd (recvLoop_step L (Inr m) c)) lg"
    using exit(1) drop acc by (auto simp: recvLoop_step_def getStream_def)
  ultimately show ?thesis
    using assms(3) by (auto simp: recvLoop_def loop split: loop_pc.splits prod.splits)
qed

subsection \<open>All steps of the client\<close>

lemma client_end_job:
  assumes "client_end inp c lg" and "run_job r c = Some c'"
  shows "client_end inp c' lg"
proof -
  have "client_still c c'"
    using assms by (auto simp: run_job_def client_end_def client_still_def split: list.splits)
  then show ?thesis using client_end_still [OF assms(1)] by simp
qed

lemma client_still_CloseSend:
  assumes "stream_CloseSend r i c = Some (e, c')"
  shows "client_still c c'"
proof -
  obtain st st' fs where x: "ch_heap c i = Some st" "client_CloseSend r st = Some (e, st', fs)"
    "c' = (put_stream i st' c)\<lparr>ch_sent := ch_sent (put_stream i st' c) @ map (c2s i) (if r = None then fs else [])\<rparr>"
    using assms by (auto simp: stream_CloseSend_def put_stream_def split: option.splits)
  have "cs_still on st on st'" for on using x(2) by (auto simp: client_CloseSend_def cs_still_def split: if_splits)
  moreover have "data_up j (map (c2s i) (if r = None then fs else [])) = []" for j
    by (rule data_none(1)) (use x(2) in \<open>auto simp: client_CloseSend_def split: if_splits\<close>)
  ultimately show ?thesis
    unfolding x(3) by (intro client_still_trans [OF client_still_put [OF x(1)] client_still_sent])
qed

lemma client_end_own:
  assumes "client_end inp c lg" and "chan_inv c" and "chan_do L a c = Some c'" and "0 \<le> ch_lastStreamID c'"
    and "\<And>i. ch_lastStreamID c < i \<Longrightarrow> data_down i inp = []" and "\<And>m. a \<noteq> ActRecv (Inr m)"
    and "\<And>i ph. a = ActRecvMsg i ph \<Longrightarrow> ph = lg_at lg i"
  shows "client_end inp c' (client_log a c c' lg)"
proof -
  have still: "client_end inp c' lg" if "client_still c c'" using client_end_still [OF assms(1) that] by simp
  show ?thesis
  proof (cases a)
    case (ActRecv x)
    then obtain e where "x = Inl e" using assms(6) by (cases x) auto
    then have "\<exists>e. c' = (snd (recv_exit e c))\<lparr>ch_loop := LoopEnded\<rparr>"
      using assms(3) ActRecv by (auto simp: recvLoop_def recvLoop_start_def recvLoop_step_def recv_exit_def Let_def split: loop_pc.splits if_splits)
    then show ?thesis using still ActRecv client_still_exit by auto
  next
    case (ActNew x r)
    then show ?thesis using assms(3,4) client_end_new [OF assms(1,2) _ assms(5)] by auto
  next
    case (ActRecvMsg i ph)
    then show ?thesis using assms(3) client_end_RecvMsg [OF assms(1) _ assms(2)] assms(7) by fastforce
  next
    case (ActSendMsg i b)
    then show ?thesis using assms(3) client_end_SendMsg [OF assms(1)] by auto
  next
    case (ActSend i b)
    then show ?thesis using assms(3) client_end_send_do [OF assms(1)] by auto
  next
    case (ActStreamCtx i e)
    then have "client_still c c'"
      using assms(3) by (auto simp: end_stream_ctx_def cs_still_def intro!: client_still_put split: option.splits)
    then show ?thesis using still ActStreamCtx by simp
  qed (use assms(3) still client_end_job [OF assms(1)] client_still_close client_still_cancel client_still_CloseSend
        in \<open>auto simp: watchStream_def split: option.splits if_splits\<close>)
qed

end
