(* ===== verification/Tunnel_System.thy ===== *)
theory Tunnel_System
  imports Channel_Invariant Server_Invariant
begin

text \<open>
  A whole tunnel: the client's end, the server's end, and the stream between them, which delivers frames in order.
  The frames each side's transport took are the other side's input; \<open>ts_up\<close> and \<open>ts_down\<close> count how many of them have
  been received. Callers use only the streams that \<^verbatim>\<open>newStream\<close> returned to them. Both sides negotiate.
\<close>

subsection \<open>The system\<close>

record tunnel_sys =
  ts_client :: tunnelChannel
  ts_server :: tunnelServer
  ts_up :: nat
  ts_down :: nat

datatype ts_act = TClient chan_act | TServer srv_act | TUp bool | TDown

text \<open>What either side does by itself, a failure of its transport included.\<close>

fun client_own :: "chan_act \<Rightarrow> tunnelChannel \<Rightarrow> bool" where
  "client_own (ActRecv (Inr m)) c = False"
| "client_own (ActSendMsg i b) c = (i \<in> ch_watched c)"
| "client_own (ActSend i a) c = (i \<in> ch_watched c)"
| "client_own (ActCloseSend i r) c = (i \<in> ch_watched c)"
| "client_own (ActRecvMsg i ph) c = (i \<in> ch_watched c)"
| "client_own _ c = True"

fun server_own :: "srv_act \<Rightarrow> bool" where
  "server_own (SRecv closing (Inr m)) = False"
| "server_own _ = True"

fun ts_do :: "grpc_lib \<Rightarrow> (string \<rightharpoonup> ServiceDesc) \<Rightarrow> ts_act \<Rightarrow> tunnel_sys \<Rightarrow> tunnel_sys option" where
  "ts_do L svcs (TClient a) y =
     (if client_own a (ts_client y)
      then map_option (\<lambda>c. y\<lparr>ts_client := c\<rparr>) (chan_do L a (ts_client y)) else None)"
| "ts_do L svcs (TServer a) y =
     (if server_own a then map_option (\<lambda>s. y\<lparr>ts_server := s\<rparr>) (srv_do L svcs a (ts_server y)) else None)"
| "ts_do L svcs (TUp closing) y =
     (if ts_up y < length (ch_sent (ts_client y))
      then map_option (\<lambda>s. y\<lparr>ts_server := s, ts_up := ts_up y + 1\<rparr>)
             (srv_do L svcs (SRecv closing (Inr (ch_sent (ts_client y) ! ts_up y))) (ts_server y))
      else None)"
| "ts_do L svcs TDown y =
     (if ts_down y < length (sv_sent (ts_server y))
      then map_option (\<lambda>c. y\<lparr>ts_client := c, ts_down := ts_down y + 1\<rparr>)
             (chan_do L (ActRecv (Inr (sv_sent (ts_server y) ! ts_down y))) (ts_client y))
      else None)"

inductive ts_reach :: "grpc_lib \<Rightarrow> (string \<rightharpoonup> ServiceDesc) \<Rightarrow> tunnel_sys \<Rightarrow> tunnel_sys \<Rightarrow> bool" for L svcs y0 where
  ts_begin: "ts_reach L svcs y0 y0"
| ts_step: "ts_reach L svcs y0 y \<Longrightarrow> ts_do L svcs a y = Some z \<Longrightarrow> ts_reach L svcs y0 z"

subsection \<open>The frames of the client\<close>

fun is_new :: "ClientToServerFrame option \<Rightarrow> bool" where
  "is_new (Some (ClientToServer_NewStream f)) = True"
| "is_new _ = False"

definition announced :: "ClientToServer list \<Rightarrow> i64 set" where
  "announced fs = {C2S_StreamId m |m. m \<in> set fs \<and> is_new (C2S_Frame m)}"

text \<open>
  A stream is announced before it is used, and with an ID larger than every one before.
\<close>

definition frame_ok :: "ClientToServer list \<Rightarrow> ClientToServer \<Rightarrow> bool" where
  "frame_ok fs m \<longleftrightarrow> (if is_new (C2S_Frame m) then 0 < C2S_StreamId m \<and> (\<forall>i\<in>announced fs. i < C2S_StreamId m)
     else C2S_StreamId m \<in> announced fs)"

definition wire_ok :: "ClientToServer list \<Rightarrow> bool" where
  "wire_ok fs \<longleftrightarrow> (\<forall>k<length fs. frame_ok (take k fs) (fs ! k))"

lemma announced_append [simp]: "announced (fs @ gs) = announced fs \<union> announced gs"
  by (auto simp: announced_def)

lemma announced_Nil [simp]: "announced [] = {}"
  by (simp add: announced_def)

lemma announced_single [simp]: "announced [m] = (if is_new (C2S_Frame m) then {C2S_StreamId m} else {})"
  by (auto simp: announced_def)

lemma announced_none: "(\<And>m. m \<in> set fs \<Longrightarrow> \<not> is_new (C2S_Frame m)) \<Longrightarrow> announced fs = {}"
  by (auto simp: announced_def)

lemma announced_take: "announced (take n fs) \<subseteq> announced fs"
  by (auto simp: announced_def dest: in_set_takeD)

lemma wire_ok_Nil [simp]: "wire_ok []"
  by (simp add: wire_ok_def)

lemma wire_ok_snoc: "wire_ok (fs @ [m]) \<longleftrightarrow> wire_ok fs \<and> frame_ok fs m"
  by (auto simp: wire_ok_def nth_append less_Suc_eq)

lemma wire_ok_append:
  assumes "wire_ok fs" and "\<And>m. m \<in> set gs \<Longrightarrow> \<not> is_new (C2S_Frame m) \<and> C2S_StreamId m \<in> announced fs"
  shows "wire_ok (fs @ gs)"
  using assms(2)
proof (induction gs rule: rev_induct)
  case (snoc g gs)
  then have "wire_ok (fs @ gs)" "frame_ok (fs @ gs) g"
    by (auto simp: frame_ok_def)
  then show ?case by (simp add: wire_ok_snoc flip: append_assoc)
qed (use assms(1) in simp)

text \<open>What is known of the client: its streams are announced, its frames in order, nothing is sent before the settings.\<close>

definition client_wire :: "tunnelChannel \<Rightarrow> bool" where
  "client_wire c \<longleftrightarrow> wire_ok (ch_sent c) \<and> ch_watched c \<subseteq> announced (ch_sent c)
     \<and> (\<forall>j\<in>set (ch_jobs c). \<not> is_new (C2S_Frame j) \<and> C2S_StreamId j \<in> announced (ch_sent c))
     \<and> (\<forall>i\<in>announced (ch_sent c). ch_streamCreated c \<and> 0 < i \<and> i \<le> ch_lastStreamID c)
     \<and> (ch_settings c = None \<longrightarrow> ch_sent c = []) \<and> ch_serverSendsSettings c"

text \<open>The part of a channel that this is about; most operations leave it alone.\<close>

definition wire_view :: "tunnelChannel
    \<Rightarrow> ClientToServer list \<times> ClientToServer list \<times> i64 set \<times> bool \<times> i64 \<times> bool" where
  "wire_view c = (ch_sent c, ch_jobs c, ch_watched c, ch_streamCreated c, ch_lastStreamID c, ch_serverSendsSettings c)"

lemma wire_view_frame [simp]:
  "wire_view (c\<lparr>ch_heap := x0\<rparr>) = wire_view c" "wire_view (c\<lparr>ch_mem := x1\<rparr>) = wire_view c"
  "wire_view (c\<lparr>ch_loop := x2\<rparr>) = wire_view c" "wire_view (c\<lparr>ch_ctx := x3\<rparr>) = wire_view c"
  "wire_view (c\<lparr>ch_streams := x4\<rparr>) = wire_view c" "wire_view (c\<lparr>ch_err := x5\<rparr>) = wire_view c"
  "wire_view (c\<lparr>ch_finished := x6\<rparr>) = wire_view c" "wire_view (c\<lparr>ch_tearDowns := x7\<rparr>) = wire_view c"
  "wire_view (c\<lparr>ch_streamDone := x8\<rparr>) = wire_view c" "wire_view (c\<lparr>ch_settings := x9\<rparr>) = wire_view c"
  "wire_view (c\<lparr>ch_awaitSettings := x10\<rparr>) = wire_view c" "wire_view (c\<lparr>ch_useRevision := x11\<rparr>) = wire_view c"
  "wire_view (put_stream i st c) = wire_view c" "wire_view (removeStream i c) = wire_view c"
  by (simp_all add: wire_view_def put_stream_def removeStream_def split: option.splits)

lemma wire_view_finishStream [simp]: "wire_view (snd (finishStream e tr i c)) = wire_view c"
  by (simp add: finishStream_def split: option.splits)

lemma wire_view_close [simp]: "wire_view (snd (channel_close e c)) = wire_view c"
  by (simp add: channel_close_def Let_def)

lemma wire_view_acceptServerFrame [simp]: "wire_view (acceptServerFrame L f i c) = wire_view c"
proof -
  have "wire_view (accept_data g i c) = wire_view c" for g
    by (simp add: accept_data_def Let_def split: option.splits prod.splits)
  then show ?thesis
    by (cases "(L, f, i, c)" rule: acceptServerFrame.cases) (simp_all split: option.splits)
qed

lemma wire_view_recv_exit [simp]: "wire_view (snd (recv_exit e c)) = wire_view c"
  by (simp add: recv_exit_def)

lemma wire_view_accept_settings [simp]: "wire_view (snd (accept_settings stg c)) = wire_view c"
  by (simp add: accept_settings_def Let_def split: prod.splits)

lemma wire_view_recvLoop:
  assumes "recvLoop L inp c = Some c'"
  shows "wire_view c' = wire_view c"
proof -
  have "wire_view (snd (recvLoop_start L inp c)) = wire_view c"
    by (simp add: recvLoop_start_def Let_def split: sum.splits option.splits ServerToClientFrame.splits)
  moreover have "wire_view (snd (recvLoop_step L inp c)) = wire_view c"
    by (simp add: recvLoop_step_def split: sum.splits option.splits)
  ultimately show ?thesis
    using assms by (auto simp: recvLoop_def split: loop_pc.splits prod.splits)
qed

text \<open>A step that adds frames of announced streams only, and jobs for such.\<close>

definition sends_from :: "tunnelChannel \<Rightarrow> tunnelChannel \<Rightarrow> bool" where
  "sends_from c c' \<longleftrightarrow> (\<exists>new js. wire_view c' = (ch_sent c @ new, js, ch_watched c, ch_streamCreated c, ch_lastStreamID c,
         ch_serverSendsSettings c)
       \<and> (\<forall>m\<in>set new \<union> set js. \<not> is_new (C2S_Frame m) \<and> C2S_StreamId m \<in> ch_watched c \<or> m \<in> set (ch_jobs c)))"

lemma sends_from_view: "wire_view c' = wire_view c \<Longrightarrow> sends_from c c'"
  by (auto simp: sends_from_def wire_view_def)

lemma client_wire_sends:
  assumes "client_wire c" and "sends_from c c'" and "ch_settings c' = None \<longrightarrow> ch_settings c = None"
  shows "client_wire c'"
proof -
  obtain new js where new: "wire_view c' = (ch_sent c @ new, js, ch_watched c, ch_streamCreated c, ch_lastStreamID c,
         ch_serverSendsSettings c)"
    "\<forall>m\<in>set new \<union> set js. \<not> is_new (C2S_Frame m) \<and> C2S_StreamId m \<in> ch_watched c \<or> m \<in> set (ch_jobs c)"
    using assms(2) by (auto simp: sends_from_def)
  have ann: "\<not> is_new (C2S_Frame m) \<and> C2S_StreamId m \<in> announced (ch_sent c)" if "m \<in> set new \<union> set js" for m
    using new(2) that assms(1) by (auto simp: client_wire_def)
  then have "announced new = {}" by (intro announced_none) blast
  moreover have "wire_ok (ch_sent c @ new)"
    using assms(1) ann by (intro wire_ok_append) (auto simp: client_wire_def)
  moreover have "new = []" if "ch_settings c = None"
  proof (rule ccontr)
    assume "new \<noteq> []"
    then have "hd new \<in> set new" by simp
    then show False using ann [of "hd new"] that assms(1) by (auto simp: client_wire_def)
  qed
  ultimately show ?thesis
    using assms(1,3) new(1) ann by (auto simp: client_wire_def wire_view_def)
qed

lemma sends_from_cancelStream:
  assumes "i \<in> ch_watched c"
  shows "sends_from c (cancelStream e i c)"
proof (cases "finishStream e None i c")
  case (Pair b d)
  then have "wire_view d = wire_view c" using wire_view_finishStream [of e None i c] by simp
  then show ?thesis
    using Pair assms
    by (auto simp: cancelStream_def sends_from_def wire_view_def put_stream_def split: bool.splits option.splits)
qed

lemma client_send_do_frames:
  "client_send_do a st = Some (st', fs) \<Longrightarrow> f \<in> set fs \<Longrightarrow> \<not> is_new (Some f)"
  by (auto simp: client_send_do_def client_sendData_def split: option.splits if_splits)

lemma client_CloseSend_frames:
  "client_CloseSend r st = Some (e, st', fs) \<Longrightarrow> f \<in> set fs \<Longrightarrow> \<not> is_new (Some f)"
  by (auto simp: client_CloseSend_def split: if_splits)

lemma client_sendUpdates_frames: "f \<in> set (client_sendUpdates us st) \<Longrightarrow> \<not> is_new (Some f)"
  by (auto simp: client_sendUpdates_def split: if_splits)

text \<open>Frames sent for one stream.\<close>

lemma sends_from_put:
  assumes "i \<in> ch_watched c" and "\<And>f. f \<in> set fs \<Longrightarrow> \<not> is_new (Some f)"
  shows "sends_from c ((put_stream i st c)\<lparr>ch_sent := ch_sent c @ map (c2s i) fs\<rparr>)"
  using assms by (auto simp: sends_from_def wire_view_def put_stream_def)

lemma sends_from_trans_cancel:
  assumes "sends_from c d" and "i \<in> ch_watched c"
  shows "sends_from c (cancelStream e i d)"
proof -
  have "ch_watched d = ch_watched c" using assms(1) by (auto simp: sends_from_def wire_view_def)
  then have "sends_from d (cancelStream e i d)" using assms(2) by (simp add: sends_from_cancelStream)
  then show ?thesis using assms(1) by (fastforce simp: sends_from_def wire_view_def)
qed

lemma sends_from_RecvMsg:
  assumes "stream_RecvMsg ph i c = Some (r, c')" and "i \<in> ch_watched c"
  shows "sends_from c c'"
proof -
  obtain st where st: "ch_heap c i = Some st"
    using assms(1) by (auto simp: stream_RecvMsg_def split: option.splits)
  obtain res st' us where rd: "client_readMsg (fst (tunnelRoles (ch_reverse c))) ph st = (res, st', us)"
    by (metis prod_cases3)
  have c1: "sends_from c ((put_stream i st' c)\<lparr>ch_sent := ch_sent c @ map (c2s i) (client_sendUpdates us st)\<rparr>)"
    by (rule sends_from_put [OF assms(2)]) (rule client_sendUpdates_frames)
  then show ?thesis
    using assms st rd
    by (auto simp: stream_RecvMsg_def Let_def intro: sends_from_trans_cancel
        split: msg_res.splits option.splits if_splits prod.splits)
qed

lemma sends_from_send_do:
  "stream_send_do a i c = Some c' \<Longrightarrow> i \<in> ch_watched c \<Longrightarrow> sends_from c c'"
  by (auto simp: stream_send_do_def split: option.splits if_splits intro!: sends_from_put dest: client_send_do_frames)

lemma sends_from_CloseSend:
  "stream_CloseSend r i c = Some (e, c') \<Longrightarrow> i \<in> ch_watched c \<Longrightarrow> sends_from c c'"
  using sends_from_put [of i c "[]"]
  by (auto simp: stream_CloseSend_def split: option.splits if_splits intro!: sends_from_put dest: client_CloseSend_frames)

lemma sends_from_job: "run_job r c = Some c' \<Longrightarrow> sends_from c c'"
  by (auto simp: run_job_def sends_from_def wire_view_def split: list.splits)

lemma sends_from_do:
  assumes "chan_do L a c = Some c'" and "client_own a c \<or> (\<exists>inp. a = ActRecv inp)" and "\<And>x r. a \<noteq> ActNew x r"
  shows "sends_from c c'"
  using assms
  by (cases a) (auto simp: end_stream_ctx_def watchStream_def stream_SendMsg_def sends_from_cancelStream sends_from_view
      split: option.splits if_splits
      intro: sends_from_view wire_view_recvLoop sends_from_RecvMsg sends_from_send_do sends_from_CloseSend sends_from_job)

subsection \<open>The client's settings\<close>

text \<open>Only the receive loop changes these.\<close>

definition loop_view :: "tunnelChannel \<Rightarrow> Settings option \<times> loop_pc" where
  "loop_view c = (ch_settings c, ch_loop c)"

lemma loop_view_frame [simp]:
  "loop_view (c\<lparr>ch_heap := x0\<rparr>) = loop_view c" "loop_view (c\<lparr>ch_mem := x1\<rparr>) = loop_view c"
  "loop_view (c\<lparr>ch_sent := x2\<rparr>) = loop_view c" "loop_view (c\<lparr>ch_ctx := x3\<rparr>) = loop_view c"
  "loop_view (c\<lparr>ch_streams := x4\<rparr>) = loop_view c" "loop_view (c\<lparr>ch_err := x5\<rparr>) = loop_view c"
  "loop_view (c\<lparr>ch_finished := x6\<rparr>) = loop_view c" "loop_view (c\<lparr>ch_tearDowns := x7\<rparr>) = loop_view c"
  "loop_view (c\<lparr>ch_streamDone := x8\<rparr>) = loop_view c" "loop_view (c\<lparr>ch_jobs := x9\<rparr>) = loop_view c"
  "loop_view (c\<lparr>ch_watched := x10\<rparr>) = loop_view c" "loop_view (c\<lparr>ch_useRevision := x11\<rparr>) = loop_view c"
  "loop_view (c\<lparr>ch_streamCreated := x12\<rparr>) = loop_view c" "loop_view (c\<lparr>ch_lastStreamID := x13\<rparr>) = loop_view c"
  "loop_view (put_stream i st c) = loop_view c" "loop_view (removeStream i c) = loop_view c"
  by (simp_all add: loop_view_def put_stream_def removeStream_def split: option.splits)

lemma loop_view_finishStream [simp]: "loop_view (snd (finishStream e tr i c)) = loop_view c"
  by (simp add: finishStream_def split: option.splits)

lemma loop_view_close [simp]: "loop_view (snd (channel_close e c)) = loop_view c"
  by (simp add: channel_close_def Let_def)

lemma loop_view_acceptServerFrame [simp]: "loop_view (acceptServerFrame L f i c) = loop_view c"
proof -
  have "loop_view (accept_data g i c) = loop_view c" for g
    by (simp add: accept_data_def Let_def split: option.splits prod.splits)
  then show ?thesis
    by (cases "(L, f, i, c)" rule: acceptServerFrame.cases) (simp_all split: option.splits)
qed

lemma loop_view_recv_exit [simp]: "loop_view (snd (recv_exit e c)) = loop_view c"
  by (simp add: recv_exit_def)

lemma kept_settings [simp]:
  "ch_settings (snd (channel_close e c)) = ch_settings c" "ch_settings (snd (recv_exit e c)) = ch_settings c"
  "ch_settings (acceptServerFrame L f i c) = ch_settings c"
  using loop_view_close [of e c] loop_view_recv_exit [of e c] loop_view_acceptServerFrame [of L f i c]
  by (simp_all add: loop_view_def)

lemma loop_view_cancelStream [simp]: "loop_view (cancelStream e i c) = loop_view c"
  using loop_view_finishStream [of e None i c]
  by (cases "finishStream e None i c") (auto simp: cancelStream_def split: bool.splits option.splits)

lemma loop_view_newStream [simp]: "loop_view (snd (newStream L a r c)) = loop_view c"
proof -
  obtain res c1 where al: "allocateStream L a c = (res, c1)" by fastforce
  have "loop_view c1 = loop_view c"
  proof (cases "ch_finished c \<or> ch_lastStreamID c < 0")
    case True
    then show ?thesis using allocateStream_refused [OF True, of L a] al by simp
  next
    case False
    then show ?thesis
      using al by (auto simp: allocateStream_def Let_def split: option.splits opts_res.splits prod.splits if_splits)
  qed
  then show ?thesis using al by (simp add: newStream_def split: alloc_res.splits option.splits)
qed

lemma loop_view_RecvMsg: "stream_RecvMsg ph i c = Some (r, c') \<Longrightarrow> loop_view c' = loop_view c"
  by (auto simp: stream_RecvMsg_def Let_def split: option.splits prod.splits msg_res.splits if_splits)

lemma loop_view_watch: "watchStream i c = Some c' \<Longrightarrow> loop_view c' = loop_view c"
  by (auto simp: watchStream_def split: option.splits if_splits)

lemma loop_view_end_ctx: "end_stream_ctx e i c = Some c' \<Longrightarrow> loop_view c' = loop_view c"
  by (auto simp: end_stream_ctx_def split: option.splits)

lemma loop_view_SendMsg: "stream_SendMsg ms m i c = Some (r, c') \<Longrightarrow> loop_view c' = loop_view c"
  by (auto simp: stream_SendMsg_def split: option.splits)

lemma loop_view_send_do: "stream_send_do a i c = Some c' \<Longrightarrow> loop_view c' = loop_view c"
  by (auto simp: stream_send_do_def split: option.splits if_splits)

lemma loop_view_CloseSend: "stream_CloseSend sr i c = Some (r, c') \<Longrightarrow> loop_view c' = loop_view c"
  by (auto simp: stream_CloseSend_def split: option.splits)

lemma loop_view_job: "run_job sr c = Some c' \<Longrightarrow> loop_view c' = loop_view c"
  by (auto simp: run_job_def split: list.splits)

lemma loop_view_own:
  assumes "chan_do L a c = Some c'" and "\<nexists>inp. a = ActRecv inp"
  shows "loop_view c' = loop_view c"
  using assms by (cases a) (auto dest: loop_view_watch loop_view_end_ctx loop_view_SendMsg loop_view_send_do
      loop_view_CloseSend loop_view_job loop_view_RecvMsg)

text \<open>A received error ends the loop; a frame may bring the settings but does not take them away.\<close>

lemma recvLoop_failed:
  "recvLoop L (Inl e) c = Some c' \<Longrightarrow> ch_settings c' = ch_settings c \<and> ch_loop c' = LoopEnded"
  by (auto simp: recvLoop_def recvLoop_start_def recvLoop_step_def recv_exit_def Let_def split: loop_pc.splits if_splits)

lemma recvLoop_settings:
  assumes "recvLoop L inp c = Some c'" and "ch_settings c' = None"
  shows "ch_settings c = None"
proof -
  have acc: "ch_settings c = None" if "ch_settings (snd (accept_settings stg c)) = None" for stg
    using that by (auto simp: accept_settings_def Let_def split: prod.splits if_splits)
  have "ch_settings c = None" if "ch_settings (snd (recvLoop_start L inp c)) = None"
    using that acc
    by (auto simp: recvLoop_start_def Let_def split: if_splits sum.splits option.splits ServerToClientFrame.splits)
  moreover have "ch_settings (snd (recvLoop_step L inp c)) = ch_settings c"
    by (simp add: recvLoop_step_def split: sum.splits option.splits)
  ultimately show ?thesis
    using assms by (auto simp: recvLoop_def split: loop_pc.splits prod.splits)
qed

subsection \<open>New streams\<close>

text \<open>What is announced when a stream is opened, if anything.\<close>

lemma newStream_wire:
  assumes "chan_inv c" and "client_wire c" and "0 \<le> ch_lastStreamID (snd (newStream L a r c))"
  shows "client_wire (snd (newStream L a r c))"
proof -
  obtain res c1 where al: "allocateStream L a c = (res, c1)" by fastforce
  have ids: "ids_ok c" using assms(1) by (simp add: chan_inv_def)
  have last: "ch_lastStreamID (snd (newStream L a r c)) = ch_lastStreamID c1"
    using al by (simp add: newStream_def split: alloc_res.splits option.splits)
  show ?thesis
  proof (cases "ch_finished c \<or> ch_lastStreamID c < 0")
    case True
    then have "c1 = c" "\<And>i md. res \<noteq> AllocOk i md" using allocateStream_refused [OF True, of L a] al by auto
    then show ?thesis using al assms(2) by (simp add: newStream_def split: alloc_res.splits)
  next
    case False
    then have c: "\<not> ch_finished c" "0 \<le> ch_lastStreamID c" by simp_all
    have view: "wire_view c1 = (ch_sent c, ch_jobs c, ch_watched c, True, fresh_id c, ch_serverSendsSettings c)" "ch_settings c1 = ch_settings c"
      "\<And>i md. res = AllocOk i md \<Longrightarrow> i = fresh_id c \<and> ch_settings c \<noteq> None"
      using al c by (auto simp: allocateStream_def Let_def fresh_id_def wire_view_def
          split: option.splits opts_res.splits prod.splits if_splits)
    have fresh: "fresh_id c = ch_lastStreamID c + 1"
      using ids_ok_fresh(2) [OF ids c(2)] assms(3) view(1) by (simp add: last wire_view_def split: if_splits)
    have c1: "client_wire c1"
      using assms(2) view fresh by (fastforce simp: client_wire_def wire_view_def)
    show ?thesis
    proof (cases "\<exists>i md. res = AllocOk i md \<and> r = None")
      case True
      then obtain md where res: "res = AllocOk (fresh_id c) md" "r = None" using view(3) by blast
      have "frame_ok (ch_sent c1) (c2s (fresh_id c) (newStream_frame a md c1))"
        using assms(2) c(2) view(1) fresh by (fastforce simp: frame_ok_def newStream_frame_def client_wire_def wire_view_def)
      then show ?thesis
        using c1 al res view fresh c(2)
        by (auto simp: newStream_def client_wire_def wire_view_def wire_ok_snoc newStream_frame_def)
    next
      case False
      then have "snd (newStream L a r c) = c1 \<or> (\<exists>i. snd (newStream L a r c) = removeStream i c1)"
        using al by (auto simp: newStream_def split: alloc_res.splits option.splits)
      moreover have "client_wire (removeStream i c1)" for i
        by (rule client_wire_sends [OF c1 sends_from_view]) simp_all
      ultimately show ?thesis using c1 by auto
    qed
  qed
qed

lemma client_wire_do:
  assumes "chan_inv c" and "client_wire c" and "chan_do L a c = Some c'"
    and "client_own a c \<or> (\<exists>inp. a = ActRecv inp)" and "0 \<le> ch_lastStreamID c'"
  shows "client_wire c'"
proof (cases "\<exists>x r. a = ActNew x r")
  case True
  then show ?thesis using newStream_wire [OF assms(1,2)] assms(3,5) by auto
next
  case False
  then have "sends_from c c'" using sends_from_do [OF assms(3,4)] by blast
  moreover have "ch_settings c' = None \<longrightarrow> ch_settings c = None"
  proof (cases "\<exists>inp. a = ActRecv inp")
    case True
    then show ?thesis using assms(3) recvLoop_settings by auto
  next
    case no: False
    then have "loop_view c' = loop_view c" by (rule loop_view_own [OF assms(3)])
    then show ?thesis by (simp add: loop_view_def)
  qed
  ultimately show ?thesis by (rule client_wire_sends [OF assms(2)])
qed

text \<open>Past the largest ID there is no way back.\<close>

lemma exhausted_stays:
  assumes "chan_do L a c = Some c'" and "client_own a c \<or> (\<exists>inp. a = ActRecv inp)" and "ch_lastStreamID c < 0"
  shows "ch_lastStreamID c' < 0"
proof (cases "\<exists>x r. a = ActNew x r")
  case True
  then obtain x r where a: "a = ActNew x r" by blast
  obtain res where "allocateStream L x c = (res, c)" "\<And>i md. res \<noteq> AllocOk i md"
    using allocateStream_refused [of c L x] assms(3) by (cases "allocateStream L x c") auto
  then show ?thesis using assms(1,3) a by (auto simp: newStream_def split: alloc_res.splits)
next
  case False
  then have "sends_from c c'" using sends_from_do [OF assms(1,2)] by blast
  then show ?thesis using assms(3) by (auto simp: sends_from_def wire_view_def)
qed

subsection \<open>The frames of the server\<close>

text \<open>
  \<open>A\<close> are the streams the server has been told of. Its settings come first, before any of them.
\<close>

definition srv_told :: "i64 set \<Rightarrow> tunnelServer \<Rightarrow> bool" where
  "srv_told A s \<longleftrightarrow> (sv_lastSeen s = -1 \<or> sv_lastSeen s \<in> A) \<and> (\<forall>i\<in>A. i \<le> sv_lastSeen s) \<and> dom (sv_heap s) \<subseteq> A"

definition srv_wire :: "i64 set \<Rightarrow> tunnelServer \<Rightarrow> bool" where
  "srv_wire A s \<longleftrightarrow> srv_told A s
     \<and> (A = {} \<and> sv_sent s = [] \<and> concat (sv_jobs s) = [settings_frame (sv_tunnelOpts s)]
        \<or> (\<forall>m\<in>set (concat (sv_jobs s)). S2C_StreamId m \<in> A)
          \<and> (A = {} \<and> sv_sent s = []
             \<or> (\<exists>fs. sv_sent s = settings_frame (sv_tunnelOpts s) # fs \<and> (\<forall>m\<in>set fs. S2C_StreamId m \<in> A))))"

text \<open>A step that sends for existing streams only.\<close>

definition serves_from :: "tunnelServer \<Rightarrow> tunnelServer \<Rightarrow> bool" where
  "serves_from s s' \<longleftrightarrow> sv_lastSeen s' = sv_lastSeen s \<and> dom (sv_heap s') = dom (sv_heap s)
     \<and> sv_tunnelOpts s' = sv_tunnelOpts s
     \<and> (\<exists>new js. sv_sent s' = sv_sent s @ new \<and> sv_jobs s' = sv_jobs s @ js
          \<and> (\<forall>m\<in>set new \<union> set (concat js). S2C_StreamId m \<in> dom (sv_heap s)))"

lemma serves_fromI:
  "sv_lastSeen s' = sv_lastSeen s \<Longrightarrow> dom (sv_heap s') = dom (sv_heap s) \<Longrightarrow> sv_tunnelOpts s' = sv_tunnelOpts s \<Longrightarrow>
   sv_sent s' = sv_sent s @ new \<Longrightarrow> sv_jobs s' = sv_jobs s @ js \<Longrightarrow>
   (\<And>m. m \<in> set new \<union> set (concat js) \<Longrightarrow> S2C_StreamId m \<in> dom (sv_heap s)) \<Longrightarrow> serves_from s s'"
  by (auto simp: serves_from_def)

lemma serves_from_refl [simp]: "serves_from s s"
  by (rule serves_fromI [of _ _ "[]" "[]"]) simp_all

lemma serves_from_trans:
  assumes "serves_from s s1" and "serves_from s1 s2"
  shows "serves_from s s2"
proof -
  obtain new js where 1: "sv_sent s1 = sv_sent s @ new" "sv_jobs s1 = sv_jobs s @ js"
    "\<forall>m\<in>set new \<union> set (concat js). S2C_StreamId m \<in> dom (sv_heap s)"
    using assms(1) by (auto simp: serves_from_def)
  obtain new' js' where 2: "sv_sent s2 = sv_sent s1 @ new'" "sv_jobs s2 = sv_jobs s1 @ js'"
    "\<forall>m\<in>set new' \<union> set (concat js'). S2C_StreamId m \<in> dom (sv_heap s1)"
    using assms(2) by (auto simp: serves_from_def)
  show ?thesis
    by (rule serves_fromI [of _ _ "new @ new'" "js @ js'"]) (use assms 1 2 in \<open>auto simp: serves_from_def\<close>)
qed

lemma srv_wire_serves:
  assumes "srv_wire A s" and "serves_from s s'"
  shows "srv_wire A s'"
proof -
  obtain new js where new: "sv_sent s' = sv_sent s @ new" "sv_jobs s' = sv_jobs s @ js"
    "\<And>m. m \<in> set new \<union> set (concat js) \<Longrightarrow> S2C_StreamId m \<in> A"
    using assms unfolding serves_from_def srv_wire_def srv_told_def by blast
  have same: "srv_told A s'" "sv_tunnelOpts s' = sv_tunnelOpts s"
    using assms by (auto simp: serves_from_def srv_wire_def srv_told_def)
  show ?thesis
  proof (cases "A = {}")
    case True
    then have "m \<notin> set new \<union> set (concat js)" for m using new(3) [of m] by blast
    then have "set new \<union> set (concat js) = {}" by (simp only: equals0I set_eq_iff empty_iff simp_thms)
    then have "new = []" "concat js = []" by (simp_all only: Un_empty set_empty)
    then have "sv_sent s' = sv_sent s" "concat (sv_jobs s') = concat (sv_jobs s)"
      using new(1,2) by (simp_all only: concat_append append_Nil2)
    then show ?thesis using assms(1) same by (simp only: srv_wire_def simp_thms)
  next
    case False
    then show ?thesis using assms(1) new same by (auto simp: srv_wire_def)
  qed
qed

lemma serves_from_frame [simp]:
  "serves_from s (s'\<lparr>sv_loop := x0\<rparr>) = serves_from s s'" "serves_from s (s'\<lparr>sv_ctx := x1\<rparr>) = serves_from s s'"
  "serves_from s (s'\<lparr>sv_serving := x2\<rparr>) = serves_from s s'" "serves_from s (s'\<lparr>sv_waiting := x3\<rparr>) = serves_from s s'"
  "serves_from s (s'\<lparr>sv_streams := x4\<rparr>) = serves_from s s'"
  by (simp_all add: serves_from_def)

lemma serves_from_put:
  assumes "sv_heap s i \<noteq> None"
  shows "serves_from s ((put_server i st s)\<lparr>sv_sent := sv_sent s @ (if b then map (s2c i) fs else [])\<rparr>)"
  by (rule serves_fromI [of _ _ "if b then map (s2c i) fs else []" "[]"]) (use assms in \<open>auto split: if_splits\<close>)

lemma serves_from_put_only: "sv_heap s i \<noteq> None \<Longrightarrow> serves_from s (put_server i st s)"
  by (rule serves_fromI [of _ _ "[]" "[]"]) auto

lemma serves_from_finish_begin: "serves_from s (srv_finish_begin e i s)"
  by (auto simp: srv_finish_begin_def server_removeStream_def intro!: serves_from_put_only split: option.splits)

lemma serves_from_loop_finish: "serves_from s (loop_finish e i s)"
  by (simp add: loop_finish_def serves_from_finish_begin)

lemma serves_from_defer: "serves_from s (serve_defer e i s)"
  by (simp add: serve_defer_def serves_from_finish_begin)

lemma serves_from_finish_locked:
  assumes "srv_finish_locked L e i s = Some s'"
  shows "serves_from s s'"
proof -
  obtain st st' fs where x: "sv_heap s i = Some st"
    "s' = (put_server i st' s)\<lparr>sv_jobs := sv_jobs s @ (if fs = [] then [] else [map (s2c i) fs])\<rparr>"
    using assms by (auto simp: srv_finish_locked_def split: option.splits)
  show ?thesis
    by (rule serves_fromI [of _ _ "[]" "if fs = [] then [] else [map (s2c i) fs]"]) (use x in \<open>auto split: if_splits\<close>)
qed

lemma serves_from_all_ctx: "serves_from s (tunnel_ctx_ends e s)"
  by (rule serves_fromI [of _ _ "[]" "[]"]) (auto simp: tunnel_ctx_ends_def dom_def)

lemma serves_from_send: "server_stream_send ms m r i s = Some (e, s') \<Longrightarrow> serves_from s s'"
  by (auto simp: server_stream_send_def intro!: serves_from_put split: option.splits)

lemma serves_from_RecvMsg:
  assumes "server_stream_RecvMsg ph i s = Some (x, s')"
  shows "serves_from s s'"
proof -
  obtain st where st: "sv_heap s i = Some st"
    using assms by (auto simp: server_stream_RecvMsg_def split: option.splits)
  obtain res st' us where rd: "server_readMsg ph st = (res, st', us)" by (metis prod_cases3)
  let ?s1 = "(put_server i st' s)\<lparr>sv_sent := sv_sent s @ map (s2c i) (server_sendUpdates us st)\<rparr>"
  have s1: "serves_from s ?s1" using serves_from_put [where b = True and s = s and i = i and st = st'] st by simp
  then have "serves_from s (srv_finish_begin e i ?s1)" for e
    by (rule serves_from_trans [OF _ serves_from_finish_begin])
  then show ?thesis
    using assms st rd s1
    by (auto simp: server_stream_RecvMsg_def Let_def split: srv_res.splits option.splits if_splits prod.splits)
qed

lemma serves_from_end:
  assumes "serve_end ms h r i s = Some s'"
  shows "serves_from s s'"
proof -
  have "serves_from s (serve_defer e i s1)" if "serves_from s s1" for e s1
    by (rule serves_from_trans [OF that serves_from_defer])
  then show ?thesis
    using assms
    by (auto simp: serve_end_def serves_from_defer dest!: serves_from_send split: option.splits serve_pc.splits handler_end.splits method_desc.splits)
qed

lemma serves_from_setHeader: "server_stream_setHeader L md b r i s = Some (e, s') \<Longrightarrow> serves_from s s'"
  by (auto simp: server_stream_setHeader_def intro!: serves_from_put split: option.splits)

lemma serves_from_setTrailer: "server_stream_setTrailer L md i s = Some (e, s') \<Longrightarrow> serves_from s s'"
  by (auto simp: server_stream_setTrailer_def intro!: serves_from_put_only split: option.splits)

lemma serves_from_ctx_ends: "server_ctx_ends i s = Some s' \<Longrightarrow> serves_from s s'"
  by (auto simp: server_ctx_ends_def intro!: serves_from_put_only split: option.splits if_splits)

lemma serves_from_watch: "server_watch i s = Some s' \<Longrightarrow> serves_from s s'"
  by (auto simp: server_watch_def intro!: serves_from_put_only split: option.splits)

lemmas serves_from_stream_ops = serves_from_setHeader serves_from_setTrailer serves_from_ctx_ends serves_from_watch

lemma serves_from_send_do: "server_stream_send_do a i s = Some s' \<Longrightarrow> serves_from s s'"
  using serves_from_put [where b = True and s = s and i = i]
  by (auto simp: server_stream_send_do_def split: option.splits if_splits)

lemma serves_from_resumed:
  "serve_resume L s = Some s' \<Longrightarrow> serves_from s s'" "recv_finish L s = Some s' \<Longrightarrow> serves_from s s'"
  "serve_finish L i s = Some s' \<Longrightarrow> serves_from s s'" "serve_sent i s = Some s' \<Longrightarrow> serves_from s s'"
  by (auto simp: serve_resume_def recv_finish_def serve_finish_def serve_sent_def serves_from_defer
      dest: serves_from_finish_locked split: srv_loop.splits list.splits option.splits serve_pc.splits send_pc.splits)

lemma serves_from_do:
  assumes "srv_do L svcs a s = Some s'" and "server_own a" and "\<nexists>k r. a = SJob k r"
  shows "serves_from s s'"
proof (cases a)
  case (SRecv closing inp)
  then obtain e where "s' = serve_return e s"
    using assms by (cases inp) (auto simp: serve_step_def split: if_splits)
  then show ?thesis by (simp add: serve_return_eq serves_from_all_ctx)
qed (use assms in \<open>auto dest: serves_from_stream_ops serves_from_send_do serves_from_resumed serves_from_end serves_from_RecvMsg
      serves_from_send simp: serves_from_all_ctx\<close>)

text \<open>A goroutine's frame goes out: the settings, or a frame of a known stream.\<close>

lemma concat_update_Cons:
  "k < length js \<Longrightarrow> js ! k = f # fs \<Longrightarrow> f \<in> set (concat js) \<and> set (concat (js[k := fs])) \<subseteq> set (concat js)
     \<and> length (concat js) = Suc (length (concat (js[k := fs])))"
proof -
  assume k: "k < length js" "js ! k = f # fs"
  then have "js = take k js @ (f # fs) # drop (Suc k) js" "js[k := fs] = take k js @ fs # drop (Suc k) js"
    by (simp_all add: upd_conv_take_nth_drop flip: k(2) id_take_nth_drop)
  then have "concat js = concat (take k js) @ f # fs @ concat (drop (Suc k) js)"
    "concat (js[k := fs]) = concat (take k js) @ fs @ concat (drop (Suc k) js)"
    by (metis concat.simps(2) concat_append append_Cons)+
  then show ?thesis by simp blast
qed

lemma srv_wire_run_job:
  assumes "srv_wire A s" and "server_run_job k r s = Some s'"
  shows "srv_wire A s'"
proof -
  obtain f fs where k: "k < length (sv_jobs s)" "sv_jobs s ! k = f # fs"
    "s' = s\<lparr>sv_jobs := (sv_jobs s)[k := fs], sv_sent := sv_sent s @ (if r = None then [f] else [])\<rparr>"
    using assms(2) by (auto simp: server_run_job_def split: if_splits list.splits)
  note up = concat_update_Cons [OF k(1,2)]
  have told: "srv_told A s'" using assms(1) by (simp add: srv_wire_def srv_told_def k(3))
  show ?thesis
  proof (cases "concat (sv_jobs s) = [settings_frame (sv_tunnelOpts s)] \<and> A = {} \<and> sv_sent s = []")
    case True
    then have "concat (sv_jobs s') = []" "f = settings_frame (sv_tunnelOpts s)" using up k(3) by simp_all
    then show ?thesis using told True k(3) by (auto simp: srv_wire_def)
  next
    case False
    then have jobs: "\<forall>m\<in>set (concat (sv_jobs s)). S2C_StreamId m \<in> A" using assms(1) unfolding srv_wire_def by blast
    then have "\<forall>m\<in>set (concat (sv_jobs s')). S2C_StreamId m \<in> A" "S2C_StreamId f \<in> A"
      using up unfolding k(3) by auto
    then show ?thesis using told False assms(1) unfolding srv_wire_def k(3) by auto
  qed
qed

lemma srv_wire_own:
  assumes "srv_wire A s" and "srv_do L svcs a s = Some s'" and "server_own a"
  shows "srv_wire A s'"
proof (cases "\<exists>k r. a = SJob k r")
  case True
  then show ?thesis using assms(2) srv_wire_run_job [OF assms(1)] by auto
next
  case False
  then show ?thesis by (rule srv_wire_serves [OF assms(1) serves_from_do [OF assms(2,3)]])
qed

subsection \<open>Frames received\<close>

lemma serves_from_acceptClientFrame: "serves_from s (acceptClientFrame f i s)"
proof (cases "sv_heap s i")
  case (Some st)
  have put: "serves_from s (put_server i st' s)" for st' by (rule serves_from_put_only) (simp add: Some)
  have "serves_from s (loop_finish e i (put_server i st' s))" for e st'
    by (rule serves_from_trans [OF put serves_from_loop_finish])
  then have "serves_from s (server_accept_data g i st s)" for g
    using put by (simp add: server_accept_data_def Let_def split: prod.splits option.splits)
  then show ?thesis
    using put serves_from_loop_finish
    by (simp add: acceptClientFrame_def Some split: option.splits ClientToServerFrame.splits)
qed (simp add: acceptClientFrame_def)

lemma acceptClientFrame_running: "sv_loop s = SrvRunning \<Longrightarrow> sv_loop (acceptClientFrame f i s) \<noteq> SrvReturned e"
  by (auto simp: acceptClientFrame_def server_accept_data_def loop_finish_def Let_def
      split: option.splits ClientToServerFrame.splits prod.splits)

text \<open>A frame of a known stream.\<close>

lemma srv_wire_known:
  assumes "srv_wire A s" and "C2S_StreamId m \<in> A" and "\<not> is_new (C2S_Frame m)"
    and "serve_step L svcs closing (Inr m) s = Some s'"
  shows "srv_wire A s' \<and> (\<forall>e. sv_loop s' \<noteq> SrvReturned e)"
proof -
  have run: "sv_loop s = SrvRunning" using assms(4) by (auto simp: serve_step_def split: if_splits)
  have "C2S_StreamId m \<le> sv_lastSeen s" using assms(1,2) by (auto simp: srv_wire_def srv_told_def)
  then have "s' = s \<or> (\<exists>f i. s' = acceptClientFrame f i s)"
    using assms(3,4) by (auto simp: serve_step_def server_getStream_def split: if_splits option.splits ClientToServerFrame.splits)
  moreover have "srv_wire A (acceptClientFrame f i s)" for f i
    by (rule srv_wire_serves [OF assms(1) serves_from_acceptClientFrame])
  ultimately show ?thesis
    using assms(1) run acceptClientFrame_running [OF run] by auto
qed

text \<open>A stream is announced.\<close>

lemma srv_told_insert:
  assumes "srv_told A s" and "\<forall>i\<in>A. i < j" and "0 < j" and "sv_lastSeen s' = j" and "dom (sv_heap s') \<subseteq> insert j (dom (sv_heap s))"
  shows "srv_told (insert j A) s'"
  using assms by (fastforce simp: srv_told_def)

lemma srv_wire_new:
  assumes "srv_wire A s" and "srv_inv s" and "sv_sent s \<noteq> []" and "C2S_Frame m = Some (ClientToServer_NewStream f)"
    and "0 < C2S_StreamId m" and "\<forall>i\<in>A. i < C2S_StreamId m"
    and "serve_step L svcs closing (Inr m) s = Some s'"
  shows "srv_wire (insert (C2S_StreamId m) A) s' \<and> (\<forall>e. sv_loop s' \<noteq> SrvReturned e)"
proof -
  let ?j = "C2S_StreamId m"
  have run: "sv_loop s = SrvRunning" using assms(7) by (auto simp: serve_step_def split: if_splits)
  have told: "srv_told A s" and sent: "\<forall>m\<in>set (concat (sv_jobs s)). S2C_StreamId m \<in> A"
      "\<exists>fs. sv_sent s = settings_frame (sv_tunnelOpts s) # fs \<and> (\<forall>m\<in>set fs. S2C_StreamId m \<in> A)"
    using assms(1,3) by (auto simp: srv_wire_def)
  have later: "sv_lastSeen s < ?j" using told assms(5,6) by (auto simp: srv_told_def)
  then have new: "\<not> (?j \<in> sv_streams s)" "\<not> (?j \<le> sv_lastSeen s)"
    using assms(2) by (fastforce simp: srv_inv_def srv_streams_ok_def)+
  obtain js where s': "sv_lastSeen s' = ?j" "dom (sv_heap s') \<subseteq> insert ?j (dom (sv_heap s))" "sv_tunnelOpts s' = sv_tunnelOpts s"
      "sv_sent s' = sv_sent s" "sv_jobs s' = sv_jobs s @ js" "\<forall>m\<in>set (concat js). S2C_StreamId m = ?j" "sv_loop s' = SrvRunning"
  proof (cases "check_stream svcs closing s f")
    case (Inl e)
    show thesis
      by (rule that [of "[[s2c ?j (ServerToClient_CloseStream \<lparr>ResponseTrailers = None, Status = Some (fst (FromError L e))\<rparr>)]]"])
         (use assms(4,7) run new Inl in \<open>auto simp: serve_step_def createStream_def\<close>)
  next
    case (Inr nm)
    show thesis
      by (rule that [of "[]"])
         (use assms(4,7) run new Inr in \<open>auto simp: serve_step_def createStream_def Let_def split: prod.splits\<close>)
  qed
  have "srv_told (insert ?j A) s'" by (rule srv_told_insert [OF told assms(6,5) s'(1,2)])
  then show ?thesis using sent s'(3-7) by (auto simp: srv_wire_def)
qed

text \<open>The settings, and frames of announced streams, do not end the client's loop.\<close>

lemma settings_accepted:
  assumes "ch_loop c = LoopStart" and "ch_serverSendsSettings c" and "ch_useRevision c = REVISION_ZERO" and "opts_wf opt"
    and "recvLoop L (Inr (settings_frame opt)) c = Some c'"
  shows "ch_loop c' = LoopRunning"
  using assms opts_wf_minWindowSize [OF assms(4), of REVISION_TWO]
  by (auto simp: recvLoop_def recvLoop_start_def settings_frame_def accept_settings_def supportedRevisions_def negotiate_step_def
      revision_defs Let_def split: if_splits)

lemma announced_accepted:
  assumes "ch_loop c = LoopRunning" and "ch_streamCreated c" and "S2C_StreamId m \<le> ch_lastStreamID c"
    and "recvLoop L (Inr m) c = Some c'"
  shows "ch_loop c' = LoopRunning"
  using assms by (auto simp: recvLoop_def recvLoop_step_def getStream_def split: if_splits)

subsection \<open>The whole system\<close>

definition ts_inv :: "tunnel_sys \<Rightarrow> bool" where
  "ts_inv y \<longleftrightarrow> chan_inv (ts_client y) \<and> srv_inv (ts_server y) \<and> client_wire (ts_client y)
     \<and> srv_wire (announced (take (ts_up y) (ch_sent (ts_client y)))) (ts_server y)
     \<and> ts_up y \<le> length (ch_sent (ts_client y)) \<and> ts_down y \<le> length (sv_sent (ts_server y))
     \<and> (ch_loop (ts_client y) = LoopStart \<longrightarrow> ts_down y = 0) \<and> (ch_settings (ts_client y) \<noteq> None \<longrightarrow> 0 < ts_down y)"

text \<open>Frames the client has sent stay sent.\<close>

lemma chan_do_sent:
  assumes "chan_do L a c = Some c'" and "client_own a c \<or> (\<exists>inp. a = ActRecv inp)"
  shows "\<exists>new. ch_sent c' = ch_sent c @ new"
proof (cases "\<exists>x r. a = ActNew x r")
  case True
  then obtain x r where a: "a = ActNew x r" by blast
  obtain res c1 where al: "allocateStream L x c = (res, c1)" by fastforce
  have "ch_sent c1 = ch_sent c"
    using allocateStream_refused [of c L x] al
    by (cases "ch_finished c \<or> ch_lastStreamID c < 0")
       (auto simp: allocateStream_def Let_def split: option.splits opts_res.splits prod.splits if_splits)
  then show ?thesis
    using assms(1) a al by (auto simp: newStream_def split: alloc_res.splits option.splits)
next
  case False
  then have "sends_from c c'" using sends_from_do [OF assms] by blast
  then show ?thesis by (auto simp: sends_from_def wire_view_def)
qed

lemma srv_do_sent:
  assumes "srv_do L svcs a s = Some s'"
  shows "\<exists>new. sv_sent s' = sv_sent s @ new"
proof (cases a)
  case (SRecv closing inp)
  have ret: "sv_sent (serve_return e t) = sv_sent t" for e t by (simp add: serve_return_def)
  have acc: "\<exists>new. sv_sent (acceptClientFrame f i s) = sv_sent s @ new" for f i
    using serves_from_acceptClientFrame [of s f i] by (auto simp: serves_from_def)
  show ?thesis
    using assms SRecv acc
    by (auto simp: serve_step_def ret createStream_def Let_def
        split: if_splits sum.splits option.splits ClientToServerFrame.splits prod.splits)
next
  case (SJob k r)
  then show ?thesis using assms by (auto simp: server_run_job_def split: if_splits list.splits)
qed (use assms serves_from_do [OF assms] in \<open>auto simp: serves_from_def\<close>)

lemma ts_inv_client:
  assumes "ts_inv y" and "client_own a (ts_client y)" and "chan_do L a (ts_client y) = Some c" and "0 \<le> ch_lastStreamID c"
  shows "ts_inv (y\<lparr>ts_client := c\<rparr>)"
proof -
  let ?c = "ts_client y"
  have inv: "chan_inv ?c" "client_wire ?c" "ts_up y \<le> length (ch_sent ?c)" using assms(1) by (simp_all add: ts_inv_def)
  obtain new where new: "ch_sent c = ch_sent ?c @ new" using chan_do_sent [OF assms(3)] assms(2) by blast
  have "chan_inv c" by (rule chan_inv_do [OF inv(1) assms(3)])
  moreover have "client_wire c" using client_wire_do [OF inv(1,2) assms(3) _ assms(4)] assms(2) by blast
  moreover have "ch_settings c = ch_settings ?c \<and> (ch_loop c = LoopStart \<longrightarrow> ch_loop ?c = LoopStart)"
  proof (cases "\<exists>e. a = ActRecv (Inl e)")
    case True
    then show ?thesis using assms(3) recvLoop_failed by fastforce
  next
    case False
    then have "\<nexists>inp. a = ActRecv inp" using assms(2) by (metis client_own.simps(1) sum.exhaust)
    then show ?thesis using loop_view_own [OF assms(3)] by (simp add: loop_view_def)
  qed
  ultimately show ?thesis using assms(1) inv(3) new by (simp add: ts_inv_def)
qed

lemma ts_inv_server:
  assumes "ts_inv y" and "server_own a" and "srv_do L svcs a (ts_server y) = Some s"
  shows "ts_inv (y\<lparr>ts_server := s\<rparr>)"
  using assms(1) srv_inv_do [OF _ assms(3)] srv_wire_own [OF _ assms(3,2)] srv_do_sent [OF assms(3)]
  by (auto simp: ts_inv_def)

text \<open>A frame arrives at the server.\<close>

lemma ts_inv_up:
  assumes "ts_inv y" and "ts_up y < length (ch_sent (ts_client y))"
    and "serve_step L svcs closing (Inr (ch_sent (ts_client y) ! ts_up y)) (ts_server y) = Some s"
  shows "ts_inv (y\<lparr>ts_server := s, ts_up := ts_up y + 1\<rparr>) \<and> (\<forall>e. sv_loop s \<noteq> SrvReturned e)"
proof -
  let ?fs = "ch_sent (ts_client y)" and ?s = "ts_server y"
  let ?m = "?fs ! ts_up y" and ?A = "announced (take (ts_up y) ?fs)"
  have inv: "srv_inv ?s" "client_wire (ts_client y)" "srv_wire ?A ?s" "ts_down y \<le> length (sv_sent ?s)"
      "ch_settings (ts_client y) \<noteq> None \<longrightarrow> 0 < ts_down y"
    using assms(1) by (simp_all add: ts_inv_def)
  have ok: "frame_ok (take (ts_up y) ?fs) ?m"
    using inv(2) assms(2) by (simp add: client_wire_def wire_ok_def)
  have tk: "announced (take (ts_up y + 1) ?fs) = ?A \<union> announced [?m]"
    using assms(2) by (simp add: take_Suc_conv_app_nth del: announced_single)
  have "sv_sent ?s \<noteq> []"
    using inv(2,4,5) assms(2) by (auto simp: client_wire_def)
  then have "srv_wire (announced (take (ts_up y + 1) ?fs)) s \<and> (\<forall>e. sv_loop s \<noteq> SrvReturned e)"
  proof (cases "is_new (C2S_Frame ?m)")
    case True
    then obtain f where f: "C2S_Frame ?m = Some (ClientToServer_NewStream f)"
      by (cases "C2S_Frame ?m" rule: is_new.cases) simp_all
    have "0 < C2S_StreamId ?m" "\<forall>i\<in>?A. i < C2S_StreamId ?m" using ok True by (simp_all add: frame_ok_def)
    then show ?thesis
      using srv_wire_new [OF inv(3,1) \<open>sv_sent ?s \<noteq> []\<close> f _ _ assms(3)] True tk by simp
  next
    case False
    then have "C2S_StreamId ?m \<in> ?A" using ok by (simp add: frame_ok_def)
    then show ?thesis using srv_wire_known [OF inv(3) _ False assms(3)] False tk by simp
  qed
  moreover have "srv_inv s" by (rule srv_inv_serve_step [OF inv(1) assms(3)])
  moreover have "\<exists>new. sv_sent s = sv_sent ?s @ new"
    using srv_do_sent [of L svcs "SRecv closing (Inr ?m)" ?s s] assms(3) by simp
  ultimately show ?thesis
    using assms(1,2) by (auto simp: ts_inv_def)
qed

text \<open>A frame arrives at the client.\<close>

lemma ts_down_running:
  assumes "ts_inv y" and "ts_down y < length (sv_sent (ts_server y))"
    and "recvLoop L (Inr (sv_sent (ts_server y) ! ts_down y)) (ts_client y) = Some c"
  shows "ch_loop c = LoopRunning"
proof -
  let ?c = "ts_client y" and ?s = "ts_server y"
  let ?A = "announced (take (ts_up y) (ch_sent ?c))"
  have inv: "chan_inv ?c" "srv_inv ?s" "client_wire ?c" "ch_settings ?c \<noteq> None \<longrightarrow> 0 < ts_down y"
      "ch_loop ?c = LoopStart \<longrightarrow> ts_down y = 0"
    using assms(1) by (simp_all add: ts_inv_def)
  have "sv_sent ?s \<noteq> []" using assms(2) by auto
  then obtain fs where fs: "sv_sent ?s = settings_frame (sv_tunnelOpts ?s) # fs" "\<forall>m\<in>set fs. S2C_StreamId m \<in> ?A"
    using assms(1) by (auto simp: ts_inv_def srv_wire_def)
  have st: "settings_ok ?c" using inv(1) by (simp add: chan_inv_def)
  show ?thesis
  proof (cases "ch_loop ?c")
    case LoopStart
    then show ?thesis
      using settings_accepted [OF LoopStart, of "sv_tunnelOpts ?s" L c] st inv(2,3,5) assms(3) fs(1)
      by (simp add: settings_ok_def client_wire_def srv_inv_def)
  next
    case LoopRunning
    then have "0 < ts_down y" using st inv(4) by (simp add: settings_ok_def)
    then have "sv_sent ?s ! ts_down y \<in> set fs" using assms(2) fs(1) by (auto simp: nth_Cons')
    then have "S2C_StreamId (sv_sent ?s ! ts_down y) \<in> announced (ch_sent ?c)"
      using fs(2) announced_take by blast
    then show ?thesis
      using announced_accepted [OF LoopRunning _ _ assms(3)] inv(3) by (auto simp: client_wire_def)
  next
    case LoopEnded
    then show ?thesis using assms(3) by (simp add: recvLoop_def)
  qed
qed

lemma ts_inv_down:
  assumes "ts_inv y" and "ts_down y < length (sv_sent (ts_server y))"
    and "recvLoop L (Inr (sv_sent (ts_server y) ! ts_down y)) (ts_client y) = Some c" and "0 \<le> ch_lastStreamID c"
  shows "ts_inv (y\<lparr>ts_client := c, ts_down := ts_down y + 1\<rparr>)"
proof -
  let ?c = "ts_client y" and ?a = "ActRecv (Inr (sv_sent (ts_server y) ! ts_down y))"
  have do: "chan_do L ?a ?c = Some c" using assms(3) by simp
  have inv: "chan_inv ?c" "client_wire ?c" using assms(1) by (simp_all add: ts_inv_def)
  have "chan_inv c" by (rule chan_inv_do [OF inv(1) do])
  moreover have "client_wire c" using client_wire_do [OF inv do _ assms(4)] by blast
  moreover have "ch_sent c = ch_sent ?c" using wire_view_recvLoop [OF assms(3)] by (simp add: wire_view_def)
  ultimately show ?thesis
    using assms(1,2) ts_down_running [OF assms(1-3)] by (simp add: ts_inv_def)
qed

lemma ts_do_last:
  assumes "ts_do L svcs a y = Some z" and "0 \<le> ch_lastStreamID (ts_client z)"
  shows "0 \<le> ch_lastStreamID (ts_client y)"
  using assms exhausted_stays
  by (cases a) (fastforce split: if_splits simp: not_less [symmetric] simp del: chan_do.simps)+

lemma ts_inv_do:
  assumes "ts_inv y" and "ts_do L svcs a y = Some z" and "0 \<le> ch_lastStreamID (ts_client z)"
  shows "ts_inv z"
  using assms by (cases a) (auto split: if_splits dest: ts_inv_client ts_inv_server ts_inv_up ts_inv_down)

lemma ts_inv_reach: "ts_reach L svcs y0 y \<Longrightarrow> ts_inv y0 \<Longrightarrow> 0 \<le> ch_lastStreamID (ts_client y) \<Longrightarrow> ts_inv y"
  by (induction rule: ts_reach.induct) (auto dest: ts_do_last intro: ts_inv_do)

definition ts_start :: "tunnelChannel \<Rightarrow> tunnelServer \<Rightarrow> tunnel_sys" where
  "ts_start c s = \<lparr>ts_client = c, ts_server = s, ts_up = 0, ts_down = 0\<rparr>"

lemma ts_inv_start:
  assumes "opts_wf opts" and "opts_wf sopts"
  shows "ts_inv (ts_start (newTunnelChannel x pr md True r opts mem) (serveTunnel sx True r' sopts))"
proof -
  have "client_wire (newTunnelChannel x pr md True r opts mem)"
    by (simp add: client_wire_def newTunnelChannel_def)
  moreover have "srv_wire {} (serveTunnel sx True r' sopts)"
    by (simp add: srv_wire_def srv_told_def serveTunnel_def)
  ultimately show ?thesis
    using chan_inv_newTunnelChannel [OF assms(1)] srv_inv_serveTunnel [OF assms(2)]
    by (simp add: ts_inv_def ts_start_def) (simp add: newTunnelChannel_def)
qed

end
