(* ===== verification/Delivery_Server.thy ===== *)
theory Delivery_Server
  imports Delivery_Client Tunnel_System
begin

text \<open>
  What the server's end of a tunnel sends and reads, step by step, as \<open>Delivery_Client\<close> does for the client. A handler whose receiver is
  cancelled while it waits for a frame may be handed one empty message that nobody sent; \<open>server_reads\<close> says that this is the only one,
  and the last.
\<close>

fun server_log :: "srv_act \<Rightarrow> tunnelServer \<Rightarrow> tunnelServer \<Rightarrow> srv_phase rpc_log \<Rightarrow> srv_phase rpc_log" where
  "server_log (SSendMsg i (Inr b) r) s s' lg = log_begins i b lg"
| "server_log (SHandlerEnd i (HResp (Inr b)) r) s s' lg = log_begins i b lg"
| "server_log (SSend i (SendFunc None)) s s' lg =
     (if map_option ss_pc (sv_heap s' i) = Some (Returned None) then log_sends i lg else lg)"
| "server_log (SRecvMsg i ph) s s' lg =
     (case server_stream_RecvMsg ph i s of
        Some (SrvWaits ph', _) \<Rightarrow> log_waits i (Some ph') lg
      | Some (SrvData d, _) \<Rightarrow> log_gets i d lg
      | _ \<Rightarrow> log_waits i None lg)"
| "server_log _ s s' lg = lg"

subsection \<open>The account of a stream\<close>

definition server_writes :: "i64 \<Rightarrow> ServerToClient list \<Rightarrow> tunnelServerStream \<Rightarrow> srv_phase rpc_log \<Rightarrow> bool" where
  "server_writes i out st lg \<longleftrightarrow>
     writer_ok (client_switch []) (data_down i out) (ss_pc st) (ss_sendSize st) (lg_cur lg i) (lg_sent lg i)"

definition genuine :: "bytes list \<Rightarrow> bool \<Rightarrow> bytes list \<Rightarrow> srv_phase option \<Rightarrow> bool" where
  "genuine msgs cancelled got at \<longleftrightarrow>
     (\<exists>ms. prefix (ms @ fst (server_at at)) msgs \<and> (got = ms \<or> got = ms @ [[]] \<and> cancelled \<and> at = None))"

definition server_reads :: "i64 \<Rightarrow> ClientToServer list \<Rightarrow> bool \<Rightarrow> tunnelServerStream \<Rightarrow> srv_phase rpc_log \<Rightarrow> bool" where
  "server_reads i inp on st lg \<longleftrightarrow>
     genuine (fst (parse server_switch (data_up i inp))) (rcv_cancelled (ss_receiver st)) (lg_got lg i) (lg_at lg i)
     \<and> (\<not> rcv_cancelled (ss_receiver st) \<longrightarrow>
          reader_ok server_switch (data_up i inp) (on \<and> \<not> rcv_closed (ss_receiver st)) (rcv_items (ss_receiver st)) (ss_readErr st)
            (lg_got lg i) (server_at (lg_at lg i))
          \<and> (lg_at lg i \<noteq> None \<longrightarrow> ss_readErr st = None))"

definition server_end :: "ClientToServer list \<Rightarrow> tunnelServer \<Rightarrow> srv_phase rpc_log \<Rightarrow> bool" where
  "server_end inp s lg \<longleftrightarrow>
     (\<forall>i st. sv_heap s i = Some st \<longrightarrow> server_writes i (sv_sent s) st lg \<and> server_reads i inp (i \<in> sv_streams s) st lg)
     \<and> (\<forall>i. sv_heap s i = None \<longrightarrow> data_down i (sv_sent s) = [] \<and> lg_sent lg i = [] \<and> lg_got lg i = [] \<and> lg_at lg i = None)
     \<and> (\<forall>m\<in>set (concat (sv_jobs s)). down_data (S2C_Frame m) = [])"

lemma server_end_at:
  "server_end inp s lg \<Longrightarrow> sv_heap s i = Some st \<Longrightarrow> server_writes i (sv_sent s) st lg \<and> server_reads i inp (i \<in> sv_streams s) st lg"
  by (simp add: server_end_def)

lemma genuine_more: "genuine msgs x got at \<Longrightarrow> prefix msgs msgs' \<Longrightarrow> x \<longrightarrow> x' \<Longrightarrow> genuine msgs' x' got at"
  unfolding genuine_def using prefix_order.trans by blast

lemma genuine_reader: "reader_ok server_switch inp opn items err got (server_at at) \<Longrightarrow> genuine (fst (parse server_switch inp)) x got at"
  unfolding genuine_def using reader_ok_got by blast

subsection \<open>Steps that neither send nor read\<close>

definition ss_still :: "bool \<Rightarrow> tunnelServerStream \<Rightarrow> bool \<Rightarrow> tunnelServerStream \<Rightarrow> bool" where
  "ss_still on st on' st' \<longleftrightarrow> (ss_pc st', ss_sendSize st', ss_readErr st') = (ss_pc st, ss_sendSize st, ss_readErr st)
     \<and> (rcv_cancelled (ss_receiver st) \<longrightarrow> rcv_cancelled (ss_receiver st'))
     \<and> (\<not> rcv_cancelled (ss_receiver st') \<longrightarrow> rcv_items (ss_receiver st') = rcv_items (ss_receiver st))
     \<and> (on' \<and> \<not> rcv_closed (ss_receiver st') \<longrightarrow> on \<and> \<not> rcv_closed (ss_receiver st))"

definition server_still :: "tunnelServer \<Rightarrow> tunnelServer \<Rightarrow> bool" where
  "server_still s s' \<longleftrightarrow> (\<forall>i. data_down i (sv_sent s') = data_down i (sv_sent s))
     \<and> (\<forall>m\<in>set (concat (sv_jobs s')). m \<in> set (concat (sv_jobs s)) \<or> down_data (S2C_Frame m) = [])
     \<and> (\<forall>i. sv_heap s i = None \<longrightarrow> sv_heap s' i = None)
     \<and> (\<forall>i st. sv_heap s i = Some st \<longrightarrow>
          (\<exists>st'. sv_heap s' i = Some st' \<and> ss_still (i \<in> sv_streams s) st (i \<in> sv_streams s') st'))"

lemma server_reads_still:
  assumes "server_reads i inp on st lg" and "ss_still on st on' st'" and "prefix (data_up i inp) (data_up i inp')"
    and "on' \<Longrightarrow> data_up i inp' = data_up i inp"
  shows "server_reads i inp' on' st' lg"
proof -
  have "genuine (fst (parse server_switch (data_up i inp'))) (rcv_cancelled (ss_receiver st')) (lg_got lg i) (lg_at lg i)"
    using assms(1,2) parse_prefix [OF assms(3)] by (auto simp: server_reads_def ss_still_def intro: genuine_more)
  moreover have "reader_ok server_switch (data_up i inp') (on' \<and> \<not> rcv_closed (ss_receiver st')) (rcv_items (ss_receiver st'))
      (ss_readErr st) (lg_got lg i) (server_at (lg_at lg i))" if "\<not> rcv_cancelled (ss_receiver st')"
  proof -
    have "reader_ok server_switch (data_up i inp) (on \<and> \<not> rcv_closed (ss_receiver st)) (rcv_items (ss_receiver st))
        (ss_readErr st) (lg_got lg i) (server_at (lg_at lg i))"
      using assms(1,2) that by (auto simp: server_reads_def ss_still_def)
    then show ?thesis by (rule reader_ok_weaken [OF _ assms(3)]) (use assms(2,4) that in \<open>auto simp: ss_still_def\<close>)
  qed
  ultimately show ?thesis using assms(1,2) by (auto simp: server_reads_def ss_still_def)
qed

lemma server_end_still:
  assumes "server_end inp s lg" and "server_still s s'" and "\<And>i. prefix (data_up i inp) (data_up i inp')"
    and "\<And>i. i \<in> sv_streams s' \<Longrightarrow> data_up i inp' = data_up i inp"
  shows "server_end inp' s' lg"
proof -
  have "server_writes i (sv_sent s') st' lg \<and> server_reads i inp' (i \<in> sv_streams s') st' lg" if st': "sv_heap s' i = Some st'" for i st'
  proof -
    obtain st where st: "sv_heap s i = Some st" "ss_still (i \<in> sv_streams s) st (i \<in> sv_streams s') st'"
      using assms(2) st' unfolding server_still_def by (metis not_None_eq option.inject)
    have w: "server_writes i (sv_sent s) st lg" "server_reads i inp (i \<in> sv_streams s) st lg"
      using server_end_at [OF assms(1) st(1)] by simp_all
    have "server_writes i (sv_sent s') st' lg" using w(1) st(2) assms(2) by (simp add: server_writes_def ss_still_def server_still_def)
    moreover have "server_reads i inp' (i \<in> sv_streams s') st' lg"
      by (rule server_reads_still [OF w(2) st(2) assms(3,4)])
    ultimately show ?thesis by blast
  qed
  moreover have "sv_heap s i = None" if "sv_heap s' i = None" for i
    using assms(2) that unfolding server_still_def by (metis not_None_eq option.distinct(1))
  ultimately show ?thesis
    using assms(1,2) unfolding server_end_def server_still_def by metis
qed

lemma ss_still_refl [simp]: "ss_still on st on st"
  by (simp add: ss_still_def)

lemma server_still_refl [simp]: "server_still s s"
  by (simp add: server_still_def)

lemma server_still_trans:
  assumes "server_still s s1" and "server_still s1 s2"
  shows "server_still s s2"
proof -
  have "\<exists>st'. sv_heap s2 i = Some st' \<and> ss_still (i \<in> sv_streams s) st (i \<in> sv_streams s2) st'" if st: "sv_heap s i = Some st" for i st
  proof -
    obtain st1 where 1: "sv_heap s1 i = Some st1" "ss_still (i \<in> sv_streams s) st (i \<in> sv_streams s1) st1"
      using assms(1) st unfolding server_still_def by blast
    obtain st2 where 2: "sv_heap s2 i = Some st2" "ss_still (i \<in> sv_streams s1) st1 (i \<in> sv_streams s2) st2"
      using assms(2) 1(1) unfolding server_still_def by blast
    have "ss_still (i \<in> sv_streams s) st (i \<in> sv_streams s2) st2" using 1(2) 2(2) by (auto simp: ss_still_def)
    then show ?thesis using 2(1) by blast
  qed
  then show ?thesis using assms unfolding server_still_def by metis
qed

lemma server_still_frame [simp]:
  "server_still s (s'\<lparr>sv_loop := x0\<rparr>) = server_still s s'" "server_still s (s'\<lparr>sv_serving := x1\<rparr>) = server_still s s'"
  "server_still s (s'\<lparr>sv_waiting := x2\<rparr>) = server_still s s'" "server_still s (s'\<lparr>sv_ctx := x3\<rparr>) = server_still s s'"
  "server_still s (s'\<lparr>sv_lastSeen := x4\<rparr>) = server_still s s'"
  by (simp_all add: server_still_def)

lemma server_still_put:
  "sv_heap s i = Some st \<Longrightarrow> ss_still (i \<in> sv_streams s) st (i \<in> sv_streams s) st' \<Longrightarrow> server_still s (put_server i st' s)"
  by (auto simp: server_still_def put_server_def)

lemma server_still_remove: "server_still s (server_removeStream i s)"
  by (auto simp: server_still_def ss_still_def server_removeStream_def)

lemma server_still_sent: "(\<And>i. data_down i ms = []) \<Longrightarrow> server_still s (s\<lparr>sv_sent := sv_sent s @ ms\<rparr>)"
  by (auto simp: server_still_def)

lemma server_still_jobs: "(\<And>m. m \<in> set (concat js) \<Longrightarrow> down_data (S2C_Frame m) = []) \<Longrightarrow> server_still s (s\<lparr>sv_jobs := sv_jobs s @ js\<rparr>)"
  by (auto simp: server_still_def)

lemma close_receiver_cancelled [simp]: "rcv_cancelled (close_receiver r) = rcv_cancelled r"
  by (auto simp: close_receiver_def handleClosure_def Let_def)

lemma halfClose_still: "ss_still on st on (halfClose e st)"
  by (auto simp: halfClose_def ss_still_def)

lemma server_still_finish_begin: "server_still s (srv_finish_begin e i s)"
proof (cases "sv_heap s i")
  case (Some st)
  have "ss_still on st on (finish_begin e st)" for on
    by (auto simp: finish_begin_def halfClose_def ss_still_def)
  then have "server_still s (server_removeStream i (put_server i (finish_begin e st) s))"
    by (intro server_still_trans [OF server_still_put [OF Some] server_still_remove])
  then show ?thesis by (simp add: srv_finish_begin_def Some)
qed (simp add: srv_finish_begin_def)

lemma server_still_defer: "server_still s (serve_defer e i s)"
  by (simp add: serve_defer_def server_still_finish_begin)

lemma server_still_loop_finish: "server_still s (loop_finish e i s)"
  by (simp add: loop_finish_def server_still_finish_begin)

lemma server_still_finish_locked:
  assumes "srv_finish_locked L e i s = Some s'"
  shows "server_still s s'"
proof -
  obtain st st' fs where x: "sv_heap s i = Some st" "finish_locked L e st = Some (st', fs)"
    "s' = (put_server i st' s)\<lparr>sv_jobs := sv_jobs (put_server i st' s) @ (if fs = [] then [] else [map (s2c i) fs])\<rparr>"
    using assms by (auto simp: srv_finish_locked_def put_server_def split: option.splits)
  have "ss_still on st on st'" "\<And>f. f \<in> set fs \<Longrightarrow> down_data (Some f) = []" for on
    using x(2) by (auto simp: finish_locked_def Let_def ss_still_def split: if_splits)
  then show ?thesis
    unfolding x(3) by (intro server_still_trans [OF server_still_put [OF x(1)] server_still_jobs]) (auto split: if_splits)
qed

lemma server_still_all_ctx: "server_still s (tunnel_ctx_ends e s)"
  by (auto simp: tunnel_ctx_ends_def server_still_def ss_still_def)

lemma data_down_quiet: "(\<And>f. f \<in> set fs \<Longrightarrow> down_data (Some f) = []) \<Longrightarrow> data_down j (map (s2c i) fs) = []"
  by (auto simp: data_down_def)

lemma server_still_put_sent:
  assumes "sv_heap s i = Some st" and "\<And>on. ss_still on st on st'" and "\<And>f. f \<in> set fs \<Longrightarrow> down_data (Some f) = []"
  shows "server_still s ((put_server i st' s)\<lparr>sv_sent := sv_sent s @ map (s2c i) fs\<rparr>)"
proof -
  have "data_down j (map (s2c i) fs) = []" for j by (rule data_down_quiet [OF assms(3)])
  then have "server_still (put_server i st' s) ((put_server i st' s)\<lparr>sv_sent := sv_sent (put_server i st' s) @ map (s2c i) fs\<rparr>)"
    by (rule server_still_sent)
  then show ?thesis
    using server_still_trans [OF server_still_put [OF assms(1) assms(2)]] by (simp add: put_server_def)
qed

subsection \<open>Steps of one stream\<close>

lemma server_end_put:
  assumes "server_end inp s lg" and "sv_heap s i = Some st" and "log_only i lg lg'"
    and "\<And>j. j \<noteq> i \<Longrightarrow> data_up j inp' = data_up j inp"
    and "server_writes i (sv_sent s @ map (s2c i) fs) st' lg'" and "server_reads i inp' (i \<in> sv_streams s) st' lg'"
  shows "server_end inp' ((put_server i st' s)\<lparr>sv_sent := sv_sent s @ map (s2c i) fs\<rparr>) lg'"
  using assms by (auto simp: server_end_def server_writes_def server_reads_def log_only_def put_server_def)

lemma server_end_put_only:
  assumes "server_end inp s lg" and "sv_heap s i = Some st" and "log_only i lg lg'"
    and "\<And>j. j \<noteq> i \<Longrightarrow> data_up j inp' = data_up j inp"
    and "server_writes i (sv_sent s) st' lg'" and "server_reads i inp' (i \<in> sv_streams s) st' lg'"
  shows "server_end inp' (put_server i st' s) lg'"
  using server_end_put [of inp s lg i st lg' inp' "[]" st'] assms by (simp add: put_server_def)

text \<open>The beginning of \<^verbatim>\<open>SendMsg\<close>: headers may be sent, data is not.\<close>

fun log_marshalled :: "i64 \<Rightarrow> gerror + bytes \<Rightarrow> 'p rpc_log \<Rightarrow> 'p rpc_log" where
  "log_marshalled i (Inr b) lg = log_begins i b lg"
| "log_marshalled i (Inl e) lg = lg"

lemma server_log_marshalled [simp]:
  "server_log (SSendMsg i b r) s s' lg = log_marshalled i b lg" "server_log (SHandlerEnd i (HResp b) r) s s' lg = log_marshalled i b lg"
  by (cases b; simp)+

lemma log_marshalled_fields [simp]:
  "lg_sent (log_marshalled i b lg) = lg_sent lg" "lg_got (log_marshalled i b lg) = lg_got lg" "lg_at (log_marshalled i b lg) = lg_at lg"
  "log_only i lg (log_marshalled i b lg)"
  by (cases b; simp add: log_begins_def log_only_def)+

lemma server_SendMsg_still:
  assumes "server_SendMsg (\<lambda>x. x) b r st = Some (e, st', fs)"
  shows "ss_receiver st' = ss_receiver st" "ss_readErr st' = ss_readErr st" "sending (ss_pc st) = None"
    "f \<in> set fs \<Longrightarrow> down_data (Some f) = []"
    "ss_pc st' = ss_pc st \<or> (\<exists>x. b = Inr x \<and> length x \<le> MaxUint32 \<and> ss_pc st' = send_begin x \<and> ss_sendSize st' = u32_of_len x)"
proof -
  show "ss_receiver st' = ss_receiver st" "ss_readErr st' = ss_readErr st" "f \<in> set fs \<Longrightarrow> down_data (Some f) = []"
    "ss_pc st' = ss_pc st \<or> (\<exists>x. b = Inr x \<and> length x \<le> MaxUint32 \<and> ss_pc st' = send_begin x \<and> ss_sendSize st' = u32_of_len x)"
    using assms by (auto simp: server_SendMsg_def sendHeadersLocked_def Let_def split: if_splits option.splits sum.splits)
  have "send_idle (ss_pc st)" using assms by (auto simp: server_SendMsg_def split: if_splits)
  then show "sending (ss_pc st) = None" by (cases "ss_pc st") simp_all
qed

lemma server_end_send:
  assumes "server_end inp s lg" and "server_stream_send (\<lambda>x. x) b r i s = Some (e, s')"
  shows "server_end inp s' (log_marshalled i b lg)"
proof -
  obtain st st' fs where st: "sv_heap s i = Some st" "server_SendMsg (\<lambda>x. x) b r st = Some (e, st', fs)"
    "s' = (put_server i st' s)\<lparr>sv_sent := sv_sent s @ map (s2c i) (if r = None then fs else [])\<rparr>"
    using assms(2) by (auto simp: server_stream_send_def split: option.splits)
  note sd = server_SendMsg_still [OF st(2)]
  have w: "server_writes i (sv_sent s) st lg" "server_reads i inp (i \<in> sv_streams s) st lg"
    using server_end_at [OF assms(1) st(1)] by simp_all
  have "data_down i (map (s2c i) (if r = None then fs else [])) = []"
    by (rule data_down_quiet) (use sd(4) in \<open>auto split: if_splits\<close>)
  then have "server_writes i (sv_sent s @ map (s2c i) (if r = None then fs else [])) st' (log_marshalled i b lg)"
    using w(1) sd(3,5)
    by (auto simp: server_writes_def intro: writer_ok_idle) (auto simp: log_begins_def intro: writer_ok_begin)
  moreover have "server_reads i inp (i \<in> sv_streams s) st' (log_marshalled i b lg)" using w(2) sd(1,2) by (simp add: server_reads_def)
  ultimately show ?thesis unfolding st(3) by (intro server_end_put [OF assms(1) st(1)]) simp_all
qed

lemma server_end_send_do:
  assumes "server_end inp s lg" and "server_stream_send_do a i s = Some s'"
  shows "server_end inp s' (server_log (SSend i a) s s' lg)"
proof -
  obtain st st' fs where st: "sv_heap s i = Some st" "send_own a" "server_send_do a st = Some (st', fs)"
    "s' = (put_server i st' s)\<lparr>sv_sent := sv_sent s @ map (s2c i) fs\<rparr>"
    using assms(2) by (auto simp: server_stream_send_do_def split: option.splits if_splits)
  let ?y = "(sys_init (ss_sender st))\<lparr>sys_pc := ss_pc st, sys_size := ss_sendSize st, sys_ctx := ss_ctx st\<rparr>"
  obtain z where z: "sys_do a ?y = Some z" "st' = st\<lparr>ss_sender := sys_sender z, ss_pc := sys_pc z\<rparr>"
      "fs = map (\<lambda>(d, n, b). server_sendFunc d n b) (sys_out z)"
    using st(3) by (auto simp: server_send_do_def simp del: sys_do.simps split: option.splits)
  let ?done = "a = SendFunc None \<and> sys_pc z = Returned None"
  have lg: "server_log (SSend i a) s s' lg = (if ?done then log_sends i lg else lg)"
    by (cases "(SSend i a, s, s', lg)" rule: server_log.cases) (simp_all add: st(4) z(2) put_server_def)
  have w: "server_writes i (sv_sent s) st lg" "server_reads i inp (i \<in> sv_streams s) st lg"
    using server_end_at [OF assms(1) st(1)] by simp_all
  have "writer_ok (client_switch []) (data_down i (sv_sent s)) (sys_pc ?y) (sys_size ?y) (lg_cur lg i) (lg_sent lg i)"
    using w(1) by (simp add: server_writes_def)
  from responses.writer_step [OF z(1) st(2) _ this]
  have "server_writes i (sv_sent s @ map (s2c i) fs) st' (server_log (SSend i a) s s' lg)"
    unfolding lg by (auto simp: server_writes_def z(2,3) data_chunks sys_init_def log_sends_def simp del: map_map split: if_splits)
  moreover have "server_reads i inp (i \<in> sv_streams s) st' (server_log (SSend i a) s s' lg)"
    using w(2) unfolding lg by (simp add: server_reads_def z(2) log_sends_def)
  ultimately show ?thesis unfolding st(4) using server_end_put [OF assms(1) st(1)] lg st(4) by simp
qed

text \<open>Reading.\<close>

definition log_read :: "i64 \<Rightarrow> srv_res \<Rightarrow> srv_phase rpc_log \<Rightarrow> srv_phase rpc_log" where
  "log_read i res lg = (case res of SrvBlock ph \<Rightarrow> log_waits i (Some ph) lg | SrvRet (d, k, None) \<Rightarrow> log_gets i d lg
     | SrvRet (d, k, Some e) \<Rightarrow> log_waits i None lg)"

lemma log_read_fields [simp]:
  "lg_cur (log_read i res lg) = lg_cur lg" "lg_sent (log_read i res lg) = lg_sent lg" "log_only i lg (log_read i res lg)"
  by (simp_all add: log_read_def log_waits_def log_gets_def log_only_def split: srv_res.splits option.splits)

lemma server_readMsg_cancelled:
  assumes "server_readMsg ph st = (res, st', us)"
  shows "rcv_cancelled (ss_receiver st') = rcv_cancelled (ss_receiver st)"
proof -
  have second: "rcv_cancelled (ss_receiver st') = rcv_cancelled (ss_receiver st)"
    if "server_readSecond d e st = (res, st', us)" for d e st res st' us
    using that by (auto simp: server_readSecond_def Let_def dest!: server_locked_cancelled split: prod.splits read_res.splits option.splits if_splits)
  have "rcv_cancelled (ss_receiver st') = rcv_cancelled (ss_receiver st)" if "server_readFirst e st = (res, st', us)" for e
    using that by (auto simp: server_readFirst_def dest!: server_locked_cancelled second split: prod.splits read_res.splits if_splits)
  then show ?thesis using assms second by (auto simp: server_readMsg_def split: option.splits srv_phase.splits)
qed

lemma server_readMsg_flags:
  assumes "server_readMsg ph st = (res, st', us)" and "server_stream_ok W st"
  shows "rcv_closed (ss_receiver st') = rcv_closed (ss_receiver st)" "rcv_cancelled (ss_receiver st') = rcv_cancelled (ss_receiver st)"
    "ss_pc st' = ss_pc st" "ss_sendSize st' = ss_sendSize st"
proof -
  have rd: "server_reads_from st st'" by (rule server_readMsg_reads [OF assms(1)])
  then have ok: "server_stream_ok W st'" using assms(2) by (simp add: server_reads_from_def)
  show "rcv_closed (ss_receiver st') = rcv_closed (ss_receiver st)"
    using ok assms(2) server_reads_from_fields(3) [OF rd] by (simp add: server_stream_ok_def)
  show "ss_pc st' = ss_pc st" "ss_sendSize st' = ss_sendSize st"
    using rd by (cases st; cases st'; simp add: server_reads_from_def)+
qed (rule server_readMsg_cancelled [OF assms(1)])

lemma server_reads_readMsg:
  assumes "server_reads i inp on st lg" and "server_readMsg (lg_at lg i) st = (res, st', us)" and "server_stream_ok W st"
  shows "server_reads i inp on st' (log_read i res lg)"
proof (cases "rcv_cancelled (ss_receiver st)")
  case True
  have ctx: "ss_ctx st \<noteq> None" using assms(3) True by (auto simp: server_stream_ok_def)
  obtain ret where ret: "res = SrvRet ret" "snd (snd ret) = None \<longrightarrow>
      (\<exists>k b. lg_at lg i = Some (SrvFirst k b) \<and> fst ret = [] \<or> lg_at lg i = Some (SrvSecond (fst ret) k b))"
    using server_msg_ended [OF assms(2) True ctx] that by (elim exE conjE)
  have "genuine (fst (parse server_switch (data_up i inp))) True (lg_got lg i) (lg_at lg i)"
    using assms(1) True by (simp add: server_reads_def)
  then have "genuine (fst (parse server_switch (data_up i inp))) True (lg_got (log_read i res lg) i) (lg_at (log_read i res lg) i)"
    using ret
    by (cases ret) (auto simp: genuine_def log_read_def log_waits_def log_gets_def dest: append_prefixD split: option.splits)
  then show ?thesis using True server_readMsg_flags(2) [OF assms(2,3)] by (simp add: server_reads_def)
next
  case False
  note fl = server_readMsg_flags [OF assms(2,3)]
  have rs: "server_read (data_up i inp) (on \<and> \<not> rcv_closed (ss_receiver st)) st' (lg_got lg i) res"
    by (rule server_msg_read [OF assms(2,3) False]) (use assms(1) False in \<open>auto simp: server_reads_def\<close>)
  then have "reader_ok server_switch (data_up i inp) (on \<and> \<not> rcv_closed (ss_receiver st')) (rcv_items (ss_receiver st')) (ss_readErr st')
        (lg_got (log_read i res lg) i) (server_at (lg_at (log_read i res lg) i))
      \<and> (lg_at (log_read i res lg) i \<noteq> None \<longrightarrow> ss_readErr st' = None)"
    unfolding fl(1) by (auto simp: server_read_def log_read_def log_waits_def log_gets_def split: srv_res.splits option.splits)
  then show ?thesis by (auto simp: server_reads_def intro: genuine_reader)
qed

lemma server_end_RecvMsg:
  assumes "server_end inp s lg" and "server_stream_RecvMsg ph i s = Some (x, s')" and "srv_inv s" and "ph = lg_at lg i"
  shows "server_end inp s' (server_log (SRecvMsg i ph) s s' lg)"
proof -
  obtain st where st: "sv_heap s i = Some st"
    using assms(2) by (auto simp: server_stream_RecvMsg_def split: option.splits)
  obtain res st' us where rd: "server_readMsg ph st = (res, st', us)" by (metis prod_cases3)
  let ?s1 = "(put_server i st' s)\<lparr>sv_sent := sv_sent s @ map (s2c i) (server_sendUpdates us st)\<rparr>"
  have w: "server_writes i (sv_sent s) st lg" "server_reads i inp (i \<in> sv_streams s) st lg"
    using server_end_at [OF assms(1) st] by simp_all
  have ok: "server_stream_ok (srv_window s) st" using assms(3) st by (simp add: srv_inv_def srv_streams_ok_def)
  note fl = server_readMsg_flags [OF rd ok]
  have lg: "server_log (SRecvMsg i ph) s s' lg = log_read i res lg"
    using st rd by (simp add: server_stream_RecvMsg_def log_read_def Let_def split: srv_res.splits option.splits)
  have "data_down i (map (s2c i) (server_sendUpdates us st)) = []" by (simp add: server_sendUpdates_def del: map_map)
  then have s1: "server_end inp ?s1 (log_read i res lg)"
    using w(1) fl(3,4) server_reads_readMsg [OF w(2) rd [unfolded assms(4)] ok]
    by (intro server_end_put [OF assms(1) st]) (simp_all add: server_writes_def)
  have "server_still ?s1 s'"
    using assms(2) st rd
    by (auto simp: server_stream_RecvMsg_def server_still_finish_begin Let_def split: srv_res.splits option.splits if_splits)
  then show ?thesis unfolding lg using server_end_still [OF s1] by simp
qed

subsection \<open>Frames that arrive\<close>

lemma server_reads_accept:
  assumes "server_reads i inp True st lg" and "accept server_measure f (ss_receiver st) = (None, r)" and "up_data (Some f) = [f]"
  shows "server_reads i (inp @ [c2s i f]) True (st\<lparr>ss_receiver := r\<rparr>) lg"
proof -
  have fl: "rcv_cancelled r = rcv_cancelled (ss_receiver st)" "rcv_closed r = rcv_closed (ss_receiver st)"
    using assms(2) accept_flags [of server_measure f "ss_receiver st"] by simp_all
  have "genuine (fst (parse server_switch (data_up i (inp @ [c2s i f])))) (rcv_cancelled r) (lg_got lg i) (lg_at lg i)"
    using assms(1,3) fl(1) parse_prefix [of "data_up i inp" "data_up i (inp @ [c2s i f])" server_switch]
    by (auto simp: server_reads_def intro: genuine_more)
  moreover have "reader_ok server_switch (data_up i inp @ [f]) (\<not> rcv_closed r) (rcv_items r) (ss_readErr st) (lg_got lg i) (server_at (lg_at lg i))"
    if "\<not> rcv_cancelled r"
  proof -
    have rd: "reader_ok server_switch (data_up i inp) (\<not> rcv_closed r) (rcv_items (ss_receiver st)) (ss_readErr st) (lg_got lg i)
        (server_at (lg_at lg i))"
      using assms(1) that fl by (simp add: server_reads_def)
    show ?thesis
    proof (cases rule: accept_cases [where r = "ss_receiver st" and m = server_measure and x = f])
      case closed
      then show ?thesis using assms(2) reader_ok_more [OF rd, of "[f]"] fl by simp
    next
      case queued
      then show ?thesis using assms(2) rd fl by (auto intro: reader_ok_queue)
    qed (use assms(2) in simp)
  qed
  ultimately show ?thesis using assms(1,3) fl by (simp add: server_reads_def)
qed

lemma put_server_same [simp]: "sv_heap s i = Some st \<Longrightarrow> put_server i st s = s"
  by (simp add: put_server_def fun_upd_idem)

lemma loop_finish_streams: "sv_heap s i \<noteq> None \<Longrightarrow> sv_streams (loop_finish e i s) = sv_streams s - {i}"
  by (auto simp: loop_finish_def srv_finish_begin_def server_removeStream_def put_server_def)

lemma server_end_accept_data:
  assumes "server_end inp s lg" and "i \<in> sv_streams s" and "sv_heap s i = Some st" and "up_data (Some f) = [f]"
  shows "server_end (inp @ [c2s i f]) (server_accept_data f i st s) lg"
proof -
  obtain e r where acc: "accept server_measure f (ss_receiver st) = (e, r)" by fastforce
  let ?st = "st\<lparr>ss_receiver := r\<rparr>"
  have w: "server_writes i (sv_sent s) st lg" "server_reads i inp True st lg" using server_end_at [OF assms(1,3)] assms(2) by simp_all
  show ?thesis
  proof (cases e)
    case None
    have "server_end (inp @ [c2s i f]) (put_server i ?st s) lg"
      using server_reads_accept [OF w(2) acc [unfolded None] assms(4)] w(1) assms(2)
      by (intro server_end_put_only [OF assms(1,3)]) (simp_all add: server_writes_def)
    then show ?thesis using acc None by (simp add: server_accept_data_def)
  next
    case (Some x)
    then have "r = ss_receiver st" using acc by (cases rule: accept_cases [where r = "ss_receiver st" and m = server_measure and x = f]) auto
    then have s': "server_accept_data f i st s = loop_finish e i s" using acc Some assms(3) by (simp add: server_accept_data_def)
    show ?thesis
      unfolding s' using loop_finish_streams [of s i e] assms(3)
      by (intro server_end_still [OF assms(1) server_still_loop_finish]) (auto simp: prefix_def)
  qed
qed

lemma server_end_acceptClientFrame:
  assumes "server_end inp s lg" and "i \<in> sv_streams s" and "srv_inv s" and "\<not> is_new f"
  shows "server_end (inp @ [\<lparr>C2S_StreamId = i, C2S_Frame = f\<rparr>]) (acceptClientFrame f i s) lg"
proof -
  obtain st where st: "sv_heap s i = Some st" using assms(2,3) by (auto simp: srv_inv_def srv_streams_ok_def)
  show ?thesis
  proof (cases "up_data f = []")
    case True
    have "server_still s (acceptClientFrame f i s)"
      using True assms(4) server_still_put [OF st] halfClose_still server_still_loop_finish
      by (auto simp: acceptClientFrame_def st ss_still_def split: option.splits ClientToServerFrame.splits)
    from server_end_still [OF assms(1) this] show ?thesis using True by (auto simp: prefix_def)
  next
    case False
    then obtain g where g: "f = Some g" "up_data (Some g) = [g]" by (cases f rule: up_data.cases) simp_all
    then have "acceptClientFrame f i s = server_accept_data g i st s" by (cases g) (simp_all add: acceptClientFrame_def st)
    then show ?thesis using server_end_accept_data [OF assms(1,2) st g(2)] g(1) by simp
  qed
qed

lemma server_end_create:
  assumes "server_end inp s lg" and "srv_inv s" and "data_up i inp = []"
  shows "server_end inp (snd (createStream L svcs closing i f s)) lg"
proof (cases "i \<in> sv_streams s \<or> i \<le> sv_lastSeen s")
  case True
  then show ?thesis using assms(1) by (auto simp: createStream_def)
next
  case False
  then have none: "sv_heap s i = None"
    using assms(2) by (cases "sv_heap s i") (auto simp: srv_inv_def srv_streams_ok_def)
  have blank: "data_down i (sv_sent s) = []" "lg_sent lg i = []" "lg_got lg i = []" "lg_at lg i = None"
    using assms(1) none by (simp_all add: server_end_def)
  have fresh: "server_writes i (sv_sent s) (newServerStream x dl i m md sd (newReceiver w u v)) lg"
      "server_reads i inp on (newServerStream x dl i m md sd (newReceiver w u v)) lg" for on x dl m md sd w u v
    using blank assms(3)
    by (simp_all add: server_writes_def server_reads_def newServerStream_def writer_ok_start reader_ok_start genuine_def)
  have "server_end inp (s\<lparr>sv_lastSeen := i\<rparr>) lg" using assms(1) by (simp add: server_end_def)
  moreover have "server_end inp (s\<lparr>sv_lastSeen := i, sv_heap := (sv_heap s)(i \<mapsto> newServerStream x dl i m md sd (newReceiver w u v)),
      sv_streams := insert i (sv_streams s), sv_serving := sg\<rparr>) lg" for x dl m md sd w u v sg
    using assms(1) none unfolding server_end_def by (auto simp: fresh split: if_splits)
  ultimately show ?thesis
    using False by (auto simp: createStream_def Let_def split: sum.splits)
qed

lemma server_end_recv:
  assumes "server_end inp s lg" and "srv_inv s" and "serve_step L svcs closing (Inr m) s = Some s'"
    and "is_new (C2S_Frame m) \<Longrightarrow> data_up (C2S_StreamId m) inp = []"
  shows "server_end (inp @ [m]) s' lg"
proof (cases "is_new (C2S_Frame m)")
  case True
  then obtain f where f: "C2S_Frame m = Some (ClientToServer_NewStream f)" by (cases "C2S_Frame m" rule: is_new.cases) simp_all
  let ?s = "snd (createStream L svcs closing (C2S_StreamId m) f s)"
  have s1: "server_end inp ?s lg" by (rule server_end_create [OF assms(1,2) assms(4) [OF True]])
  have "server_still ?s s'"
    using assms(3) f
    by (auto simp: serve_step_def serve_return_eq server_still_all_ctx intro!: server_still_jobs split: if_splits prod.splits option.splits)
  then show ?thesis by (rule server_end_still [OF s1]) (simp_all add: f)
next
  case False
  have other: "server_end (inp @ [m]) s1 lg" if "server_still s s1" "\<And>i. i \<in> sv_streams s1 \<Longrightarrow> data_up i [m] = []" for s1
    by (rule server_end_still [OF assms(1) that(1)]) (use that(2) in \<open>auto simp: prefix_def\<close>)
  have "server_end (inp @ [m]) (acceptClientFrame (C2S_Frame m) (C2S_StreamId m) s) lg" if "C2S_StreamId m \<in> sv_streams s"
    using server_end_acceptClientFrame [OF assms(1) that assms(2) False] by (cases m) simp
  moreover have "server_end (inp @ [m]) s lg" if "C2S_StreamId m \<notin> sv_streams s"
    by (rule other) (use that in auto)
  moreover have "server_end (inp @ [m]) (serve_return e s) lg" if "C2S_StreamId m \<notin> sv_streams s" for e
  proof (rule other)
    show "server_still s (serve_return e s)" by (simp add: serve_return_eq server_still_all_ctx)
  qed (use that in \<open>auto simp: serve_return_def\<close>)
  ultimately show ?thesis
    using assms(3) False by (auto simp: serve_step_def server_getStream_def split: if_splits option.splits ClientToServerFrame.splits)
qed

subsection \<open>All steps of the server\<close>

lemma server_end_job:
  assumes "server_end inp s lg" and "server_run_job k r s = Some s'"
  shows "server_end inp s' lg"
proof -
  obtain f fs where k: "k < length (sv_jobs s)" "sv_jobs s ! k = f # fs"
    "s' = s\<lparr>sv_jobs := (sv_jobs s)[k := fs], sv_sent := sv_sent s @ (if r = None then [f] else [])\<rparr>"
    using assms(2) by (auto simp: server_run_job_def split: if_splits list.splits)
  note up = concat_update_Cons [OF k(1,2)]
  have "down_data (S2C_Frame f) = []" using assms(1) up unfolding server_end_def by blast
  then have "server_still s s'" using up by (auto simp: server_still_def k(3) simp del: set_concat)
  then show ?thesis using server_end_still [OF assms(1)] by simp
qed

lemma server_still_quiet:
  "serve_resume L s = Some s' \<Longrightarrow> server_still s s'" "recv_finish L s = Some s' \<Longrightarrow> server_still s s'"
  "serve_finish L i s = Some s' \<Longrightarrow> server_still s s'" "serve_sent i s = Some s' \<Longrightarrow> server_still s s'"
  by (auto simp: serve_resume_def recv_finish_def serve_finish_def serve_sent_def server_still_defer
      intro: server_still_finish_locked split: srv_loop.splits list.splits option.splits serve_pc.splits send_pc.splits)

lemma server_still_stream:
  "server_stream_setTrailer L md i s = Some (e, s') \<Longrightarrow> server_still s s'"
  "server_ctx_ends i s = Some s' \<Longrightarrow> server_still s s'"
  "server_watch i s = Some s' \<Longrightarrow> server_still s s'"
  by (auto simp: server_stream_setTrailer_def server_ctx_ends_def server_watch_def setTrailer_def server_ctx_watch_def ss_still_def
      intro!: server_still_put split: option.splits if_splits)

lemma server_still_setHeader:
  assumes "server_stream_setHeader L md b r i s = Some (e, s')"
  shows "server_still s s'"
proof -
  obtain st st' fs where x: "sv_heap s i = Some st" "setHeader L md b r st = Some (e, st', fs)"
    "s' = (put_server i st' s)\<lparr>sv_sent := sv_sent s @ map (s2c i) (if r = None then fs else [])\<rparr>"
    using assms by (auto simp: server_stream_setHeader_def split: option.splits)
  show ?thesis
    unfolding x(3) using x(2)
    by (intro server_still_put_sent [OF x(1)])
       (auto simp: setHeader_def sendHeadersLocked_def ss_still_def Let_def split: if_splits)
qed

lemma server_end_end:
  assumes "server_end inp s lg" and "serve_end (\<lambda>x. x) h r i s = Some s'"
  shows "server_end inp s' (server_log (SHandlerEnd i h r) s s' lg)"
proof (cases "\<exists>b. h = HResp b")
  case True
  then obtain b where h: "h = HResp b" by blast
  then obtain e s1 where s1: "server_stream_send (\<lambda>x. x) b r i s = Some (e, s1)"
      "s' = serve_defer e i s1 \<or> s' = s1\<lparr>sv_serving := (sv_serving s1)(i \<mapsto> ServeSending)\<rparr>"
    using assms(2) by (auto simp: serve_end_def split: option.splits serve_pc.splits method_desc.splits)
  have "server_still s1 s'" using s1(2) server_still_defer by auto
  then show ?thesis using server_end_still [OF server_end_send [OF assms(1) s1(1)]] h by simp
next
  case False
  then have "server_still s s'"
    using assms(2) by (auto simp: serve_end_def server_still_defer split: option.splits serve_pc.splits handler_end.splits method_desc.splits)
  then show ?thesis
    using False server_end_still [OF assms(1)] by (cases h) simp_all
qed

lemma server_end_own:
  assumes "server_end inp s lg" and "srv_inv s" and "srv_do L svcs a s = Some s'" and "server_own a"
    and "\<And>i ph. a = SRecvMsg i ph \<Longrightarrow> ph = lg_at lg i"
  shows "server_end inp s' (server_log a s s' lg)"
proof -
  have still: "server_end inp s' lg" if "server_still s s'" using server_end_still [OF assms(1) that] by simp
  show ?thesis
  proof (cases a)
    case (SRecv closing x)
    then obtain e where "s' = serve_return e s"
      using assms(3,4) by (cases x) (auto simp: serve_step_def split: if_splits)
    then have "server_still s s'" by (simp add: serve_return_eq server_still_all_ctx)
    then show ?thesis using still SRecv by simp
  next
    case (SRecvMsg i ph)
    then show ?thesis using assms(3) server_end_RecvMsg [OF assms(1) _ assms(2)] assms(5) by fastforce
  next
    case (SSendMsg i b r)
    then show ?thesis using assms(3) server_end_send [OF assms(1)] by auto
  next
    case (SSend i b)
    then show ?thesis using assms(3) server_end_send_do [OF assms(1)] by auto
  next
    case (SHandlerEnd i h r)
    then show ?thesis using assms(3) server_end_end [OF assms(1)] by auto
  next
    case (STunnelCtx e)
    then show ?thesis using assms(3) still server_still_all_ctx by auto
  qed (use assms(3) still server_end_job [OF assms(1)] server_still_quiet server_still_stream server_still_setHeader in auto)
qed

end
