(* ===== verification/Tunnel_Delivery.thy ===== *)
theory Tunnel_Delivery
  imports Delivery_Server
begin

text \<open>
  Messages across a whole tunnel. \<open>logged_do\<close> is a step of \<open>Tunnel_System\<close> that also writes the logs of both ends; a call of \<^verbatim>\<open>RecvMsg\<close>
  that waits is resumed where it waits, as a mutex admits one call per stream. In every state that can be reached, what one end has read is
  what the other end has sent, in order and without gaps.
\<close>

record tunnel_log =
  tl_sys :: tunnel_sys
  tl_client :: "read_phase rpc_log"
  tl_server :: "srv_phase rpc_log"

definition logged_start :: "tunnelChannel \<Rightarrow> tunnelServer \<Rightarrow> tunnel_log" where
  "logged_start c s = \<lparr>tl_sys = ts_start c s, tl_client = log_empty, tl_server = log_empty\<rparr>"

fun resumes :: "ts_act \<Rightarrow> tunnel_log \<Rightarrow> bool" where
  "resumes (TClient (ActRecvMsg i ph)) x = (ph = lg_at (tl_client x) i)"
| "resumes (TServer (SRecvMsg i ph)) x = (ph = lg_at (tl_server x) i)"
| "resumes _ x = True"

fun log_step :: "ts_act \<Rightarrow> tunnel_sys \<Rightarrow> tunnel_log \<Rightarrow> tunnel_log" where
  "log_step (TClient a) z x = x\<lparr>tl_sys := z, tl_client := client_log a (ts_client (tl_sys x)) (ts_client z) (tl_client x)\<rparr>"
| "log_step (TServer a) z x = x\<lparr>tl_sys := z, tl_server := server_log a (ts_server (tl_sys x)) (ts_server z) (tl_server x)\<rparr>"
| "log_step _ z x = x\<lparr>tl_sys := z\<rparr>"

definition logged_do :: "grpc_lib \<Rightarrow> (string \<rightharpoonup> ServiceDesc) \<Rightarrow> ts_act \<Rightarrow> tunnel_log \<Rightarrow> tunnel_log option" where
  "logged_do L svcs a x = (if resumes a x then map_option (\<lambda>z. log_step a z x) (ts_do L svcs a (tl_sys x)) else None)"

inductive logged_reach :: "grpc_lib \<Rightarrow> (string \<rightharpoonup> ServiceDesc) \<Rightarrow> tunnel_log \<Rightarrow> tunnel_log \<Rightarrow> bool" for L svcs x0 where
  logged_begin: "logged_reach L svcs x0 x0"
| logged_step: "logged_reach L svcs x0 x \<Longrightarrow> logged_do L svcs a x = Some y \<Longrightarrow> logged_reach L svcs x0 y"

lemma log_step_sys [simp]: "tl_sys (log_step a z x) = z"
  by (cases a) simp_all

text \<open>The logs only watch.\<close>

lemma logged_reach_ts: "logged_reach L svcs (logged_start c s) x \<Longrightarrow> ts_reach L svcs (ts_start c s) (tl_sys x)"
  by (induction rule: logged_reach.induct)
     (auto simp: logged_start_def logged_do_def intro: ts_reach.ts_begin ts_reach.ts_step split: if_splits)

subsection \<open>The invariant\<close>

definition up_seen :: "tunnel_sys \<Rightarrow> ClientToServer list" where
  "up_seen y = take (ts_up y) (ch_sent (ts_client y))"

definition down_seen :: "tunnel_sys \<Rightarrow> ServerToClient list" where
  "down_seen y = take (ts_down y) (sv_sent (ts_server y))"

definition delivers :: "tunnel_log \<Rightarrow> bool" where
  "delivers x \<longleftrightarrow> client_end (down_seen (tl_sys x)) (ts_client (tl_sys x)) (tl_client x)
     \<and> server_end (up_seen (tl_sys x)) (ts_server (tl_sys x)) (tl_server x)"

lemma wire_ok_announced:
  assumes "wire_ok fs" and "m \<in> set fs"
  shows "C2S_StreamId m \<in> announced fs"
proof -
  obtain k where k: "k < length fs" "m = fs ! k" using assms(2) by (auto simp: in_set_conv_nth)
  then have "frame_ok (take k fs) m" using assms(1) by (simp add: wire_ok_def)
  then show ?thesis
    using assms(2) announced_take [of k fs] by (auto simp: frame_ok_def announced_def split: if_splits)
qed

text \<open>A stream that is yet to be announced has no data.\<close>

lemma down_fresh:
  assumes "ts_inv y" and "ch_lastStreamID (ts_client y) < i"
  shows "data_down i (down_seen y) = []"
proof (rule data_none(2))
  fix m assume m: "m \<in> set (down_seen y)" "S2C_StreamId m = i"
  let ?A = "announced (take (ts_up y) (ch_sent (ts_client y)))"
  have "m = settings_frame (sv_tunnelOpts (ts_server y)) \<or> S2C_StreamId m \<in> ?A"
    using assms(1) in_set_takeD [OF m(1) [unfolded down_seen_def]] by (auto simp: ts_inv_def srv_wire_def)
  moreover have "\<forall>j\<in>?A. j \<le> ch_lastStreamID (ts_client y)"
    using assms(1) announced_take by (fastforce simp: ts_inv_def client_wire_def)
  ultimately show "down_data (S2C_Frame m) = []" using m(2) assms(2) by (auto simp: settings_frame_def)
qed

lemma up_fresh:
  assumes "ts_inv y" and "ts_up y < length (ch_sent (ts_client y))" and "is_new (C2S_Frame (ch_sent (ts_client y) ! ts_up y))"
  shows "data_up (C2S_StreamId (ch_sent (ts_client y) ! ts_up y)) (up_seen y) = []"
proof -
  let ?fs = "ch_sent (ts_client y)"
  have wire: "wire_ok ?fs" using assms(1) by (simp add: ts_inv_def client_wire_def)
  then have "frame_ok (take (ts_up y) ?fs) (?fs ! ts_up y)" using assms(2) by (simp add: wire_ok_def)
  then have "C2S_StreamId (?fs ! ts_up y) \<notin> announced (take (ts_up y) ?fs)" using assms(3) by (auto simp: frame_ok_def)
  moreover have "wire_ok (take (ts_up y) ?fs)" using wire by (simp add: wire_ok_def min_def)
  ultimately show ?thesis
    using wire_ok_announced by (intro data_none(1)) (fastforce simp: up_seen_def)
qed

lemma delivers_client:
  assumes "delivers x" and "ts_inv (tl_sys x)" and "resumes (TClient a) x" and "client_own a (ts_client (tl_sys x))"
    and "chan_do L a (ts_client (tl_sys x)) = Some c" and "0 \<le> ch_lastStreamID c"
  shows "delivers (log_step (TClient a) ((tl_sys x)\<lparr>ts_client := c\<rparr>) x)"
proof -
  let ?y = "tl_sys x"
  have inv: "chan_inv (ts_client ?y)" "ts_up ?y \<le> length (ch_sent (ts_client ?y))" using assms(2) by (simp_all add: ts_inv_def)
  obtain new where new: "ch_sent c = ch_sent (ts_client ?y) @ new" using chan_do_sent [OF assms(5)] assms(4) by blast
  have "client_end (down_seen ?y) c (client_log a (ts_client ?y) c (tl_client x))"
    by (rule client_end_own [OF _ inv(1) assms(5,6) down_fresh [OF assms(2)]])
       (use assms(1,3,4) in \<open>auto simp: delivers_def\<close>)
  then show ?thesis using assms(1) inv(2) new by (simp add: delivers_def down_seen_def up_seen_def)
qed

lemma delivers_server:
  assumes "delivers x" and "ts_inv (tl_sys x)" and "resumes (TServer a) x" and "server_own a"
    and "srv_do L svcs a (ts_server (tl_sys x)) = Some s"
  shows "delivers (log_step (TServer a) ((tl_sys x)\<lparr>ts_server := s\<rparr>) x)"
proof -
  let ?y = "tl_sys x"
  have inv: "srv_inv (ts_server ?y)" "ts_down ?y \<le> length (sv_sent (ts_server ?y))" using assms(2) by (simp_all add: ts_inv_def)
  obtain new where new: "sv_sent s = sv_sent (ts_server ?y) @ new" using srv_do_sent [OF assms(5)] by blast
  have "server_end (up_seen ?y) s (server_log a (ts_server ?y) s (tl_server x))"
    by (rule server_end_own [OF _ inv(1) assms(5,4)]) (use assms(1,3) in \<open>auto simp: delivers_def\<close>)
  then show ?thesis using assms(1) inv(2) new by (simp add: delivers_def down_seen_def up_seen_def)
qed

lemma delivers_up:
  assumes "delivers x" and "ts_inv (tl_sys x)" and "ts_up (tl_sys x) < length (ch_sent (ts_client (tl_sys x)))"
    and "serve_step L svcs closing (Inr (ch_sent (ts_client (tl_sys x)) ! ts_up (tl_sys x))) (ts_server (tl_sys x)) = Some s"
  shows "delivers (x\<lparr>tl_sys := (tl_sys x)\<lparr>ts_server := s, ts_up := Suc (ts_up (tl_sys x))\<rparr>\<rparr>)"
proof -
  let ?y = "tl_sys x"
  have inv: "srv_inv (ts_server ?y)" "ts_down ?y \<le> length (sv_sent (ts_server ?y))" using assms(2) by (simp_all add: ts_inv_def)
  have "\<exists>new. sv_sent s = sv_sent (ts_server ?y) @ new" using srv_do_sent [of L svcs "SRecv closing _" _ s] assms(4) by simp
  moreover have "server_end (up_seen ?y @ [ch_sent (ts_client ?y) ! ts_up ?y]) s (tl_server x)"
    by (rule server_end_recv [OF _ inv(1) assms(4) up_fresh [OF assms(2,3)]]) (use assms(1) in \<open>simp add: delivers_def\<close>)
  ultimately show ?thesis
    using assms(1,3) inv(2) by (auto simp: delivers_def down_seen_def up_seen_def take_Suc_conv_app_nth)
qed

lemma delivers_down:
  assumes "delivers x" and "ts_inv (tl_sys x)" and "ts_down (tl_sys x) < length (sv_sent (ts_server (tl_sys x)))"
    and "recvLoop L (Inr (sv_sent (ts_server (tl_sys x)) ! ts_down (tl_sys x))) (ts_client (tl_sys x)) = Some c"
  shows "delivers (x\<lparr>tl_sys := (tl_sys x)\<lparr>ts_client := c, ts_down := Suc (ts_down (tl_sys x))\<rparr>\<rparr>)"
proof -
  let ?y = "tl_sys x"
  have "client_end (down_seen ?y @ [sv_sent (ts_server ?y) ! ts_down ?y]) c (tl_client x)"
    by (rule client_end_recv [OF _ _ assms(4)]) (use assms(1,2) in \<open>simp_all add: delivers_def ts_inv_def\<close>)
  moreover have "ch_sent c = ch_sent (ts_client ?y)" using wire_view_recvLoop [OF assms(4)] by (simp add: wire_view_def)
  ultimately show ?thesis
    using assms(1,3) by (simp add: delivers_def down_seen_def up_seen_def take_Suc_conv_app_nth)
qed

lemma delivers_do:
  assumes "delivers x" and "ts_inv (tl_sys x)" and "logged_do L svcs a x = Some z" and "0 \<le> ch_lastStreamID (ts_client (tl_sys z))"
  shows "delivers z"
  using assms
  by (cases a) (auto simp: logged_do_def simp del: log_step.simps(1,2) split: if_splits
      intro: delivers_client delivers_server delivers_up delivers_down)

lemma delivers_start:
  "delivers (logged_start (newTunnelChannel x pr md True r opts mem) (serveTunnel sx True r' sopts))"
  by (simp add: delivers_def logged_start_def ts_start_def client_end_def server_end_def newTunnelChannel_def serveTunnel_def
      log_empty_def settings_frame_def)

lemma delivers_reach:
  assumes "logged_reach L svcs x0 x" and "x0 = logged_start (newTunnelChannel cx pr md True r opts mem) (serveTunnel sx True r' sopts)"
    and "opts_wf opts" and "opts_wf sopts" and "0 \<le> ch_lastStreamID (ts_client (tl_sys x))"
  shows "delivers x \<and> ts_inv (tl_sys x)"
  using assms(1,5)
proof (induction rule: logged_reach.induct)
  case logged_begin
  then show ?case using ts_inv_start [OF assms(3,4)] by (simp add: assms(2) delivers_start) (simp add: logged_start_def)
next
  case (logged_step x a z)
  then have do: "ts_do L svcs a (tl_sys x) = Some (tl_sys z)" by (auto simp: logged_do_def split: if_splits)
  then have "delivers x" "ts_inv (tl_sys x)" using logged_step ts_do_last by blast+
  then show ?case using delivers_do [OF _ _ logged_step(2,4)] ts_inv_do [OF _ do logged_step(4)] by blast
qed

subsection \<open>What is read was sent\<close>

lemma requests_written:
  assumes "delivers x"
  shows "prefix (fst (parse server_switch (data_up i (ch_sent (ts_client (tl_sys x)))))) (lg_sent (tl_client x) i)"
  using assms
  by (cases "ch_heap (ts_client (tl_sys x)) i") (auto simp: delivers_def client_end_def client_writes_def writer_ok_def)

lemma responses_written:
  assumes "delivers x"
  shows "prefix (fst (parse (client_switch []) (data_down i (sv_sent (ts_server (tl_sys x)))))) (lg_sent (tl_server x) i)"
  using assms
  by (cases "sv_heap (ts_server (tl_sys x)) i") (auto simp: delivers_def server_end_def server_writes_def writer_ok_def)

lemma requests_read:
  assumes "delivers x"
  shows "\<exists>ms. prefix ms (lg_sent (tl_client x) i) \<and> (lg_got (tl_server x) i = ms
    \<or> lg_got (tl_server x) i = ms @ [[]] \<and> (\<exists>st. sv_heap (ts_server (tl_sys x)) i = Some st \<and> rcv_cancelled (ss_receiver st)))"
proof (cases "sv_heap (ts_server (tl_sys x)) i")
  case None
  then show ?thesis using assms by (auto simp: delivers_def server_end_def)
next
  case (Some st)
  have "server_end (up_seen (tl_sys x)) (ts_server (tl_sys x)) (tl_server x)" using assms by (simp add: delivers_def)
  from server_end_at [OF this Some] obtain ms where ms: "prefix ms (fst (parse server_switch (data_up i (up_seen (tl_sys x)))))"
      "lg_got (tl_server x) i = ms \<or> lg_got (tl_server x) i = ms @ [[]] \<and> rcv_cancelled (ss_receiver st)"
    by (auto simp: server_reads_def genuine_def dest: append_prefixD)
  have "prefix (up_seen (tl_sys x)) (ch_sent (ts_client (tl_sys x)))" by (simp add: up_seen_def take_is_prefix)
  then have "prefix ms (lg_sent (tl_client x) i)"
    using ms(1) parse_prefix [OF prefix_data(1)] requests_written [OF assms] prefix_order.trans by blast
  then show ?thesis using ms(2) Some by blast
qed

lemma responses_read:
  assumes "delivers x"
  shows "prefix (lg_got (tl_client x) i) (lg_sent (tl_server x) i)"
proof (cases "ch_heap (ts_client (tl_sys x)) i")
  case None
  then show ?thesis using assms by (auto simp: delivers_def client_end_def)
next
  case (Some st)
  have "client_end (down_seen (tl_sys x)) (ts_client (tl_sys x)) (tl_client x)" using assms by (simp add: delivers_def)
  from client_end_at [OF this Some] have "prefix (lg_got (tl_client x) i) (fst (parse (client_switch []) (data_down i (down_seen (tl_sys x)))))"
    by (auto simp: client_reads_def dest!: reader_ok_got append_prefixD)
  moreover have "prefix (down_seen (tl_sys x)) (sv_sent (ts_server (tl_sys x)))" by (simp add: down_seen_def take_is_prefix)
  ultimately show ?thesis
    using parse_prefix [OF prefix_data(2)] responses_written [OF assms] prefix_order.trans by blast
qed

text \<open>
  Nothing is lost: when all frames have arrived and the queue of an open stream is empty, everything that was sent has been read, but for
  a message that a read still holds to see whether it is the only one.
\<close>

lemma reader_ok_all:
  assumes "reader_ok sw inp True [] None got at"
  shows "parse sw inp = (got @ fst at, Reading (fst (snd at)) (snd (snd at)))"
  using assms by (auto simp: reader_ok_def)

lemma writer_ok_all: "writer_ok sw fs pc n cur sent \<Longrightarrow> snd (parse sw fs) \<noteq> Broken \<Longrightarrow> fst (parse sw fs) = sent"
  by (simp add: writer_ok_def)

lemma requests_complete:
  assumes "delivers x" and "ts_up (tl_sys x) = length (ch_sent (ts_client (tl_sys x)))"
    and "sv_heap (ts_server (tl_sys x)) i = Some st" and "i \<in> sv_streams (ts_server (tl_sys x))" and "ss_readErr st = None"
    and "\<not> rcv_closed (ss_receiver st)" and "\<not> rcv_cancelled (ss_receiver st)" and "rcv_items (ss_receiver st) = []"
  shows "lg_got (tl_server x) i @ fst (server_at (lg_at (tl_server x) i)) = lg_sent (tl_client x) i"
proof -
  let ?c = "ts_client (tl_sys x)" and ?at = "server_at (lg_at (tl_server x) i)"
  have e: "server_end (up_seen (tl_sys x)) (ts_server (tl_sys x)) (tl_server x)" "client_end (down_seen (tl_sys x)) ?c (tl_client x)"
    using assms(1) by (simp_all add: delivers_def)
  have "reader_ok server_switch (data_up i (up_seen (tl_sys x))) True [] None (lg_got (tl_server x) i) ?at"
    using server_end_at [OF e(1) assms(3)] assms(4-8) by (simp add: server_reads_def)
  from reader_ok_all [OF this] have p: "fst (parse server_switch (data_up i (ch_sent ?c))) = lg_got (tl_server x) i @ fst ?at"
      "snd (parse server_switch (data_up i (ch_sent ?c))) \<noteq> Broken"
    using assms(2) by (simp_all add: up_seen_def)
  show ?thesis
  proof (cases "ch_heap ?c i")
    case None
    then have "data_up i (ch_sent ?c) = []" "lg_sent (tl_client x) i = []" using e(2) by (simp_all add: client_end_def)
    then show ?thesis using p(1) by simp
  next
    case (Some cst)
    then show ?thesis using client_end_at [OF e(2) Some] writer_ok_all p by (fastforce simp: client_writes_def)
  qed
qed

lemma responses_complete:
  assumes "delivers x" and "ts_down (tl_sys x) = length (sv_sent (ts_server (tl_sys x)))"
    and "ch_heap (ts_client (tl_sys x)) i = Some st" and "i \<in> live_streams (ts_client (tl_sys x))" and "cs_readErr st = None"
    and "\<not> rcv_closed (cs_receiver st)" and "rcv_items (cs_receiver st) = []"
  shows "lg_got (tl_client x) i @ fst (client_at (lg_at (tl_client x) i)) = lg_sent (tl_server x) i"
proof -
  let ?s = "ts_server (tl_sys x)" and ?at = "client_at (lg_at (tl_client x) i)"
  have e: "client_end (down_seen (tl_sys x)) (ts_client (tl_sys x)) (tl_client x)" "server_end (up_seen (tl_sys x)) ?s (tl_server x)"
    using assms(1) by (simp_all add: delivers_def)
  have "reader_ok (client_switch []) (data_down i (down_seen (tl_sys x))) True [] None (lg_got (tl_client x) i) ?at"
    using client_end_at [OF e(1) assms(3)] assms(4-7) by (simp add: client_reads_def)
  from reader_ok_all [OF this] have p: "fst (parse (client_switch []) (data_down i (sv_sent ?s))) = lg_got (tl_client x) i @ fst ?at"
      "snd (parse (client_switch []) (data_down i (sv_sent ?s))) \<noteq> Broken"
    using assms(2) by (simp_all add: down_seen_def)
  show ?thesis
  proof (cases "sv_heap ?s i")
    case None
    then have "data_down i (sv_sent ?s) = []" "lg_sent (tl_server x) i = []" using e(2) by (simp_all add: server_end_def)
    then show ?thesis using p(1) by simp
  next
    case (Some sst)
    then show ?thesis using server_end_at [OF e(2) Some] writer_ok_all p by (fastforce simp: server_writes_def)
  qed
qed

end
