(* ===== verification/Delivery_Ends.thy ===== *)
theory Delivery_Ends
  imports Tunnel_Delivery
begin

text \<open>
  What a clean end means. A client whose \<^verbatim>\<open>RecvMsg\<close> returns \<^verbatim>\<open>io.EOF\<close> has read every message that the handler sent: the server sends the frame that
  closes a stream after all its data, the client's receiver keeps what is queued when that frame arrives, and a read returns EOF only when
  the queue is empty. This needs that handlers do not send once they have returned, and that contexts end with the errors of the
  standard library.
\<close>

subsection \<open>Reading the end of a stream\<close>

lemma client_switch_err: "client_switch peer k b f \<noteq> Inl (d, ok, Some EOF)"
  by (cases f) (auto simp: errClientEnvelope_def errClientTooMuch_def errClientNoEnvelope_def errUnrecognized_def split: if_splits)

definition all_read :: "ServerToClientFrame list \<Rightarrow> bytes list \<Rightarrow> bool" where
  "all_read inp got \<longleftrightarrow> (\<exists>k b. parse (client_switch []) inp = (got, Reading k b))"

lemma client_loop_eof:
  assumes "client_read_loop peer dn k b r = (RdRet (d, ok, Some EOF), r', us)"
  shows "dn = Some EOF \<and> ok
    \<and> (\<not> rcv_cancelled r \<longrightarrow> reader_ok (client_switch []) inp True (rcv_items r) None got (xs, k, b) \<longrightarrow> all_read inp (got @ xs))"
  using assms
proof (induction "length (rcv_items r)" arbitrary: k b r us rule: less_induct)
  case less
  from less.prems(1) show ?case
  proof (cases rule: client_reader.loop_cases)
    case ends
    have "all_read inp (got @ xs)"
      if "\<not> rcv_cancelled r" "reader_ok (client_switch []) inp True (rcv_items r) None got (xs, k, b)"
    proof -
      have "rcv_items r = []"
        using ends(1) that(1) by (cases rule: dequeue_cases [where r = r and m = client_measure]) auto
      then show ?thesis using reader_ok_all [of "client_switch []" inp got "(xs, k, b)"] that(2) by (auto simp: all_read_def)
    qed
    then show ?thesis using ends by auto
  next
    case (returns f u ret)
    then show ?thesis using client_switch_err [of peer k b f d ok] by auto
  next
    case (continues f u r1 k' b' us')
    have "reader_ok (client_switch []) inp True (rcv_items r1) None got (xs, k', b')"
      if "reader_ok (client_switch []) inp True (rcv_items r) None got (xs, k, b)"
      using that unfolding reader_ok_peer [of peer, symmetric]
      by (intro reader_ok_take(1) [where sw = "client_switch peer" and f = f, OF _ continues(2)])
        (simp add: dequeue_item_front [OF continues(1)])
    then show ?thesis
      using less.hyps [OF continues(4,3)] dequeue_flags [OF continues(1)] by blast
  qed (use less.prems in auto)
qed

lemma client_locked_eof:
  assumes "client_readMsgLocked peer entry st = (RdRet (d, ok, Some EOF), st', us)" and "cs_readErr st = None"
    and "entered entry None k b"
  shows "cs_done st = Some EOF \<and> ok \<and> (\<not> rcv_cancelled (cs_receiver st) \<longrightarrow>
    reader_ok (client_switch []) inp True (rcv_items (cs_receiver st)) None got (xs, k, b) \<longrightarrow> all_read inp (got @ xs))"
proof -
  have kb: "(case entry of None \<Rightarrow> (-1, []) | Some e \<Rightarrow> e) = (k, b)" using assms(3) by (auto simp: entered_def split: if_splits)
  obtain res r us' where lp: "client_read_loop peer (cs_done st) k b (cs_receiver st) = (res, r, us')" by (metis prod_cases3)
  then have "res = RdRet (d, ok, Some EOF)"
    using assms(1,2) kb by (auto simp: client_readMsgLocked_def Let_def split: read_res.splits option.splits prod.splits)
  then show ?thesis using client_loop_eof [of peer "cs_done st" k b "cs_receiver st" d ok r us'] lp by blast
qed

text \<open>What the caller has when the read error has become EOF.\<close>

fun returned :: "bytes list \<Rightarrow> msg_res \<Rightarrow> bytes list" where
  "returned got (MsgRet (d, ok, None)) = got @ [d]"
| "returned got _ = got"

lemma client_second_eof:
  assumes "client_readSecond peer d entry st = (res, st', us)" and "cs_readErr st = None" and "cs_readErr st' = Some EOF"
    and "entered entry None k b"
  shows "cs_done st = Some EOF \<and> (\<not> rcv_cancelled (cs_receiver st) \<longrightarrow>
    reader_ok (client_switch []) inp True (rcv_items (cs_receiver st)) None got ([d], k, b) \<longrightarrow> all_read inp (returned got res))"
proof -
  obtain res1 st1 us1 where lk: "client_readMsgLocked peer entry st = (res1, st1, us1)" by (metis prod_cases3)
  have err: "cs_readErr st1 = read_err res1"
    using lk assms(2) by (auto simp: client_readMsgLocked_def Let_def split: read_res.splits option.splits prod.splits)
  have "read_err res1 = Some EOF"
    using assms(1,3) lk err
    by (auto simp: client_readSecond_def errMultipleResponses_def Let_def split: read_res.splits option.splits if_splits)
  then obtain d' ok where res1: "res1 = RdRet (d', ok, Some EOF)" by (cases res1 rule: read_err.cases) auto
  note eof = client_locked_eof [OF lk [unfolded res1] assms(2,4), of inp got "[d]"]
  then have "res = MsgRet (d, True, None)" using assms(1) lk res1 by (auto simp: client_readSecond_def)
  then show ?thesis using eof by simp
qed

lemma client_first_eof:
  assumes "client_readFirst peer entry st = (res, st', us)" and "cs_readErr st = None" and "cs_readErr st' = Some EOF"
    and "entered entry None k b" and "client_stream_ok W st"
  shows "cs_done st = Some EOF \<and> (\<not> rcv_cancelled (cs_receiver st) \<longrightarrow>
    reader_ok (client_switch []) inp True (rcv_items (cs_receiver st)) None got ([], k, b) \<longrightarrow> all_read inp (returned got res))"
proof -
  obtain res1 st1 us1 where lk: "client_readMsgLocked peer entry st = (res1, st1, us1)" by (metis prod_cases3)
  have err: "cs_readErr st1 = read_err res1"
    using lk assms(2) by (auto simp: client_readMsgLocked_def Let_def split: read_res.splits option.splits prod.splits)
  show ?thesis
  proof (cases "\<exists>d g. res1 = RdRet (d, g, None) \<and> \<not> cs_isServerStream st")
    case True
    then obtain d g where d: "res1 = RdRet (d, g, None)" by blast
    then obtain us' where sec: "client_readSecond peer d None st1 = (res, st', us')"
      using assms(1) lk True by (auto simp: client_readFirst_def split: prod.splits)
    have same: "cs_done st1 = cs_done st" "rcv_cancelled (cs_receiver st1) = rcv_cancelled (cs_receiver st)"
      using client_readMsgLocked_reads [OF lk] by (simp_all add: reads_from_fields(1)) (simp add: reads_from_def)
    have "reader_ok (client_switch []) inp True (rcv_items (cs_receiver st1)) None got ([d], -1, [])"
      if "reader_ok (client_switch []) inp True (rcv_items (cs_receiver st)) None got ([], k, b)"
      using client_locked_read [OF lk assms(5), of k b inp True got "[]"] that assms(2,4) d
      unfolding loop_read_def reader_ok_peer [of peer] by simp
    moreover have "cs_readErr st1 = None" using err d by simp
    moreover have "entered None None (-1) []" by (simp add: entered_def)
    ultimately show ?thesis using client_second_eof [OF sec _ assms(3), of "-1" "[]" inp got] unfolding same by blast
  next
    case False
    then have st': "st' = st1" "res = (case res1 of RdBlock k b \<Rightarrow> MsgBlock (FirstRead k b) | RdRet ret \<Rightarrow> MsgRet ret)"
      using assms(1) lk by (auto simp: client_readFirst_def split: read_res.splits)
    then obtain d' ok where res1: "res1 = RdRet (d', ok, Some EOF)" using err assms(3) by (cases res1 rule: read_err.cases) auto
    then show ?thesis using client_locked_eof [OF lk [unfolded res1] assms(2,4), of inp got "[]"] st'(2) by simp
  qed
qed

lemma client_msg_eof:
  assumes "client_readMsg peer ph st = (res, st', us)" and "cs_readErr st = None" and "cs_readErr st' = Some EOF"
    and "client_stream_ok W st"
  shows "cs_done st = Some EOF \<and> (\<not> rcv_cancelled (cs_receiver st) \<longrightarrow>
    reader_ok (client_switch []) inp True (rcv_items (cs_receiver st)) None got (client_at ph) \<longrightarrow> all_read inp (returned got res))"
  using assms(1) client_first_eof [OF _ assms(2,3) _ assms(4)] client_second_eof [OF _ assms(2,3)]
  by (auto simp: client_readMsg_def entered_def split: option.splits read_phase.splits)

text \<open>Once it is there, the read error stays.\<close>

lemma client_msg_err_stays:
  assumes "client_readMsg peer None st = (res, st', us)" and "cs_readErr st = Some e"
  shows "cs_readErr st' = Some e \<and> cs_receiver st' = cs_receiver st \<and> returned got res = got"
  using assms by (auto simp: client_readMsg_def client_readFirst_def client_readMsgLocked_def)

subsection \<open>The client\<close>

definition plain_ctx :: "ctx \<Rightarrow> bool" where
  "plain_ctx c \<longleftrightarrow> c \<in> {None, Some CtxCanceled, Some CtxDeadlineExceeded}"

lemma plain_ctx_end [simp]: "plain_ctx c \<Longrightarrow> e \<in> {CtxCanceled, CtxDeadlineExceeded} \<Longrightarrow> plain_ctx (ctx_end e c)"
  by (cases c) (auto simp: plain_ctx_def)

lemma plain_ctx_finish: "plain_ctx c \<Longrightarrow> c \<noteq> None \<Longrightarrow> finish_err c \<noteq> EOF"
  by (auto simp: plain_ctx_def finish_err_def)

text \<open>The frame that closes a stream without an error.\<close>

definition close_eof :: "grpc_lib \<Rightarrow> i64 \<Rightarrow> ServerToClient \<Rightarrow> bool" where
  "close_eof L i m \<longleftrightarrow> S2C_StreamId m = i
     \<and> (\<exists>cl. S2C_Frame m = Some (ServerToClient_CloseStream cl) \<and> finish_err (FromProto_Err L (Status cl)) = EOF)"

text \<open>
  A stream that is done without an error was closed by such a frame, after all its data: nothing of it is lost, and when the reader has
  seen the end, it has read everything.
\<close>

definition clean_stream :: "grpc_lib \<Rightarrow> ServerToClient list \<Rightarrow> i64 \<Rightarrow> tunnelClientStream \<Rightarrow> read_phase rpc_log \<Rightarrow> bool" where
  "clean_stream L inp i st lg \<longleftrightarrow> plain_ctx (cs_ctx st) \<and> (cs_readErr st = Some EOF \<longrightarrow> cs_done st = Some EOF)
     \<and> (cs_done st = Some EOF \<longrightarrow> \<not> rcv_cancelled (cs_receiver st) \<and> (\<exists>m\<in>set inp. close_eof L i m)
          \<and> reader_ok (client_switch []) (data_down i inp) True (rcv_items (cs_receiver st)) (cs_readErr st) (lg_got lg i)
              (client_at (lg_at lg i))
          \<and> (cs_readErr st = Some EOF \<longrightarrow> all_read (data_down i inp) (lg_got lg i)))"

definition clean_client :: "grpc_lib \<Rightarrow> ServerToClient list \<Rightarrow> tunnelChannel \<Rightarrow> read_phase rpc_log \<Rightarrow> bool" where
  "clean_client L inp c lg \<longleftrightarrow> (\<forall>i st. ch_heap c i = Some st \<longrightarrow> clean_stream L inp i st lg)"

text \<open>Steps that do not end a stream without an error, and do not read.\<close>

definition cs_stays :: "tunnelClientStream \<Rightarrow> tunnelClientStream \<Rightarrow> bool" where
  "cs_stays st st' \<longleftrightarrow> cs_readErr st' = cs_readErr st \<and> (plain_ctx (cs_ctx st) \<longrightarrow> plain_ctx (cs_ctx st'))
     \<and> (cs_done st = Some EOF \<longleftrightarrow> cs_done st' = Some EOF)
     \<and> (cs_done st = Some EOF \<longrightarrow> rcv_items (cs_receiver st') = rcv_items (cs_receiver st)
          \<and> rcv_cancelled (cs_receiver st') = rcv_cancelled (cs_receiver st))"

definition cs_blank :: "tunnelClientStream \<Rightarrow> bool" where
  "cs_blank st \<longleftrightarrow> cs_readErr st = None \<and> cs_done st = None \<and> plain_ctx (cs_ctx st)"

definition client_stays :: "tunnelChannel \<Rightarrow> tunnelChannel \<Rightarrow> bool" where
  "client_stays c c' \<longleftrightarrow> (\<forall>i st'. ch_heap c' i = Some st' \<longrightarrow> cs_blank st' \<or> (\<exists>st. ch_heap c i = Some st \<and> cs_stays st st'))"

lemma clean_client_stays:
  assumes "clean_client L inp c lg" and "client_stays c c'" and "lg_got lg' = lg_got lg" and "lg_at lg' = lg_at lg"
    and "set inp \<subseteq> set inp'"
    and "\<And>i st. ch_heap c i = Some st \<Longrightarrow> cs_done st = Some EOF \<Longrightarrow> data_down i inp' = data_down i inp"
  shows "clean_client L inp' c' lg'"
  unfolding clean_client_def
proof (intro allI impI)
  fix i st' assume "ch_heap c' i = Some st'"
  then consider "cs_blank st'" | st where "ch_heap c i = Some st" "cs_stays st st'"
    using assms(2) unfolding client_stays_def by blast
  then show "clean_stream L inp' i st' lg'"
  proof cases
    case (2 st)
    then have "clean_stream L inp i st lg" using assms(1) by (simp add: clean_client_def)
    then show ?thesis
      using 2(2) assms(3-5) assms(6) [OF 2(1)] by (auto simp: clean_stream_def cs_stays_def)
  qed (simp add: clean_stream_def cs_blank_def)
qed

lemma cs_stays_refl [simp]: "cs_stays st st"
  by (simp add: cs_stays_def)

lemma client_stays_heap: "ch_heap c' = ch_heap c \<Longrightarrow> client_stays c c'"
  by (auto simp: client_stays_def)

lemma client_stays_put: "ch_heap c' = (ch_heap c)(i \<mapsto> st') \<Longrightarrow> ch_heap c i = Some st \<Longrightarrow> cs_stays st st' \<Longrightarrow> client_stays c c'"
  by (auto simp: client_stays_def)

lemma cs_stays_trans: "cs_stays st st1 \<Longrightarrow> cs_stays st1 st2 \<Longrightarrow> cs_stays st st2"
  by (auto simp: cs_stays_def)

lemma ch_heap_removeStream [simp]: "ch_heap (removeStream i c) = ch_heap c"
  by (simp add: removeStream_def split: option.splits)

lemma cs_stays_finish:
  "client_finish e tr st = Some st' \<Longrightarrow> finish_err e \<noteq> EOF \<Longrightarrow> cs_stays st st' \<and> cs_done st' = Some (finish_err e)"
  by (auto simp: client_finish_def cs_stays_def split: if_splits)

lemma client_stays_finish:
  assumes "finish_err e \<noteq> EOF"
  shows "client_stays c (snd (finishStream e tr i c))"
proof (cases "\<exists>st st'. ch_heap c i = Some st \<and> client_finish e tr st = Some st'")
  case True
  then obtain st st' where st: "ch_heap c i = Some st" "client_finish e tr st = Some st'" by blast
  have "cs_stays st st'" using cs_stays_finish [OF st(2) assms] by blast
  then show ?thesis using st by (intro client_stays_put [OF _ st(1)]) (simp_all add: finishStream_def put_stream_def)
qed (auto simp: finishStream_def intro: client_stays_heap split: option.splits)

lemma client_stays_cancel:
  assumes "finish_err e \<noteq> EOF"
  shows "client_stays c (cancelStream e i c)"
proof (cases "\<exists>st st'. ch_heap c i = Some st \<and> client_finish e None st = Some st'")
  case True
  then obtain st st' where st: "ch_heap c i = Some st" "client_finish e None st = Some st'" by blast
  let ?st = "st'\<lparr>cs_receiver := cancel_receiver (cs_receiver st')\<rparr>"
  have "cs_stays st ?st"
    using cs_stays_finish [OF st(2) assms] assms by (auto simp: cs_stays_def)
  then show ?thesis
    using st by (intro client_stays_put [OF _ st(1)]) (simp_all add: cancelStream_def finishStream_def put_stream_def)
qed (auto simp: cancelStream_def finishStream_def intro: client_stays_heap split: option.splits)

lemma client_stays_close: "client_stays c (snd (channel_close e c))"
  by (auto simp: channel_close_def Let_def client_stays_def cs_stays_def cancel_ctx_def)

lemma client_stays_exit: "client_stays c (snd (recv_exit e c))"
  using client_stays_close [of c e] by (simp add: recv_exit_def client_stays_def)

lemma client_stays_new:
  assumes "plain_ctx (nc_ctx a)"
  shows "client_stays c (snd (newStream L a r c))"
proof -
  obtain res c1 where al: "allocateStream L a c = (res, c1)" by fastforce
  have "ch_heap c1 = ch_heap c \<or> (\<exists>i m hs ts cl sv s rc. ch_heap c1 = (ch_heap c)(i \<mapsto> newClientStream (nc_ctx a) i m hs ts cl sv s rc))"
    using al by (auto simp: allocateStream_def Let_def split: option.splits opts_res.splits prod.splits if_splits gerror.splits; blast)
  moreover have "cs_blank (newClientStream (nc_ctx a) i m hs ts cl sv s rc)" for i m hs ts cl sv s rc
    using assms by (simp add: newClientStream_def cs_blank_def)
  ultimately have "client_stays c c1" unfolding client_stays_def by (auto split: if_splits)
  moreover have "ch_heap (snd (newStream L a r c)) = ch_heap c1"
    using al by (simp add: newStream_def split: alloc_res.splits option.splits)
  ultimately show ?thesis by (simp add: client_stays_def)
qed

text \<open>Reading.\<close>

lemma clean_stream_read:
  assumes "clean_stream L inp i st lg" and "client_stream_ok W st" and "client_readMsg peer (lg_at lg i) st = (res, st', us)"
    and "lg_at lg i \<noteq> None \<longrightarrow> cs_readErr st = None" and "lg_got lg' i = returned (lg_got lg i) res"
    and "lg_at lg' i = (case res of MsgBlock ph \<Rightarrow> Some ph | MsgRet ret \<Rightarrow> None)"
  shows "clean_stream L inp i st' lg'"
proof -
  have rf: "reads_from st st'" by (rule client_readMsg_reads [OF assms(3)])
  note fl = reads_from_fields(1,2) [OF rf]
  have canc: "rcv_cancelled (cs_receiver st') = rcv_cancelled (cs_receiver st)" using rf by (simp add: reads_from_def)
  have rd: "reader_ok (client_switch []) (data_down i inp) True (rcv_items (cs_receiver st')) (cs_readErr st') (lg_got lg' i)
      (client_at (lg_at lg' i))" if "cs_done st = Some EOF"
  proof -
    have "client_read (data_down i inp) True st' (lg_got lg i) res"
      by (rule client_msg_read [OF assms(3,2,4)]) (use assms(1) that in \<open>simp add: clean_stream_def\<close>)
    then show ?thesis
      using assms(5,6) by (cases "(lg_got lg i, res)" rule: returned.cases) (auto simp: client_read_def)
  qed
  have eof: "cs_done st = Some EOF \<and> all_read (data_down i inp) (lg_got lg' i)" if e: "cs_readErr st' = Some EOF"
  proof (cases "cs_readErr st")
    case None
    note x = client_msg_eof [OF assms(3) None e assms(2), of "data_down i inp" "lg_got lg i"]
    then show ?thesis using assms(1,5) None by (simp add: clean_stream_def)
  next
    case (Some x)
    then have "lg_at lg i = None" using assms(4) by auto
    then have "cs_readErr st' = Some x" "lg_got lg' i = lg_got lg i"
      using client_msg_err_stays [OF assms(3) [unfolded \<open>lg_at lg i = None\<close>] Some] assms(5) by auto
    then show ?thesis using assms(1) e Some by (simp add: clean_stream_def)
  qed
  show ?thesis using assms(1) fl canc rd eof unfolding clean_stream_def by auto
qed

text \<open>The steps of the client by itself; its contexts end as those of the standard library do.\<close>

fun ctx_lawful :: "chan_act \<Rightarrow> bool" where
  "ctx_lawful (ActNew a r) = plain_ctx (nc_ctx a)"
| "ctx_lawful (ActStreamCtx i e) = (e \<in> {CtxCanceled, CtxDeadlineExceeded})"
| "ctx_lawful _ = True"

lemma finish_err_neq: "e \<noteq> EOF \<Longrightarrow> finish_err (Some e) \<noteq> EOF"
  by (cases e) (auto simp: finish_err_def)

lemma client_readMsg_not_ok:
  assumes "client_readMsg peer ph st = (MsgRet (d, False, Some e), st', us)"
  shows "e \<noteq> EOF"
proof -
  have locked: "e \<noteq> EOF" if "client_readMsgLocked peer entry st = (RdRet (d, False, Some e), st', us)" for entry st st' us d e
  proof
    assume "e = EOF"
    then have lk: "client_readMsgLocked peer entry st = (RdRet (d, False, Some EOF), st', us)" using that by simp
    then have none: "\<not> (entry = None \<and> cs_readErr st \<noteq> None)" by (auto simp: client_readMsgLocked_def split: if_splits)
    obtain k b where kb: "(case entry of None \<Rightarrow> (-1, []) | Some x \<Rightarrow> x) = (k, b)" by fastforce
    obtain res r us' where lp: "client_read_loop peer (cs_done st) k b (cs_receiver st) = (res, r, us')" by (metis prod_cases3)
    have "res = RdRet (d, False, Some EOF)"
      using lk none kb lp by (auto simp: client_readMsgLocked_def Let_def split: read_res.splits option.splits prod.splits if_splits)
    then show False using client_loop_eof [of peer "cs_done st" k b "cs_receiver st" d False r us'] lp by blast
  qed
  have second: "e \<noteq> EOF" if "client_readSecond peer x entry st = (MsgRet (d, False, Some e), st', us)" for x entry st st' us
    using that locked
    by (auto simp: client_readSecond_def errMultipleResponses_def Let_def split: prod.splits read_res.splits option.splits if_splits)
  have "e \<noteq> EOF" if "client_readFirst peer entry st = (MsgRet (d, False, Some e), st', us)" for entry
    using that locked second by (auto simp: client_readFirst_def split: prod.splits read_res.splits if_splits)
  then show ?thesis using assms second by (auto simp: client_readMsg_def split: option.splits read_phase.splits)
qed

lemma clean_client_put:
  assumes "clean_client L inp c lg" and "log_only i lg lg'" and "clean_stream L inp i st' lg'" and "ch_heap c' = (ch_heap c)(i \<mapsto> st')"
  shows "clean_client L inp c' lg'"
  using assms by (auto simp: clean_client_def clean_stream_def log_only_def)

lemma clean_client_RecvMsg:
  assumes "clean_client L inp c lg" and "client_end inp c lg" and "chan_inv c" and "stream_RecvMsg (lg_at lg i) i c = Some (x, c')"
  shows "clean_client L inp c' (client_log (ActRecvMsg i (lg_at lg i)) c c' lg)"
proof -
  obtain st where st: "ch_heap c i = Some st"
    using assms(4) by (auto simp: stream_RecvMsg_def split: option.splits)
  obtain res st' us where rd: "client_readMsg (fst (tunnelRoles (ch_reverse c))) (lg_at lg i) st = (res, st', us)" by (metis prod_cases3)
  let ?c1 = "(put_stream i st' c)\<lparr>ch_sent := ch_sent c @ map (c2s i) (client_sendUpdates us st)\<rparr>"
  let ?lg = "client_log (ActRecvMsg i (lg_at lg i)) c c' lg"
  have lg: "?lg = (case res of MsgBlock ph' \<Rightarrow> log_waits i (Some ph') lg | MsgRet (d, k, None) \<Rightarrow> log_gets i d lg
      | MsgRet (d, k, Some e) \<Rightarrow> log_waits i None lg)"
    using st rd by (simp add: stream_RecvMsg_def Let_def split: msg_res.splits option.splits)
  have "lg_got ?lg i = returned (lg_got lg i) res" "lg_at ?lg i = (case res of MsgBlock ph \<Rightarrow> Some ph | MsgRet ret \<Rightarrow> None)"
      "log_only i lg ?lg"
    unfolding lg by (cases "(lg_got lg i, res)" rule: returned.cases; simp add: log_waits_def log_gets_def log_only_def)+
  moreover have "clean_stream L inp i st lg" "client_stream_ok (chan_window c) st" "lg_at lg i \<noteq> None \<longrightarrow> cs_readErr st = None"
    using assms(1-3) st by (auto simp: clean_client_def chan_inv_def streams_ok_def client_end_def client_reads_def)
  ultimately have "clean_client L inp ?c1 ?lg"
    using clean_stream_read [OF _ _ rd] by (intro clean_client_put [OF assms(1)]) (auto simp: put_stream_def)
  moreover have "c' = ?c1 \<or> (\<exists>e. e \<noteq> EOF \<and> c' = cancelStream (Some e) i ?c1)"
  proof (cases "\<exists>d e. res = MsgRet (d, False, Some e)")
    case True
    then obtain d e where e: "res = MsgRet (d, False, Some e)" by blast
    then have "c' = cancelStream (Some e) i ?c1" using assms(4) st rd by (auto simp: stream_RecvMsg_def Let_def)
    then show ?thesis using client_readMsg_not_ok [OF rd [unfolded e]] by blast
  next
    case False
    then have "c' = ?c1"
      using assms(4) st rd by (auto simp: stream_RecvMsg_def Let_def split: msg_res.splits option.splits if_splits)
    then show ?thesis by blast
  qed
  ultimately show ?thesis
    using client_stays_cancel [OF finish_err_neq] by (auto intro: clean_client_stays)
qed

lemma client_stays_own:
  assumes "clean_client L inp c lg" and "chan_do L a c = Some c'" and "ctx_lawful a" and "\<And>m. a \<noteq> ActRecv (Inr m)" and "\<And>i ph. a \<noteq> ActRecvMsg i ph"
  shows "client_stays c c'"
proof (cases a)
  case (ActRecv x)
  then obtain e where "x = Inl e" using assms(4) by (cases x) auto
  then have "\<exists>e. c' = (snd (recv_exit e c))\<lparr>ch_loop := LoopEnded\<rparr>"
    using assms(2) ActRecv by (auto simp: recvLoop_def recvLoop_start_def recvLoop_step_def recv_exit_def Let_def split: loop_pc.splits if_splits)
  then obtain e where e: "c' = (snd (recv_exit e c))\<lparr>ch_loop := LoopEnded\<rparr>" by blast
  show ?thesis using client_stays_exit [of c e] by (simp add: e client_stays_def)
next
  case (ActNew x r)
  then show ?thesis using assms(2,3) client_stays_new by auto
next
  case (ActStreamCtx i e)
  then obtain st where st: "ch_heap c i = Some st" "c' = put_stream i (st\<lparr>cs_ctx := ctx_end e (cs_ctx st)\<rparr>) c"
    using assms(2) by (auto simp: end_stream_ctx_def split: option.splits)
  have "cs_stays st (st\<lparr>cs_ctx := ctx_end e (cs_ctx st)\<rparr>)" using assms(3) ActStreamCtx by (simp add: cs_stays_def)
  then show ?thesis using client_stays_put [OF _ st(1)] by (simp add: st(2) put_stream_def)
next
  case (ActWatch i)
  then obtain st where st: "ch_heap c i = Some st" "cs_ctx st \<noteq> None" "c' = cancelStream (cs_ctx st) i c"
    using assms(2) by (auto simp: watchStream_def split: option.splits if_splits)
  then have "plain_ctx (cs_ctx st)" using assms(1) by (simp add: clean_client_def clean_stream_def)
  then show ?thesis using st client_stays_cancel [OF plain_ctx_finish] by simp
next
  case (ActSendMsg i b)
  then show ?thesis
    using assms(2) by (auto simp: stream_SendMsg_def client_SendMsg_def put_stream_def cs_stays_def Let_def
        intro!: client_stays_put split: option.splits if_splits sum.splits)
next
  case (ActSend i b)
  then show ?thesis
    using assms(2) by (auto simp: stream_send_do_def client_send_do_def put_stream_def cs_stays_def simp del: sys_do.simps
        intro!: client_stays_put split: option.splits if_splits)
next
  case (ActCloseSend i r)
  then show ?thesis
    using assms(2) by (auto simp: stream_CloseSend_def client_CloseSend_def put_stream_def cs_stays_def
        intro!: client_stays_put split: option.splits if_splits)
qed (use assms(2,5) client_stays_close in \<open>auto simp: run_job_def intro: client_stays_heap split: list.splits\<close>)

lemma clean_client_own:
  assumes "clean_client L inp c lg" and "client_end inp c lg" and "chan_inv c" and "chan_do L a c = Some c'" and "ctx_lawful a"
    and "\<And>m. a \<noteq> ActRecv (Inr m)" and "\<And>i ph. a = ActRecvMsg i ph \<Longrightarrow> ph = lg_at lg i"
  shows "clean_client L inp c' (client_log a c c' lg)"
proof (cases "\<exists>i ph. a = ActRecvMsg i ph")
  case True
  then obtain i where "a = ActRecvMsg i (lg_at lg i)" using assms(7) by auto
  then show ?thesis using clean_client_RecvMsg [OF assms(1-3)] assms(4) by auto
next
  case False
  have lg: "lg_got (client_log a c c' lg) = lg_got lg" "lg_at (client_log a c c' lg) = lg_at lg"
    using False by (cases "(a, c, c', lg)" rule: client_log.cases; simp add: log_begins_def log_sends_def)+
  have "client_stays c c'" by (rule client_stays_own [OF assms(1,4,5,6)]) (use False in blast)
  then show ?thesis using clean_client_stays [OF assms(1) _ lg] by simp
qed

text \<open>Frames that arrive; none brings data of a stream that was closed.\<close>

lemma clean_client_closed:
  assumes "clean_client L inp c lg" and "client_end inp c lg" and "chan_inv c" and "i \<in> live_streams c"
    and "finish_err (FromProto_Err L (Status cl)) = EOF"
  shows "clean_client L (inp @ [s2c i (ServerToClient_CloseStream cl)])
    (snd (finishStream (FromProto_Err L (Status cl)) tr i c)) lg"
proof -
  let ?m = "s2c i (ServerToClient_CloseStream cl)" and ?e = "FromProto_Err L (Status cl)"
  have more: "clean_client L (inp @ [?m]) c lg"
    by (rule clean_client_stays [OF assms(1)]) (auto intro: client_stays_heap)
  obtain st where st: "ch_heap c i = Some st" "cs_done st = None" using assms(3,4) by (auto simp: chan_inv_def streams_ok_def)
  obtain st' where st': "client_finish ?e tr st = Some st'" using st(2) by (simp add: client_finish_def)
  have ok: "\<not> rcv_closed (cs_receiver st)" "\<not> rcv_cancelled (cs_receiver st)"
  proof -
    have "client_stream_ok (chan_window c) st" using assms(3) st(1) by (simp add: chan_inv_def streams_ok_def)
    then show "\<not> rcv_closed (cs_receiver st)" "\<not> rcv_cancelled (cs_receiver st)" using st(2) by (auto simp: client_stream_ok_def)
  qed
  have cl: "clean_stream L inp i st lg" using assms(1) st(1) by (simp add: clean_client_def)
  then have err: "cs_readErr st \<noteq> Some EOF" using st(2) by (auto simp: clean_stream_def)
  have "reader_ok (client_switch []) (data_down i inp) True (rcv_items (cs_receiver st)) (cs_readErr st) (lg_got lg i)
      (client_at (lg_at lg i))"
    using client_end_at [OF assms(2) st(1)] assms(4) ok(1) by (simp add: client_reads_def)
  moreover have "close_eof L i ?m" using assms(5) by (simp add: close_eof_def)
  ultimately have "clean_stream L (inp @ [?m]) i st' lg"
    using cl st' ok(2) err st(2) by (auto simp: client_finish_def clean_stream_def)
  then show ?thesis
    using st(1) st' by (intro clean_client_put [OF more, where i = i]) (simp_all add: finishStream_def put_stream_def)
qed

lemma clean_client_accept:
  assumes "clean_client L inp c lg" and "client_end inp c lg" and "chan_inv c" and "S2C_StreamId m \<in> live_streams c"
    and "\<And>i st. ch_heap c i = Some st \<Longrightarrow> cs_done st = Some EOF \<Longrightarrow> data_down i [m] = []"
  shows "clean_client L (inp @ [m]) (acceptServerFrame L (S2C_Frame m) (S2C_StreamId m) c) lg"
proof (cases "\<exists>cl. S2C_Frame m = Some (ServerToClient_CloseStream cl) \<and> finish_err (FromProto_Err L (Status cl)) = EOF")
  case True
  then obtain cl where cl: "S2C_Frame m = Some (ServerToClient_CloseStream cl)" "finish_err (FromProto_Err L (Status cl)) = EOF" by blast
  have eq: "s2c (S2C_StreamId m) (ServerToClient_CloseStream cl) = m" using cl(1) by (cases m) simp
  show ?thesis using clean_client_closed [OF assms(1-4) cl(2), where tr = "fromProto (ResponseTrailers cl)"] unfolding eq by (simp add: cl(1))
next
  case False
  let ?i = "S2C_StreamId m"
  obtain st where st: "ch_heap c ?i = Some st" "cs_done st = None" using assms(3,4) by (auto simp: chan_inv_def streams_ok_def)
  have fin: "client_stays c (snd (finishStream (Some e) tr ?i c))" if "e \<noteq> EOF" for e tr
    by (rule client_stays_finish [OF finish_err_neq [OF that]])
  have data: "client_stays c (accept_data f ?i c)" for f
  proof (cases rule: accept_cases [where r = "cs_receiver st" and m = client_measure and x = f])
    case exceeded
    then show ?thesis using fin [of errFlowControlWindowExceeded None] st(1) by (simp add: accept_data_def errFlowControlWindowExceeded_def)
  qed (use st in \<open>auto simp: accept_data_def cs_stays_def put_stream_def intro!: client_stays_put\<close>)
  have "client_stays c (acceptServerFrame L (S2C_Frame m) ?i c)"
    using False fin data st client_stays_finish
    by (cases "(L, S2C_Frame m, ?i, c)" rule: acceptServerFrame.cases)
       (auto simp: errUnexpectedSettings_def errUnrecognizedFrame_def client_gotHeaders_def put_stream_def cs_stays_def client_stays_heap
         intro!: client_stays_put)
  then show ?thesis by (rule clean_client_stays [OF assms(1)]) (use assms(5) in auto)
qed

lemma clean_client_recv:
  assumes "clean_client L inp c lg" and "client_end inp c lg" and "chan_inv c" and "recvLoop L (Inr m) c = Some c'"
    and "\<And>i st. ch_heap c i = Some st \<Longrightarrow> cs_done st = Some EOF \<Longrightarrow> data_down i [m] = []"
  shows "clean_client L (inp @ [m]) c' lg"
proof -
  have stays: "clean_client L (inp @ [m]) c1 lg" if "client_stays c c1" for c1
    by (rule clean_client_stays [OF assms(1) that]) (use assms(5) in auto)
  have loop: "clean_client L (inp @ [m]) (c1\<lparr>ch_loop := l\<rparr>) lg = clean_client L (inp @ [m]) c1 lg" for c1 l
    by (simp add: clean_client_def)
  have rev: "client_stays c (snd (recv_exit e (c\<lparr>ch_useRevision := u\<rparr>)))" for e u
    using client_stays_exit [of "c\<lparr>ch_useRevision := u\<rparr>" e] by (simp add: client_stays_def)
  have exit: "clean_client L (inp @ [m]) (snd (recv_exit e c)) lg" for e
    by (rule stays [OF client_stays_exit])
  have settings: "clean_client L (inp @ [m]) (snd (accept_settings stg c)) lg" for stg
    using rev by (intro stays) (auto simp: accept_settings_def Let_def client_stays_heap split: prod.splits)
  have "clean_client L (inp @ [m]) (snd (recvLoop_start L (Inr m) c)) lg"
    using exit settings by (auto simp: recvLoop_start_def split: option.splits ServerToClientFrame.splits)
  moreover have "clean_client L (inp @ [m]) (snd (recvLoop_step L (Inr m) c)) lg"
    using exit stays [of c] clean_client_accept [OF assms(1-3) _ assms(5)]
    by (auto simp: recvLoop_step_def getStream_def client_stays_heap)
  ultimately show ?thesis
    using assms(4) by (auto simp: recvLoop_def loop split: loop_pc.splits prod.splits)
qed

end
