(* ===== verification/Closing_Order.thy ===== *)
theory Closing_Order
  imports Delivery_Ends
begin

text \<open>
  The order in which the server ends a stream: the frame that closes it without an error is sent when the handler has returned and no call of
  \<^verbatim>\<open>SendMsg\<close> is under way, so no data of the stream follows it. A stream that the receive loop or a failed read ends is closed with an
  error, and its handler may go on sending.
\<close>

subsection \<open>Errors and statuses\<close>

definition failure :: "gerror \<Rightarrow> bool" where
  "failure e \<longleftrightarrow> e \<noteq> EOF \<and> (\<forall>st. e = StatusErr st \<longrightarrow> Code st \<noteq> OK)"

lemma failure_simps [simp]: "failure CtxCanceled" "failure (Errorf c f as) = (c \<noteq> OK)"
  by (auto simp: failure_def Errorf_def)

text \<open>
  What is relied on in the status package: a status made from an error is not OK, unless the error is one with the code OK, and on the other
  side it becomes an error with a status.
\<close>

definition status_faithful :: "grpc_lib \<Rightarrow> bool" where
  "status_faithful L \<longleftrightarrow> (\<forall>e. failure e \<longrightarrow> (\<exists>st. FromProto_Err L (Some (fst (FromError L e))) = Some (StatusErr st)))"

lemma failed_close:
  assumes "status_faithful L" and "failure e"
  shows "finish_err (FromProto_Err L (Some (fst (FromError L e)))) \<noteq> EOF"
  using assms unfolding status_faithful_def by (auto simp: finish_err_def)

lemma close_eof_is_close: "close_eof L i m \<Longrightarrow> is_close (S2C_Frame m)"
  by (auto simp: close_eof_def)

subsection \<open>Streams that are shut\<close>

definition pcs :: "tunnelServer \<Rightarrow> i64 \<Rightarrow> send_pc option \<times> serve_pc option" where
  "pcs s i = (map_option ss_pc (sv_heap s i), sv_serving s i)"

definition shut :: "tunnelServer \<Rightarrow> i64 \<Rightarrow> bool" where
  "shut s i \<longleftrightarrow> (\<exists>pc. pcs s i = (Some pc, Some ServeDone) \<and> send_idle pc)"

definition errors_real :: "tunnelServer \<Rightarrow> bool" where
  "errors_real s \<longleftrightarrow> (\<forall>i e. sv_loop s = SrvFinishing i e \<longrightarrow> (\<exists>x. e = Some x \<and> failure x))
     \<and> (\<forall>i e. (i, e) \<in> set (sv_waiting s) \<longrightarrow> (\<exists>x. e = Some x \<and> failure x))"

definition closing_order :: "grpc_lib \<Rightarrow> tunnelServer \<Rightarrow> bool" where
  "closing_order L s \<longleftrightarrow> errors_real s
     \<and> (\<forall>i m. m \<in> set (sv_sent s) \<union> set (concat (sv_jobs s)) \<and> close_eof L i m \<longrightarrow> shut s i)
     \<and> (\<forall>i pre m post. sv_sent s = pre @ m # post \<and> close_eof L i m \<longrightarrow> data_down i post = [])"

lemma data_down_part: "data_down i (xs @ ys) = [] \<longleftrightarrow> data_down i xs = [] \<and> data_down i ys = []"
  by simp

lemma closing_order_step:
  assumes "closing_order L s" and "errors_real s'" and "sv_sent s' = sv_sent s @ new"
    and "\<And>i. shut s i \<Longrightarrow> shut s' i \<and> data_down i new = []"
    and "\<And>i m. m \<in> set new \<Longrightarrow> close_eof L i m \<Longrightarrow> m \<in> set (concat (sv_jobs s))"
    and "\<And>i m. m \<in> set (concat (sv_jobs s')) \<Longrightarrow> close_eof L i m \<Longrightarrow> m \<in> set (concat (sv_jobs s)) \<or> shut s' i"
  shows "closing_order L s'"
proof -
  have old: "shut s i" if "m \<in> set (sv_sent s) \<union> set (concat (sv_jobs s))" "close_eof L i m" for i m
    using assms(1) that unfolding closing_order_def by blast
  have "shut s' i" if "m \<in> set (sv_sent s') \<union> set (concat (sv_jobs s'))" "close_eof L i m" for i m
    using that old [of m i] assms(4) [of i] assms(5,6) [of m i] unfolding assms(3) by auto
  moreover have "data_down i post = []" if p: "sv_sent s' = pre @ m # post" "close_eof L i m" for i pre m post
  proof -
    have eq: "sv_sent s @ new = pre @ m # post" using p(1) assms(3) by simp
    then consider us where "sv_sent s = pre @ m # us" "post = us @ new" | us where "pre = sv_sent s @ us" "new = us @ m # post"
      by (auto simp: append_eq_append_conv2 append_eq_Cons_conv Cons_eq_append_conv)
    then show ?thesis
    proof cases
      case (1 us)
      then have "shut s i" "data_down i us = []" using old [of m i] p(2) assms(1) unfolding closing_order_def by auto
      then show ?thesis using 1(2) assms(4) by simp
    next
      case (2 us)
      then have "shut s i" using old [of m i] assms(5) [of m i] p(2) by auto
      then have "data_down i (us @ [m] @ post) = []" using assms(4) 2(2) by simp
      then show ?thesis by (simp only: data_down_part)
    qed
  qed
  ultimately show ?thesis using assms(2) unfolding closing_order_def by blast
qed

subsection \<open>Steps that leave handlers and calls of SendMsg alone\<close>

definition quiet :: "tunnelServer \<Rightarrow> tunnelServer \<Rightarrow> bool" where
  "quiet s s' \<longleftrightarrow> pcs s' = pcs s \<and> (\<exists>new. sv_sent s' = sv_sent s @ new \<and> (\<forall>m\<in>set new. down_data (S2C_Frame m) = [] \<and> \<not> is_close (S2C_Frame m)))"

lemma shut_pcs: "pcs s' i = pcs s i \<Longrightarrow> shut s' i = shut s i"
  by (simp add: shut_def)

lemma closing_order_quiet:
  assumes "closing_order L s" and "quiet s s'" and "errors_real s'"
    and "\<And>i m. m \<in> set (concat (sv_jobs s')) \<Longrightarrow> close_eof L i m \<Longrightarrow> m \<in> set (concat (sv_jobs s))"
  shows "closing_order L s'"
proof -
  obtain new where new: "sv_sent s' = sv_sent s @ new" "\<And>m. m \<in> set new \<Longrightarrow> down_data (S2C_Frame m) = [] \<and> \<not> is_close (S2C_Frame m)"
    using assms(2) unfolding quiet_def by blast
  have pcs: "pcs s' = pcs s" using assms(2) by (simp add: quiet_def)
  show ?thesis
  proof (rule closing_order_step [OF assms(1,3) new(1)])
    show "shut s' i \<and> data_down i new = []" if "shut s i" for i
      using that shut_pcs [of s' i s] pcs data_none(2) [of new i] new(2) by auto
  qed (use assms(4) new(2) close_eof_is_close in blast)+
qed

lemma pcs_put [simp]: "sv_heap s i = Some st \<Longrightarrow> ss_pc st' = ss_pc st \<Longrightarrow> pcs (put_server i st' s) = pcs s"
  by (auto simp: pcs_def put_server_def)

lemma pcs_frame [simp]:
  "pcs (s\<lparr>sv_loop := x0\<rparr>) = pcs s" "pcs (s\<lparr>sv_waiting := x1\<rparr>) = pcs s" "pcs (s\<lparr>sv_ctx := x2\<rparr>) = pcs s"
  "pcs (s\<lparr>sv_jobs := x3\<rparr>) = pcs s" "pcs (s\<lparr>sv_streams := x4\<rparr>) = pcs s" "pcs (s\<lparr>sv_sent := x5\<rparr>) = pcs s"
  "pcs (s\<lparr>sv_lastSeen := x6\<rparr>) = pcs s"
  by (auto simp: pcs_def)

lemma pcs_finish_begin [simp]: "pcs (srv_finish_begin e i s) = pcs s"
  by (auto simp: srv_finish_begin_def server_removeStream_def finish_begin_def halfClose_def split: option.splits)

lemma pcs_loop_finish [simp]: "pcs (loop_finish e i s) = pcs s"
  by (simp add: loop_finish_def)

lemma pcs_all_ctx [simp]: "pcs (tunnel_ctx_ends e s) = pcs s" "pcs (serve_return e' s) = pcs s"
  by (auto simp: pcs_def tunnel_ctx_ends_def serve_return_def option.map_comp comp_def)

lemma pcs_acceptClientFrame [simp]: "pcs (acceptClientFrame f i s) = pcs s"
  by (auto simp: acceptClientFrame_def server_accept_data_def halfClose_def Let_def split: option.splits ClientToServerFrame.splits prod.splits)

lemma pcs_finish_locked: "srv_finish_locked L e i s = Some s' \<Longrightarrow> pcs s' = pcs s \<and> sv_sent s' = sv_sent s"
  by (auto simp: srv_finish_locked_def finish_locked_def Let_def split: option.splits if_splits)

lemma quiet_same: "pcs s' = pcs s \<Longrightarrow> sv_sent s' = sv_sent s \<Longrightarrow> quiet s s'"
  by (simp add: quiet_def)

subsection \<open>Errors that the server ends a stream with\<close>

lemma server_switch_failure: "server_switch k b f = Inl (d, ok, Some e) \<Longrightarrow> failure e"
  by (cases f) (auto simp: errServerEnvelope_def errServerTooMuch_def errServerNoEnvelope_def errUnrecognized_def split: if_splits)

lemma server_loop_not_ok:
  "server_read_loop c hc h k b r = (RdRet (d, False, Some e), r', us) \<Longrightarrow> failure e"
proof (induction "length (rcv_items r)" arbitrary: h k b r us rule: less_induct)
  case less
  have past: "\<not> (h \<and> c \<noteq> None)" using less.prems by (auto simp: server_read_loop.simps [of c hc h k b r] split: if_splits)
  obtain x r1 where deq: "dequeue server_measure r = (x, r1)" by (cases "dequeue server_measure r")
  note run = less.prems [unfolded server_read_loop_past [OF past]]
  show ?case
  proof (cases x)
    case (DeqItem f u)
    have items: "rcv_items r = f # rcv_items r1" using deq DeqItem by (simp add: dequeue_item_front)
    show ?thesis
    proof (cases "server_switch k b f")
      case (Inl ret)
      then show ?thesis using run deq DeqItem server_switch_failure by auto
    next
      case (Inr kb)
      obtain k' b' where kb: "kb = (k', b')" by fastforce
      obtain us' where "server_read_loop c hc True k' b' r1 = (RdRet (d, False, Some e), r', us')"
        using run deq DeqItem Inr kb by (auto simp: then_read_def split: prod.splits)
      then show ?thesis using less.hyps [of r1] items by simp
    qed
  qed (use run deq in auto)
qed

lemma server_readMsg_not_ok:
  assumes "server_readMsg ph st = (SrvRet (d, False, Some e), st', us)"
  shows "failure e"
proof -
  have locked: "failure e" if "server_readMsgLocked entry st = (RdRet (d, False, Some e), st', us)" for entry st st' us d e
    using that server_loop_not_ok
    by (auto simp: server_readMsgLocked_def Let_def split: if_splits prod.splits read_res.splits option.splits)
  have second: "failure e" if "server_readSecond x entry st = (SrvRet (d, False, Some e), st', us)" for x entry st st' us
    using that locked
    by (auto simp: server_readSecond_def errMultipleRequests_def Let_def split: prod.splits read_res.splits option.splits if_splits)
  have "failure e" if "server_readFirst entry st = (SrvRet (d, False, Some e), st', us)" for entry
    using that locked second by (auto simp: server_readFirst_def split: prod.splits read_res.splits if_splits)
  then show ?thesis using assms second by (auto simp: server_readMsg_def split: option.splits srv_phase.splits)
qed

lemma finish_locked_jobs:
  assumes "srv_finish_locked L (Some x) i s = Some s'" and "status_faithful L" and "failure x"
    and "m \<in> set (concat (sv_jobs s'))" and "close_eof L j m"
  shows "m \<in> set (concat (sv_jobs s))"
proof -
  obtain st st' fs where x: "finish_locked L (Some x) st = Some (st', fs)" "sv_jobs s' = sv_jobs s @ (if fs = [] then [] else [map (s2c i) fs])"
    using assms(1) by (auto simp: srv_finish_locked_def split: option.splits)
  have "\<not> close_eof L j (s2c i f)" if "f \<in> set fs" for f
    using x(1) that failed_close [OF assms(2,3)]
    by (auto simp: finish_locked_def close_eof_def Let_def split: if_splits)
  then show ?thesis using assms(4,5) unfolding x(2) by (auto split: if_splits)
qed

lemma check_stream_failure: "check_stream svcs closing s f = Inl e \<Longrightarrow> failure e"
  by (auto simp: check_stream_def Let_def errShuttingDown_def errRevisionZero_def errRevision_def errServerWindow_def errMethodName_def
      errNotImplemented_def split: if_splits prod.splits option.splits)

lemma acceptClientFrame_loop:
  "sv_loop (acceptClientFrame f i s) = SrvFinishing j e \<Longrightarrow> sv_loop s = SrvRunning \<Longrightarrow> \<exists>x. e = Some x \<and> failure x"
  by (cases rule: accept_cases [where r = "ss_receiver (the (sv_heap s i))" and m = server_measure and x = "the f"])
     (auto simp: acceptClientFrame_def server_accept_data_def loop_finish_def errServerUnrecognizedFrame_def
       errFlowControlWindowExceeded_def put_server_def Let_def
       split: option.splits ClientToServerFrame.splits prod.splits)

lemma acceptClientFrame_same [simp]:
  "sv_sent (acceptClientFrame f i s) = sv_sent s" "sv_jobs (acceptClientFrame f i s) = sv_jobs s"
  "sv_waiting (acceptClientFrame f i s) = sv_waiting s"
  by (auto simp: acceptClientFrame_def server_accept_data_def loop_finish_def srv_finish_begin_def server_removeStream_def put_server_def Let_def
       split: option.splits ClientToServerFrame.splits prod.splits)

subsection \<open>The steps of the server\<close>

text \<open>Handlers call \<^verbatim>\<open>SendMsg\<close> only until they return.\<close>

fun handler_lawful :: "srv_act \<Rightarrow> tunnelServer \<Rightarrow> bool" where
  "handler_lawful (SSendMsg i b r) s = (\<exists>md. sv_serving s i = Some (Serving md))"
| "handler_lawful _ s = True"

text \<open>A step of one stream that is not shut.\<close>

lemma closing_order_one:
  assumes "closing_order L s" and "errors_real s'" and "\<not> shut s i" and "\<And>j. j \<noteq> i \<Longrightarrow> pcs s' j = pcs s j"
    and "sv_sent s' = sv_sent s @ map (s2c i) fs" and "\<And>f. f \<in> set fs \<Longrightarrow> \<not> is_close (Some f)" and "sv_jobs s' = sv_jobs s"
  shows "closing_order L s'"
proof (rule closing_order_step [OF assms(1,2,5)])
  fix j assume "shut s j"
  then have "j \<noteq> i" using assms(3) by auto
  then show "shut s' j \<and> data_down j (map (s2c i) fs) = []" using assms(4) shut_pcs [of s' j s] \<open>shut s j\<close> by simp
qed (use assms(6,7) close_eof_is_close in force)+

lemma not_shut_serving: "sv_serving s i \<noteq> Some ServeDone \<Longrightarrow> \<not> shut s i"
  by (simp add: shut_def pcs_def)

lemma closing_order_send:
  assumes "closing_order L s" and "server_stream_send (\<lambda>x. x) b r i s = Some (e, s')" and "sv_serving s i \<noteq> Some ServeDone"
  shows "closing_order L s'"
proof -
  obtain st st' fs where st: "sv_heap s i = Some st" "server_SendMsg (\<lambda>x. x) b r st = Some (e, st', fs)"
    "s' = (put_server i st' s)\<lparr>sv_sent := sv_sent s @ map (s2c i) (if r = None then fs else [])\<rparr>"
    using assms(2) by (auto simp: server_stream_send_def split: option.splits)
  show ?thesis
  proof (rule closing_order_one [OF assms(1) _ not_shut_serving [OF assms(3)]])
    show "sv_sent s' = sv_sent s @ map (s2c i) (if r = None then fs else [])" by (simp add: st(3))
    show "errors_real s'" using assms(1) by (simp add: closing_order_def errors_real_def st(3))
  qed (use SendMsg_not_close [OF st(2)] in \<open>auto simp: st(3) pcs_def put_server_def split: if_splits\<close>)
qed

lemma closing_order_send_do:
  assumes "closing_order L s" and "server_stream_send_do a i s = Some s'"
  shows "closing_order L s'"
proof -
  obtain st st' fs where st: "sv_heap s i = Some st" "send_own a" "server_send_do a st = Some (st', fs)"
    "s' = (put_server i st' s)\<lparr>sv_sent := sv_sent s @ map (s2c i) fs\<rparr>"
    using assms(2) by (auto simp: server_stream_send_do_def split: option.splits if_splits)
  have "\<not> send_idle (ss_pc st)"
    using st(2,3) by (cases a; cases "ss_pc st") (auto simp: server_send_do_def sys_init_def)
  then have ns: "\<not> shut s i" using st(1) by (auto simp: shut_def pcs_def)
  show ?thesis
  proof (rule closing_order_one [OF assms(1) _ ns])
    show "sv_sent s' = sv_sent s @ map (s2c i) fs" by (simp add: st(4))
    show "errors_real s'" using assms(1) by (simp add: closing_order_def errors_real_def st(4))
  qed (use send_do_not_close [OF st(3)] in \<open>auto simp: st(4) pcs_def put_server_def\<close>)
qed

lemma errors_real_frame [simp]:
  "errors_real (s\<lparr>sv_serving := x0\<rparr>) = errors_real s" "errors_real (srv_finish_begin e i s) = errors_real s"
  by (auto simp: errors_real_def srv_finish_begin_def server_removeStream_def put_server_def split: option.splits)

lemma finish_begin_same [simp]:
  "sv_sent (srv_finish_begin e i s) = sv_sent s" "sv_jobs (srv_finish_begin e i s) = sv_jobs s"
  by (auto simp: srv_finish_begin_def server_removeStream_def put_server_def split: option.splits)

lemma closing_order_serving:
  assumes "closing_order L s" and "sv_serving s i \<noteq> Some ServeDone" and "p \<noteq> ServeDone"
  shows "closing_order L (s\<lparr>sv_serving := (sv_serving s)(i \<mapsto> p)\<rparr>)"
  by (rule closing_order_one [OF assms(1) _ not_shut_serving [OF assms(2)], where fs = "[]"])
     (use assms(1) in \<open>simp_all add: pcs_def closing_order_def\<close>)

lemma closing_order_defer:
  assumes "closing_order L s" and "sv_serving s i \<noteq> Some ServeDone"
  shows "closing_order L (serve_defer e i s)"
proof -
  have "map_option ss_pc (sv_heap (srv_finish_begin e i s) j) = map_option ss_pc (sv_heap s j)" for j
    using fun_cong [OF pcs_finish_begin [of e i s], of j] by (simp only: pcs_def prod.inject)
  then show ?thesis
    using assms(1) by (intro closing_order_one [OF assms(1) _ not_shut_serving [OF assms(2)], where fs = "[]"])
      (simp_all add: pcs_def serve_defer_def closing_order_def)
qed

lemma closing_order_handler_end:
  assumes "closing_order L s" and "serve_end (\<lambda>x. x) h r i s = Some s'"
  shows "closing_order L s'"
proof -
  obtain md where md: "sv_serving s i = Some (Serving md)"
    using assms(2) by (auto simp: serve_end_def split: option.splits serve_pc.splits)
  then have ns: "sv_serving s i \<noteq> Some ServeDone" by simp
  show ?thesis
  proof (cases "\<exists>b. h = HResp b")
    case True
    then obtain b where h: "h = HResp b" by blast
    then obtain e s1 where s1: "server_stream_send (\<lambda>x. x) b r i s = Some (e, s1)"
        "s' = serve_defer e i s1 \<or> s' = s1\<lparr>sv_serving := (sv_serving s1)(i \<mapsto> ServeSending)\<rparr>"
      using assms(2) by (auto simp: serve_end_def split: option.splits serve_pc.splits method_desc.splits)
    have "sv_serving s1 i \<noteq> Some ServeDone" using s1(1) ns by (auto simp: server_stream_send_def put_server_def split: option.splits)
    then show ?thesis
      using s1(2) closing_order_serving closing_order_defer closing_order_send [OF assms(1) s1(1) ns] by auto
  next
    case False
    then have "\<exists>e. s' = serve_defer e i s"
      using assms(2) md by (auto simp: serve_end_def split: handler_end.splits method_desc.splits)
    then show ?thesis using closing_order_defer [OF assms(1) ns] by auto
  qed
qed

lemma closing_order_sent: "closing_order L s \<Longrightarrow> serve_sent i s = Some s' \<Longrightarrow> closing_order L s'"
  by (auto simp: serve_sent_def intro!: closing_order_defer split: option.splits serve_pc.splits send_pc.splits)

text \<open>The handler's own \<^verbatim>\<open>finishStream\<close> shuts the stream.\<close>

lemma closing_order_finish:
  assumes "closing_order L s" and "serve_finish L i s = Some s'"
  shows "closing_order L s'"
proof -
  obtain err s1 where e: "sv_serving s i = Some (ServeFinishing err)" "srv_finish_locked L err i s = Some s1"
      "s' = s1\<lparr>sv_serving := (sv_serving s)(i \<mapsto> ServeDone)\<rparr>"
    using assms(2) by (auto simp: serve_finish_def split: option.splits serve_pc.splits)
  obtain st st' fs where f: "sv_heap s i = Some st" "finish_locked L err st = Some (st', fs)"
      "s1 = (put_server i st' s)\<lparr>sv_jobs := sv_jobs s @ (if fs = [] then [] else [map (s2c i) fs])\<rparr>"
    using e(2) by (auto simp: srv_finish_locked_def split: option.splits)
  have "send_idle (ss_pc st')" using f(2) by (auto simp: finish_locked_def Let_def split: if_splits)
  then have shut: "shut s' i" by (simp add: shut_def pcs_def e(3) f(3) put_server_def)
  have ns: "\<not> shut s i" using e(1) by (simp add: shut_def pcs_def)
  show ?thesis
  proof (rule closing_order_step [OF assms(1), where new = "[]"])
    show "errors_real s'" using assms(1) by (simp add: closing_order_def errors_real_def e(3) f(3))
    show "sv_sent s' = sv_sent s @ []" by (simp add: e(3) f(3))
    show "shut s' j \<and> data_down j [] = []" if "shut s j" for j
      using that ns shut_pcs [of s' j s] by (cases "j = i") (auto simp: e(3) f(3) pcs_def put_server_def)
    show "m \<in> set (concat (sv_jobs s)) \<or> shut s' j" if "m \<in> set (concat (sv_jobs s'))" "close_eof L j m" for j m
      using that shut by (auto simp: e(3) f(3) close_eof_def split: if_splits)
  qed simp
qed

lemma closing_order_pending:
  assumes "closing_order L s" and "status_faithful L"
  shows "serve_resume L s = Some s' \<Longrightarrow> closing_order L s'" and "recv_finish L s = Some s' \<Longrightarrow> closing_order L s'"
proof -
  have er: "errors_real s" using assms(1) by (simp add: closing_order_def)
  have step: "closing_order L s'" if "srv_finish_locked L (Some x) i s = Some s1" "failure x" "pcs s' = pcs s1" "sv_sent s' = sv_sent s1"
      "sv_jobs s' = sv_jobs s1" "errors_real s'" for x i s1
    using pcs_finish_locked [OF that(1)] finish_locked_jobs [OF that(1) assms(2) that(2)] that(3-6)
    by (intro closing_order_quiet [OF assms(1)] quiet_same) auto
  show "closing_order L s'" if r: "serve_resume L s = Some s'"
  proof -
    obtain i err s1 where x: "sv_loop s = SrvFinishing i err" "srv_finish_locked L err i s = Some s1" "s' = s1\<lparr>sv_loop := SrvRunning\<rparr>"
      using r by (auto simp: serve_resume_def split: srv_loop.splits)
    obtain y where y: "err = Some y" "failure y" using er x(1) unfolding errors_real_def by blast
    show ?thesis
      using x(2,3) y er srv_finish_locked_fields(3) [OF x(2)] by (intro step [of y i s1]) (auto simp: errors_real_def)
  qed
  show "closing_order L s'" if r: "recv_finish L s = Some s'"
  proof -
    obtain i err ws s1 where x: "sv_waiting s = (i, err) # ws" "srv_finish_locked L err i s = Some s1" "s' = s1\<lparr>sv_waiting := ws\<rparr>"
      using r by (auto simp: recv_finish_def split: list.splits)
    obtain y where y: "err = Some y" "failure y" using er x(1) unfolding errors_real_def by fastforce
    have "errors_real s'"
      using er x srv_finish_locked_fields(2) [OF x(2)] by (auto simp: errors_real_def)
    then show ?thesis using x(2,3) y by (intro step [of y i s1]) auto
  qed
qed

lemma closing_order_return: "closing_order L s \<Longrightarrow> closing_order L (serve_return e s)"
  by (rule closing_order_quiet) (auto simp: quiet_def serve_return_def closing_order_def errors_real_def pcs_def option.map_comp comp_def)

lemma closing_order_new:
  assumes "closing_order L s" and "srv_inv s" and "status_faithful L" and "serve_step L svcs closing (Inr m) s = Some s'"
    and "C2S_Frame m = Some (ClientToServer_NewStream f)"
  shows "closing_order L s'"
proof (cases "C2S_StreamId m \<in> sv_streams s \<or> C2S_StreamId m \<le> sv_lastSeen s")
  case True
  then have "\<exists>e. s' = serve_return e s"
    using assms(4,5) by (auto simp: serve_step_def createStream_def split: if_splits)
  then show ?thesis using closing_order_return [OF assms(1)] by blast
next
  case False
  let ?i = "C2S_StreamId m"
  have er: "errors_real s" using assms(1) by (simp add: closing_order_def)
  show ?thesis
  proof (cases "check_stream svcs closing s f")
    case (Inl e)
    then have s': "s' = s\<lparr>sv_lastSeen := ?i, sv_jobs := sv_jobs s @ [[s2c ?i (ServerToClient_CloseStream
        \<lparr>ResponseTrailers = None, Status = Some (fst (FromError L e))\<rparr>)]]\<rparr>"
      using assms(4,5) False by (auto simp: serve_step_def createStream_def Let_def split: if_splits)
    show ?thesis
      by (rule closing_order_quiet [OF assms(1)])
         (use er failed_close [OF assms(3) check_stream_failure [OF Inl]] in \<open>auto simp: s' quiet_def errors_real_def close_eof_def\<close>)
  next
    case (Inr x)
    have none: "sv_heap s ?i = None"
      using assms(2) False by (cases "sv_heap s ?i") (auto simp: srv_inv_def srv_streams_ok_def)
    then have ns: "\<not> shut s ?i" by (simp add: shut_def pcs_def)
    obtain st md where s': "s' = s\<lparr>sv_lastSeen := ?i, sv_heap := (sv_heap s)(?i \<mapsto> st), sv_streams := insert ?i (sv_streams s),
        sv_serving := (sv_serving s)(?i \<mapsto> Serving md)\<rparr>"
      using assms(4,5) False Inr by (cases x) (auto simp: serve_step_def createStream_def Let_def split: if_splits)
    show ?thesis
      by (rule closing_order_one [OF assms(1) _ ns, where fs = "[]"]) (use er in \<open>auto simp: s' pcs_def errors_real_def\<close>)
  qed
qed

lemma closing_order_recv:
  assumes "closing_order L s" and "srv_inv s" and "status_faithful L" and "serve_step L svcs closing inp s = Some s'"
  shows "closing_order L s'"
proof -
  have er: "errors_real s" and run: "sv_loop s = SrvRunning"
    using assms(1,4) by (auto simp: closing_order_def serve_step_def split: if_splits)
  have acc: "closing_order L (acceptClientFrame f i s)" for f i
  proof (rule closing_order_quiet [OF assms(1)])
    show "errors_real (acceptClientFrame f i s)"
      using er acceptClientFrame_loop [OF _ run] by (auto simp: errors_real_def)
  qed (simp_all add: quiet_def)
  show ?thesis
  proof (cases "\<exists>m f. inp = Inr m \<and> C2S_Frame m = Some (ClientToServer_NewStream f)")
    case True
    then show ?thesis using closing_order_new [OF assms(1-3)] assms(4) by blast
  next
    case False
    then show ?thesis
      using assms(1,4) run acc closing_order_return [OF assms(1)]
      by (auto simp: serve_step_def server_getStream_def split: sum.splits option.splits ClientToServerFrame.splits if_splits)
  qed
qed

lemma closing_order_job:
  assumes "closing_order L s" and "server_run_job k r s = Some s'" and "\<And>m. m \<in> set (concat (sv_jobs s)) \<Longrightarrow> down_data (S2C_Frame m) = []"
  shows "closing_order L s'"
proof -
  obtain f fs where k: "k < length (sv_jobs s)" "sv_jobs s ! k = f # fs"
    "s' = s\<lparr>sv_jobs := (sv_jobs s)[k := fs], sv_sent := sv_sent s @ (if r = None then [f] else [])\<rparr>"
    using assms(2) by (auto simp: server_run_job_def split: if_splits list.splits)
  note up = concat_update_Cons [OF k(1,2)]
  have er: "errors_real s" using assms(1) by (simp add: closing_order_def)
  show ?thesis
  proof (rule closing_order_step [OF assms(1), where new = "if r = None then [f] else []"])
    show "shut s' i \<and> data_down i (if r = None then [f] else []) = []" if "shut s i" for i
      using that shut_pcs [of s' i s] assms(3) [of f] up by (auto simp: k(3) simp del: set_concat)
  qed (use er up in \<open>auto simp: k(3) errors_real_def simp del: set_concat split: if_splits\<close>)
qed

lemma closing_order_setHeader:
  assumes "closing_order L s" and "server_stream_setHeader L md b r i s = Some (e, s')"
  shows "closing_order L s'"
proof -
  obtain st st' fs where x: "sv_heap s i = Some st" "setHeader L md b r st = Some (e, st', fs)"
    "s' = (put_server i st' s)\<lparr>sv_sent := sv_sent s @ map (s2c i) (if r = None then fs else [])\<rparr>"
    using assms(2) by (auto simp: server_stream_setHeader_def split: option.splits)
  have "ss_pc st' = ss_pc st" "\<And>f. f \<in> set fs \<Longrightarrow> down_data (Some f) = [] \<and> \<not> is_close (Some f)"
    using x(2) by (auto simp: setHeader_def sendHeadersLocked_def Let_def split: if_splits)
  then have "quiet s s'" using x(1) by (auto simp: quiet_def x(3) split: if_splits)
  then show ?thesis
    by (rule closing_order_quiet [OF assms(1)]) (use assms(1) in \<open>auto simp: x(3) closing_order_def errors_real_def\<close>)
qed

lemma closing_order_RecvMsg:
  assumes "closing_order L s" and "server_stream_RecvMsg ph i s = Some (x, s')"
  shows "closing_order L s'"
proof -
  obtain st where st: "sv_heap s i = Some st"
    using assms(2) by (auto simp: server_stream_RecvMsg_def split: option.splits)
  obtain res st' us where rd: "server_readMsg ph st = (res, st', us)" by (metis prod_cases3)
  let ?s1 = "(put_server i st' s)\<lparr>sv_sent := sv_sent s @ map (s2c i) (server_sendUpdates us st)\<rparr>"
  have er: "errors_real s" using assms(1) by (simp add: closing_order_def)
  have "ss_pc st' = ss_pc st" by (rule server_reads_from_fields(5) [OF server_readMsg_reads [OF rd]])
  then have q: "quiet s ?s1" using st by (auto simp: quiet_def server_sendUpdates_def)
  have s': "s' = ?s1 \<or> (\<exists>e. failure e \<and> s' = (srv_finish_begin (Some e) i ?s1)\<lparr>sv_waiting := sv_waiting s @ [(i, Some e)]\<rparr>)"
  proof (cases "\<exists>d e. res = SrvRet (d, False, Some e)")
    case True
    then obtain d e where e: "res = SrvRet (d, False, Some e)" by blast
    then show ?thesis
      using assms(2) st rd server_readMsg_not_ok [OF rd [unfolded e]] by (auto simp: server_stream_RecvMsg_def Let_def)
  next
    case False
    then show ?thesis
      using assms(2) st rd by (auto simp: server_stream_RecvMsg_def Let_def split: srv_res.splits option.splits if_splits)
  qed
  then have "quiet s s'" using q by (auto simp: quiet_def)
  then show ?thesis
    by (rule closing_order_quiet [OF assms(1)]) (use s' er in \<open>auto simp: errors_real_def\<close>)
qed

lemma closing_order_do:
  assumes "closing_order L s" and "srv_inv s" and "status_faithful L" and "srv_do L svcs a s = Some s'" and "handler_lawful a s"
    and "\<And>m. m \<in> set (concat (sv_jobs s)) \<Longrightarrow> down_data (S2C_Frame m) = []"
  shows "closing_order L s'"
proof -
  have er: "errors_real s" using assms(1) by (simp add: closing_order_def)
  have same: "closing_order L s'" if "pcs s' = pcs s" "sv_sent s' = sv_sent s" "sv_jobs s' = sv_jobs s" "sv_loop s' = sv_loop s"
      "sv_waiting s' = sv_waiting s"
    using that er by (intro closing_order_quiet [OF assms(1)] quiet_same) (auto simp: errors_real_def)
  show ?thesis
  proof (cases a)
    case (SDeadline i)
    then show ?thesis using assms(4) by (intro same) (auto simp: server_ctx_ends_def split: option.splits if_splits)
  next
    case (SWatch i)
    then show ?thesis using assms(4) by (intro same) (auto simp: server_watch_def server_ctx_watch_def split: option.splits if_splits)
  next
    case (SSetTrailer i md)
    then show ?thesis using assms(4) by (intro same) (auto simp: server_stream_setTrailer_def setTrailer_def split: option.splits if_splits)
  next
    case (STunnelCtx e)
    then have s': "s' = tunnel_ctx_ends e s" using assms(4) by simp
    show ?thesis unfolding s' by (intro same [unfolded s'] pcs_all_ctx) (simp_all add: tunnel_ctx_ends_def)
  next
    case (SSendMsg i b r)
    then show ?thesis using assms(4,5) closing_order_send [OF assms(1)] by auto
  qed (use assms(4) closing_order_recv [OF assms(1-3)] closing_order_pending [OF assms(1,3)] closing_order_job [OF assms(1) _ assms(6)]
        closing_order_setHeader [OF assms(1)] closing_order_RecvMsg [OF assms(1)] closing_order_send_do [OF assms(1)]
        closing_order_handler_end [OF assms(1)] closing_order_sent [OF assms(1)] closing_order_finish [OF assms(1)] in \<open>auto\<close>)
qed

end
