(* ===== verification/Closing_Requests.thy ===== *)
theory Closing_Requests
  imports Closing_Order
begin

text \<open>
  The other direction. The client sends the frame that half-closes a stream when no call of \<^verbatim>\<open>SendMsg\<close> is under way, and callers do not send after
  \<^verbatim>\<open>CloseSend\<close>; so a handler whose \<^verbatim>\<open>RecvMsg\<close> returns EOF has read every request, unless its receiver was cancelled.
\<close>

subsection \<open>The client half-closes\<close>

definition half_close :: "i64 \<Rightarrow> ClientToServer \<Rightarrow> bool" where
  "half_close i m \<longleftrightarrow> m = c2s i ClientToServer_HalfClose"

definition marks :: "tunnelChannel \<Rightarrow> i64 \<Rightarrow> (bool \<times> send_pc) option" where
  "marks c i = map_option (\<lambda>st. (cs_halfClosed st, cs_pc st)) (ch_heap c i)"

definition sent_out :: "tunnelChannel \<Rightarrow> i64 \<Rightarrow> bool" where
  "sent_out c i \<longleftrightarrow> (\<exists>pc. marks c i = Some (True, pc) \<and> send_idle pc)"

definition half_order :: "tunnelChannel \<Rightarrow> bool" where
  "half_order c \<longleftrightarrow> (\<forall>i m. m \<in> set (ch_sent c) \<and> half_close i m \<longrightarrow> sent_out c i)
     \<and> (\<forall>i pre m post. ch_sent c = pre @ m # post \<and> half_close i m \<longrightarrow> data_up i post = [])
     \<and> (\<forall>i m. m \<in> set (ch_jobs c) \<longrightarrow> \<not> half_close i m \<and> up_data (C2S_Frame m) = [])"

lemma data_up_part: "data_up i (xs @ ys) = [] \<longleftrightarrow> data_up i xs = [] \<and> data_up i ys = []"
  by simp

lemma half_order_step:
  assumes "half_order c" and "ch_sent c' = ch_sent c @ new" and "\<And>i. sent_out c i \<Longrightarrow> sent_out c' i \<and> data_up i new = []"
    and "\<And>i m. m \<in> set new \<Longrightarrow> half_close i m \<Longrightarrow> new = [m] \<and> sent_out c' i"
    and "\<And>i m. m \<in> set (ch_jobs c') \<Longrightarrow> \<not> half_close i m \<and> up_data (C2S_Frame m) = []"
  shows "half_order c'"
proof -
  have old: "sent_out c i" if "m \<in> set (ch_sent c)" "half_close i m" for i m
    using assms(1) that unfolding half_order_def by blast
  have "sent_out c' i" if "m \<in> set (ch_sent c')" "half_close i m" for i m
    using that old [of m i] assms(3) [of i] assms(4) [of m i] unfolding assms(2) by auto
  moreover have "data_up i post = []" if p: "ch_sent c' = pre @ m # post" "half_close i m" for i pre m post
  proof -
    have eq: "ch_sent c @ new = pre @ m # post" using p(1) assms(2) by simp
    then consider us where "ch_sent c = pre @ m # us" "post = us @ new" | us where "pre = ch_sent c @ us" "new = us @ m # post"
      by (auto simp: append_eq_append_conv2 append_eq_Cons_conv Cons_eq_append_conv)
    then show ?thesis
    proof cases
      case (1 us)
      then have "sent_out c i" "data_up i us = []" using old [of m i] p(2) assms(1) unfolding half_order_def by auto
      then show ?thesis using 1(2) assms(3) by simp
    next
      case (2 us)
      then have "new = [m]" using assms(4) [of m i] p(2) by simp
      then have "post = []" using 2(2) by (cases us) auto
      then show ?thesis by simp
    qed
  qed
  ultimately show ?thesis using assms(5) unfolding half_order_def by blast
qed

text \<open>Steps that send neither data nor a half-close and leave the calls of \<^verbatim>\<open>SendMsg\<close> and \<^verbatim>\<open>CloseSend\<close> alone.\<close>

definition calm :: "tunnelChannel \<Rightarrow> tunnelChannel \<Rightarrow> bool" where
  "calm c c' \<longleftrightarrow> (\<forall>i. marks c i \<noteq> None \<longrightarrow> marks c' i = marks c i)
     \<and> (\<exists>new. ch_sent c' = ch_sent c @ new \<and> (\<forall>i. \<forall>m\<in>set new. \<not> half_close i m \<and> up_data (C2S_Frame m) = []))
     \<and> (\<forall>i. \<forall>m\<in>set (ch_jobs c'). m \<in> set (ch_jobs c) \<or> \<not> half_close i m \<and> up_data (C2S_Frame m) = [])"

lemma half_order_calm:
  assumes "half_order c" and "calm c c'"
  shows "half_order c'"
proof -
  obtain new where new: "ch_sent c' = ch_sent c @ new" "\<And>i m. m \<in> set new \<Longrightarrow> \<not> half_close i m \<and> up_data (C2S_Frame m) = []"
    using assms(2) unfolding calm_def by blast
  show ?thesis
  proof (rule half_order_step [OF assms(1) new(1)])
    show "sent_out c' i \<and> data_up i new = []" if s: "sent_out c i" for i
    proof -
      have "marks c i \<noteq> None" using s by (auto simp: sent_out_def)
      then have "marks c' i = marks c i" using assms(2) by (simp add: calm_def)
      then show ?thesis using s data_none(1) [of new i] new(2) by (simp add: sent_out_def)
    qed
    show "\<not> half_close i m \<and> up_data (C2S_Frame m) = []" if "m \<in> set (ch_jobs c')" for i m
      using that assms unfolding calm_def half_order_def by blast
  qed (use new(2) in blast)
qed

lemma calm_same: "marks c' = marks c \<Longrightarrow> ch_sent c' = ch_sent c \<Longrightarrow> ch_jobs c' = ch_jobs c \<Longrightarrow> calm c c'"
  by (simp add: calm_def)

lemma marks_put [simp]:
  "ch_heap c i = Some st \<Longrightarrow> cs_halfClosed st' = cs_halfClosed st \<Longrightarrow> cs_pc st' = cs_pc st \<Longrightarrow> marks (put_stream i st' c) = marks c"
  by (auto simp: marks_def put_stream_def)

lemma put_stream_kept [simp]: "ch_jobs (put_stream i st c) = ch_jobs c" "ch_sent (put_stream i st c) = ch_sent c"
  by (simp_all add: put_stream_def)

lemma marks_frame [simp]:
  "marks (c\<lparr>ch_mem := x0\<rparr>) = marks c" "marks (c\<lparr>ch_loop := x1\<rparr>) = marks c" "marks (c\<lparr>ch_ctx := x2\<rparr>) = marks c"
  "marks (c\<lparr>ch_sent := x3\<rparr>) = marks c" "marks (c\<lparr>ch_jobs := x4\<rparr>) = marks c" "marks (c\<lparr>ch_streamDone := x5\<rparr>) = marks c"
  "marks (removeStream i c) = marks c"
  by (auto simp: marks_def removeStream_def split: option.splits)

lemma marks_finish [simp]: "marks (snd (finishStream e tr i c)) = marks c"
  by (auto simp: finishStream_def client_finish_def split: option.splits if_splits)

lemma marks_close [simp]: "marks (snd (channel_close e c)) = marks c"
  by (auto simp: channel_close_def Let_def marks_def cancel_ctx_def option.map_comp comp_def split: if_splits)

lemma marks_cancel [simp]: "marks (cancelStream e i c) = marks c"
  using marks_finish [of e None i c]
  by (cases "finishStream e None i c") (auto simp: cancelStream_def split: bool.splits option.splits)

lemma calm_cancel: "calm c (cancelStream e i c)"
proof -
  obtain b d where f: "finishStream e None i c = (b, d)" by fastforce
  have "ch_sent d = ch_sent c" "ch_jobs d = ch_jobs c"
    using wire_view_finishStream [of e None i c] f by (simp_all add: wire_view_def)
  then have "ch_sent (cancelStream e i c) = ch_sent c"
      "set (ch_jobs (cancelStream e i c)) \<subseteq> insert (c2s i ClientToServer_Cancel) (set (ch_jobs c))"
    using f by (auto simp: cancelStream_def put_stream_def split: bool.splits option.splits)
  then show ?thesis by (auto simp: calm_def half_close_def)
qed

lemma marks_accept_data [simp]: "marks (accept_data f i c) = marks c"
  by (auto simp: accept_data_def Let_def split: option.splits prod.splits)

lemma marks_acceptServerFrame [simp]: "marks (acceptServerFrame L f i c) = marks c"
  by (cases "(L, f, i, c)" rule: acceptServerFrame.cases) (auto simp: client_gotHeaders_def split: option.splits if_splits)

lemma marks_recv_exit [simp]: "marks (snd (recv_exit e c)) = marks c"
  using marks_close [of e c] by (simp add: recv_exit_def marks_def)

lemma marks_recvLoop:
  assumes "recvLoop L inp c = Some c'"
  shows "marks c' = marks c"
proof -
  have set: "marks (snd (accept_settings stg c)) = marks c" for stg
    using marks_recv_exit by (auto simp: accept_settings_def Let_def marks_def split: prod.splits)
  have "marks (snd (recvLoop_start L inp c)) = marks c"
    using set by (simp add: recvLoop_start_def Let_def split: sum.splits option.splits ServerToClientFrame.splits)
  moreover have "marks (snd (recvLoop_step L inp c)) = marks c"
    by (simp add: recvLoop_step_def split: sum.splits option.splits)
  ultimately show ?thesis using assms by (auto simp: recvLoop_def split: loop_pc.splits prod.splits)
qed

lemma calm_recvLoop: "recvLoop L inp c = Some c' \<Longrightarrow> calm c c'"
  using marks_recvLoop [of L inp c c'] wire_view_recvLoop [of L inp c c'] by (intro calm_same) (simp_all add: wire_view_def)

lemma calm_new:
  assumes "chan_inv c"
  shows "calm c (snd (newStream L a r c))"
proof -
  obtain res c1 where al: "allocateStream L a c = (res, c1)" by fastforce
  have c1: "ch_sent c1 = ch_sent c" "ch_jobs c1 = ch_jobs c" "\<And>i. marks c i \<noteq> None \<Longrightarrow> marks c1 i = marks c i"
  proof -
    have "ch_sent c1 = ch_sent c \<and> ch_jobs c1 = ch_jobs c \<and> (\<forall>i. marks c i \<noteq> None \<longrightarrow> marks c1 i = marks c i)"
    proof (cases "ch_finished c \<or> ch_lastStreamID c < 0")
      case True
      then have "c1 = c" using allocateStream_refused [OF True, of L a] al by auto
      then show ?thesis by simp
    next
      case False
      then have c: "\<not> ch_finished c" "0 \<le> ch_lastStreamID c" by simp_all
      have none: "ch_heap c (fresh_id c) = None" using assms ids_ok_fresh(1) [OF _ c(2)] by (simp add: chan_inv_def)
      have "ch_sent c1 = ch_sent c" "ch_jobs c1 = ch_jobs c" "ch_heap c1 = ch_heap c \<or> (\<exists>st. ch_heap c1 = (ch_heap c)(fresh_id c \<mapsto> st))"
        using al c by (auto simp: allocateStream_def Let_def fresh_id_def split: option.splits opts_res.splits prod.splits if_splits)
      then show ?thesis using none by (auto simp: marks_def)
    qed
    then show "ch_sent c1 = ch_sent c" "ch_jobs c1 = ch_jobs c" "\<And>i. marks c i \<noteq> None \<Longrightarrow> marks c1 i = marks c i" by simp_all
  qed
  have "calm c c1" using c1 by (auto simp: calm_def)
  moreover have "calm c (c1\<lparr>ch_sent := ch_sent c @ [c2s i (newStream_frame a md c1)], ch_watched := ws\<rparr>)" for i md ws
    using c1(2,3) by (auto simp: calm_def marks_def half_close_def newStream_frame_def)
  moreover have "ch_sent (removeStream i c1) = ch_sent c" "ch_jobs (removeStream i c1) = ch_jobs c" for i
    using c1 by (simp_all add: removeStream_def split: option.splits)
  then have "calm c (removeStream i c1)" for i using c1(3) by (auto simp: calm_def)
  ultimately show ?thesis
    using al c1(1) by (auto simp: newStream_def split: alloc_res.splits option.splits)
qed

lemma calm_RecvMsg:
  assumes "stream_RecvMsg ph i c = Some (x, c')"
  shows "calm c c'"
proof -
  obtain st where st: "ch_heap c i = Some st"
    using assms by (auto simp: stream_RecvMsg_def split: option.splits)
  obtain res st' us where rd: "client_readMsg (fst (tunnelRoles (ch_reverse c))) ph st = (res, st', us)" by (metis prod_cases3)
  let ?c1 = "(put_stream i st' c)\<lparr>ch_sent := ch_sent c @ map (c2s i) (client_sendUpdates us st)\<rparr>"
  have "cs_halfClosed st' = cs_halfClosed st" "cs_pc st' = cs_pc st"
    using client_readMsg_reads [OF rd] by (cases st; cases st'; simp add: reads_from_def)+
  then have "marks ?c1 = marks c" using st by simp
  then have c1: "calm c ?c1" by (auto simp: calm_def client_sendUpdates_def half_close_def)
  have "c' = ?c1 \<or> (\<exists>e. c' = cancelStream e i ?c1)"
    using assms st rd by (auto simp: stream_RecvMsg_def Let_def split: msg_res.splits option.splits if_splits)
  then show ?thesis
  proof
    assume "\<exists>e. c' = cancelStream e i ?c1"
    then obtain e where "c' = cancelStream e i ?c1" by blast
    then have "calm ?c1 c'" using calm_cancel by simp
    then show ?thesis using c1 unfolding calm_def by (auto; metis)
  qed (use c1 in simp)
qed

text \<open>Callers do not send once they have closed their side.\<close>

fun caller_lawful :: "chan_act \<Rightarrow> tunnelChannel \<Rightarrow> bool" where
  "caller_lawful (ActSendMsg i b) c = (\<forall>st. ch_heap c i = Some st \<longrightarrow> \<not> cs_halfClosed st)"
| "caller_lawful _ c = True"

lemma half_order_put:
  assumes "half_order c" and "ch_heap c i = Some st" and "\<not> (cs_halfClosed st \<and> send_idle (cs_pc st))"
    and "c' = (put_stream i st' c)\<lparr>ch_sent := ch_sent c @ map (c2s i) fs\<rparr>"
    and "\<And>f. f \<in> set fs \<Longrightarrow> f = ClientToServer_HalfClose \<Longrightarrow> fs = [f] \<and> cs_halfClosed st' \<and> send_idle (cs_pc st')"
  shows "half_order c'"
proof (rule half_order_step [OF assms(1), where new = "map (c2s i) fs"])
  show "ch_sent c' = ch_sent c @ map (c2s i) fs" by (simp add: assms(4))
  show "sent_out c' j \<and> data_up j (map (c2s i) fs) = []" if "sent_out c j" for j
    using that assms(2-4) by (cases "j = i") (auto simp: sent_out_def marks_def put_stream_def)
  show "map (c2s i) fs = [m] \<and> sent_out c' j" if "m \<in> set (map (c2s i) fs)" "half_close j m" for j m
  proof -
    have "ClientToServer_HalfClose \<in> set fs" "j = i" "m = c2s i ClientToServer_HalfClose" using that by (auto simp: half_close_def)
    then show ?thesis using assms(4) assms(5) [of ClientToServer_HalfClose] by (auto simp: sent_out_def marks_def put_stream_def)
  qed
qed (use assms(1,4) in \<open>auto simp: half_order_def put_stream_def\<close>)

lemma half_order_send:
  assumes "half_order c" and "stream_send_do b i c = Some c'"
  shows "half_order c'"
proof -
  obtain st st' fs where st: "ch_heap c i = Some st" "send_own b" "client_send_do b st = Some (st', fs)"
      "c' = (put_stream i st' c)\<lparr>ch_sent := ch_sent c @ map (c2s i) fs\<rparr>"
    using assms(2) by (auto simp: stream_send_do_def split: option.splits if_splits)
  have "\<not> send_idle (cs_pc st)"
    using st(2,3) by (cases b; cases "cs_pc st") (auto simp: client_send_do_def sys_init_def)
  moreover have "f \<noteq> ClientToServer_HalfClose" if "f \<in> set fs" for f
    using st(3) that by (auto simp: client_send_do_def client_sendData_def simp del: sys_do.simps split: option.splits if_splits)
  ultimately show ?thesis by (intro half_order_put [OF assms(1) st(1) _ st(4)]) auto
qed

lemma half_order_CloseSend:
  assumes "half_order c" and "stream_CloseSend r i c = Some (e, c')"
  shows "half_order c'"
proof -
  obtain st st' fs where x: "ch_heap c i = Some st" "client_CloseSend r st = Some (e, st', fs)"
      "c' = (put_stream i st' c)\<lparr>ch_sent := ch_sent c @ map (c2s i) (if r = None then fs else [])\<rparr>"
    using assms(2) by (auto simp: stream_CloseSend_def split: option.splits)
  show ?thesis
  proof (cases "st' = st")
    case True
    have "fs = [] \<or> cs_halfClosed st' \<noteq> cs_halfClosed st" using x(2) by (auto simp: client_CloseSend_def split: if_splits)
    then have "fs = []" using True by simp
    then have "c' = c" using x(1,3) True by (cases c) (auto simp: put_stream_def fun_upd_idem)
    then show ?thesis using assms(1) by simp
  next
    case False
    then have y: "\<not> cs_halfClosed st" "fs = [ClientToServer_HalfClose]" "cs_halfClosed st'" "send_idle (cs_pc st')"
      using x(2) by (auto simp: client_CloseSend_def split: if_splits)
    have "\<not> (cs_halfClosed st \<and> send_idle (cs_pc st))" using y(1) by simp
    then show ?thesis by (rule half_order_put [OF assms(1) x(1) _ x(3)]) (use y(2-4) in \<open>simp split: if_splits\<close>)
  qed
qed

lemma half_order_do:
  assumes "half_order c" and "chan_inv c" and "chan_do L a c = Some c'" and "caller_lawful a c"
  shows "half_order c'"
proof (cases a)
  case (ActSendMsg i b)
  then obtain e st st' where st: "ch_heap c i = Some st" "client_SendMsg (\<lambda>_. b) () st = Some (e, st')" "c' = put_stream i st' c"
    using assms(3) by (auto simp: stream_SendMsg_def split: option.splits)
  then show ?thesis
    using assms(4) ActSendMsg by (intro half_order_put [OF assms(1) st(1), where fs = "[]"]) (auto simp: put_stream_def)
next
  case (ActJob r)
  then obtain j js where j: "ch_jobs c = j # js" "c' = c\<lparr>ch_jobs := js, ch_sent := ch_sent c @ (if r = None then [j] else [])\<rparr>"
    using assms(3) by (auto simp: run_job_def split: list.splits)
  have "calm c c'" using j assms(1) by (auto simp: calm_def half_order_def)
  then show ?thesis by (rule half_order_calm [OF assms(1)])
next
  case (ActStreamCtx i e)
  then have "calm c c'" using assms(3) by (auto simp: end_stream_ctx_def put_stream_def [of _ _ c] marks_def intro!: calm_same split: option.splits)
  then show ?thesis by (rule half_order_calm [OF assms(1)])
next
  case (ActClose e)
  then have "calm c c'" using assms(3) wire_view_close [of e c] by (intro calm_same) (auto simp: wire_view_def)
  then show ?thesis by (rule half_order_calm [OF assms(1)])
next
  case (ActTunnelCtx e)
  then have "calm c c'" using assms(3) by (intro calm_same) auto
  then show ?thesis by (rule half_order_calm [OF assms(1)])
qed (use assms(3) half_order_calm [OF assms(1)] half_order_send [OF assms(1)] half_order_CloseSend [OF assms(1)] calm_recvLoop
      calm_new [OF assms(2)] calm_cancel calm_RecvMsg in \<open>auto simp: watchStream_def split: option.splits if_splits\<close>)

subsection \<open>The handler reads the end\<close>

definition all_up :: "ClientToServerFrame list \<Rightarrow> bytes list \<Rightarrow> bool" where
  "all_up inp got \<longleftrightarrow> (\<exists>k b. parse server_switch inp = (got, Reading k b))"

lemma server_loop_eof:
  assumes "server_read_loop c hc h k b r = (RdRet (d, ok, Some EOF), r', us)" and "plain_ctx c" and "\<not> rcv_cancelled r"
  shows "hc = Some EOF \<and> ok
    \<and> (reader_ok server_switch inp True (rcv_items r) None got (xs, k, b) \<longrightarrow> all_up inp (got @ xs))"
  using assms(1,3)
proof (induction "length (rcv_items r)" arbitrary: h k b r us rule: less_induct)
  case less
  have past: "\<not> (h \<and> c \<noteq> None)"
    using less.prems(1) assms(2) by (auto simp: server_read_loop.simps [of c hc h k b r] plain_ctx_def split: if_splits)
  obtain x r1 where deq: "dequeue server_measure r = (x, r1)" by (cases "dequeue server_measure r")
  note run = less.prems(1) [unfolded server_read_loop_past [OF past]]
  show ?case
  proof (cases x)
    case DeqEnd
    have "rcv_items r = []"
      using deq DeqEnd less.prems(2) by (cases rule: dequeue_cases [where r = r and m = server_measure]) auto
    then have "reader_ok server_switch inp True (rcv_items r) None got (xs, k, b) \<longrightarrow> all_up inp (got @ xs)"
      using reader_ok_all [of server_switch inp got "(xs, k, b)"] by (auto simp: all_up_def)
    then show ?thesis using run deq DeqEnd by auto
  next
    case (DeqItem f u)
    have items: "rcv_items r = f # rcv_items r1" using deq DeqItem by (simp add: dequeue_item_front)
    show ?thesis
    proof (cases "server_switch k b f")
      case (Inl ret)
      then show ?thesis using run deq DeqItem server_switch_failure [of k b f d ok EOF] by (auto simp: failure_def)
    next
      case (Inr kb)
      obtain k' b' where kb: "kb = (k', b')" by fastforce
      obtain us' where rec: "server_read_loop c hc True k' b' r1 = (RdRet (d, ok, Some EOF), r', us')"
        using run deq DeqItem Inr kb by (auto simp: then_read_def split: prod.splits)
      have "reader_ok server_switch inp True (rcv_items r1) None got (xs, k', b')"
        if "reader_ok server_switch inp True (rcv_items r) None got (xs, k, b)"
        by (rule reader_ok_take(1) [where sw = server_switch and f = f]) (use that items Inr kb in simp_all)
      then show ?thesis using less.hyps [OF _ rec] items less.prems(2) dequeue_flags [OF deq] by simp
    qed
  qed (use run deq in auto)
qed

lemma server_locked_eof:
  assumes "server_readMsgLocked entry st = (RdRet (d, ok, Some EOF), st', us)" and "ss_readErr st = None"
    and "entered entry None k b" and "plain_ctx (ss_ctx st)" and "\<not> rcv_cancelled (ss_receiver st)"
  shows "ss_halfClosed st = Some EOF \<and> ok \<and>
    (reader_ok server_switch inp True (rcv_items (ss_receiver st)) None got (xs, k, b) \<longrightarrow> all_up inp (got @ xs))"
proof -
  have kb: "(case entry of None \<Rightarrow> (-1, []) | Some e \<Rightarrow> e) = (k, b)" using assms(3) by (auto simp: entered_def split: if_splits)
  obtain res r us' where lp: "server_read_loop (ss_ctx st) (ss_halfClosed st) (entry = None) k b (ss_receiver st) = (res, r, us')"
    by (metis prod_cases3)
  then have "res = RdRet (d, ok, Some EOF)"
    using assms(1,2) kb by (auto simp: server_readMsgLocked_def Let_def split: read_res.splits option.splits prod.splits)
  then show ?thesis using server_loop_eof [OF lp [unfolded \<open>res = _\<close>] assms(4,5)] by blast
qed

fun handed :: "bytes list \<Rightarrow> srv_res \<Rightarrow> bytes list" where
  "handed got (SrvRet (d, ok, None)) = got @ [d]"
| "handed got _ = got"

lemma server_second_eof:
  assumes "server_readSecond d entry st = (res, st', us)" and "ss_readErr st = None" and "ss_readErr st' = Some EOF"
    and "entered entry None k b" and "plain_ctx (ss_ctx st)" and "\<not> rcv_cancelled (ss_receiver st)"
  shows "ss_halfClosed st = Some EOF \<and>
    (reader_ok server_switch inp True (rcv_items (ss_receiver st)) None got ([d], k, b) \<longrightarrow> all_up inp (handed got res))"
proof -
  obtain res1 st1 us1 where lk: "server_readMsgLocked entry st = (res1, st1, us1)" by (metis prod_cases3)
  have err: "ss_readErr st1 = read_err res1"
    using lk assms(2) by (auto simp: server_readMsgLocked_def Let_def split: read_res.splits option.splits prod.splits)
  have "read_err res1 = Some EOF"
    using assms(1,3) lk err
    by (auto simp: server_readSecond_def errMultipleRequests_def Let_def split: read_res.splits option.splits if_splits)
  then obtain d' ok where res1: "res1 = RdRet (d', ok, Some EOF)" by (cases res1 rule: read_err.cases) auto
  note eof = server_locked_eof [OF lk [unfolded res1] assms(2,4-6), of inp got "[d]"]
  then have "res = SrvRet (d, True, None)" using assms(1) lk res1 by (auto simp: server_readSecond_def)
  then show ?thesis using eof by simp
qed

lemma server_first_eof:
  assumes "server_readFirst entry st = (res, st', us)" and "ss_readErr st = None" and "ss_readErr st' = Some EOF"
    and "entered entry None k b" and "plain_ctx (ss_ctx st)" and "\<not> rcv_cancelled (ss_receiver st)" and "server_stream_ok W st"
  shows "ss_halfClosed st = Some EOF \<and>
    (reader_ok server_switch inp True (rcv_items (ss_receiver st)) None got ([], k, b) \<longrightarrow> all_up inp (handed got res))"
proof -
  obtain res1 st1 us1 where lk: "server_readMsgLocked entry st = (res1, st1, us1)" by (metis prod_cases3)
  have err: "ss_readErr st1 = read_err res1"
    using lk assms(2) by (auto simp: server_readMsgLocked_def Let_def split: read_res.splits option.splits prod.splits)
  show ?thesis
  proof (cases "\<exists>d g. res1 = RdRet (d, g, None) \<and> \<not> ss_isClientStream st")
    case True
    then obtain d g where d: "res1 = RdRet (d, g, None)" by blast
    then obtain us' where sec: "server_readSecond d None st1 = (res, st', us')"
      using assms(1) lk True by (auto simp: server_readFirst_def split: prod.splits)
    have same: "ss_halfClosed st1 = ss_halfClosed st" "plain_ctx (ss_ctx st1)" "\<not> rcv_cancelled (ss_receiver st1)" "ss_readErr st1 = None"
      using server_reads_from_fields [OF server_readMsgLocked_reads [OF lk]] server_locked_cancelled [OF lk] assms(5,6) err d by simp_all
    have "reader_ok server_switch inp True (rcv_items (ss_receiver st1)) None got ([d], -1, [])"
      if "reader_ok server_switch inp True (rcv_items (ss_receiver st)) None got ([], k, b)"
      using server_locked_read [OF lk assms(7,6), of k b inp True got "[]"] that assms(2,4) d unfolding loop_read_def by simp
    moreover have "entered None None (-1) []" by (simp add: entered_def)
    ultimately show ?thesis using server_second_eof [OF sec same(4) assms(3) _ same(2,3), of "-1" "[]" inp got] unfolding same(1) by blast
  next
    case False
    then have st': "st' = st1" "res = (case res1 of RdBlock k b \<Rightarrow> SrvBlock (SrvFirst k b) | RdRet ret \<Rightarrow> SrvRet ret)"
      using assms(1) lk by (auto simp: server_readFirst_def split: read_res.splits)
    then obtain d' ok where res1: "res1 = RdRet (d', ok, Some EOF)" using err assms(3) by (cases res1 rule: read_err.cases) auto
    then show ?thesis using server_locked_eof [OF lk [unfolded res1] assms(2,4-6), of inp got "[]"] st'(2) by simp
  qed
qed

lemma server_msg_eof:
  assumes "server_readMsg ph st = (res, st', us)" and "ss_readErr st = None" and "ss_readErr st' = Some EOF"
    and "plain_ctx (ss_ctx st)" and "\<not> rcv_cancelled (ss_receiver st)" and "server_stream_ok W st"
  shows "ss_halfClosed st = Some EOF \<and>
    (reader_ok server_switch inp True (rcv_items (ss_receiver st)) None got (server_at ph) \<longrightarrow> all_up inp (handed got res))"
  using assms(1) server_first_eof [OF _ assms(2,3) _ assms(4-6)] server_second_eof [OF _ assms(2,3) _ assms(4,5)]
  by (auto simp: server_readMsg_def entered_def split: option.splits srv_phase.splits)

lemma server_msg_err_stays:
  assumes "server_readMsg None st = (res, st', us)" and "ss_readErr st = Some e"
  shows "ss_readErr st' = Some e \<and> ss_receiver st' = ss_receiver st \<and> handed got res = got"
  using assms by (auto simp: server_readMsg_def server_readFirst_def server_readMsgLocked_def)

end
