(* ===== verification/Request_Ends.thy ===== *)
theory Request_Ends
  imports Closing_Requests
begin

text \<open>
  The handler's end of the requests: while the handler runs and its receiver is not cancelled, a stream that was half-closed without an error has lost
  nothing, and a read that returned EOF was the last. Every step of the server keeps this.
\<close>

definition serving :: "tunnelServer \<Rightarrow> i64 \<Rightarrow> bool" where
  "serving s i \<longleftrightarrow> (\<exists>md. sv_serving s i = Some (Serving md))"

definition clean_request :: "ClientToServer list \<Rightarrow> i64 \<Rightarrow> bool \<Rightarrow> tunnelServerStream \<Rightarrow> srv_phase rpc_log \<Rightarrow> bool" where
  "clean_request inp i on st lg \<longleftrightarrow> plain_ctx (ss_ctx st) \<and> (on \<and> \<not> rcv_cancelled (ss_receiver st) \<longrightarrow>
     (ss_readErr st = Some EOF \<longrightarrow> ss_halfClosed st = Some EOF)
     \<and> (ss_halfClosed st = Some EOF \<longrightarrow> (\<exists>m\<in>set inp. half_close i m)
          \<and> reader_ok server_switch (data_up i inp) True (rcv_items (ss_receiver st)) (ss_readErr st) (lg_got lg i) (server_at (lg_at lg i))
          \<and> (ss_readErr st = Some EOF \<longrightarrow> all_up (data_up i inp) (lg_got lg i))))"

definition clean_server :: "ClientToServer list \<Rightarrow> tunnelServer \<Rightarrow> srv_phase rpc_log \<Rightarrow> bool" where
  "clean_server inp s lg \<longleftrightarrow> plain_ctx (sv_ctx s) \<and> (\<forall>i st. sv_heap s i = Some st \<longrightarrow> clean_request inp i (serving s i) st lg)"

subsection \<open>Steps that neither half-close nor read\<close>

definition ss_stays :: "tunnelServerStream \<Rightarrow> tunnelServerStream \<Rightarrow> bool" where
  "ss_stays st st' \<longleftrightarrow> ss_readErr st' = ss_readErr st \<and> (plain_ctx (ss_ctx st) \<longrightarrow> plain_ctx (ss_ctx st'))
     \<and> (rcv_cancelled (ss_receiver st) \<longrightarrow> rcv_cancelled (ss_receiver st'))
     \<and> (ss_halfClosed st' = Some EOF \<longleftrightarrow> ss_halfClosed st = Some EOF)
     \<and> (ss_halfClosed st = Some EOF \<and> \<not> rcv_cancelled (ss_receiver st') \<longrightarrow> rcv_items (ss_receiver st') = rcv_items (ss_receiver st))"

definition ss_blank :: "tunnelServerStream \<Rightarrow> bool" where
  "ss_blank st \<longleftrightarrow> ss_readErr st = None \<and> ss_halfClosed st = None \<and> plain_ctx (ss_ctx st)"

definition server_stays :: "tunnelServer \<Rightarrow> tunnelServer \<Rightarrow> bool" where
  "server_stays s s' \<longleftrightarrow> (plain_ctx (sv_ctx s) \<longrightarrow> plain_ctx (sv_ctx s'))
     \<and> (\<forall>i st'. sv_heap s' i = Some st' \<longrightarrow> (plain_ctx (sv_ctx s) \<longrightarrow> ss_blank st') \<or> (\<exists>st. sv_heap s i = Some st
          \<and> (plain_ctx (ss_ctx st) \<longrightarrow> plain_ctx (ss_ctx st')) \<and> (serving s' i \<longrightarrow> serving s i \<and> ss_stays st st')))"

lemma clean_server_stays:
  assumes "clean_server inp s lg" and "server_stays s s'" and "lg_got lg' = lg_got lg" and "lg_at lg' = lg_at lg"
    and "set inp \<subseteq> set inp'"
    and "\<And>i st. sv_heap s i = Some st \<Longrightarrow> serving s i \<Longrightarrow> ss_halfClosed st = Some EOF \<Longrightarrow> \<not> rcv_cancelled (ss_receiver st)
      \<Longrightarrow> data_up i inp' = data_up i inp"
  shows "clean_server inp' s' lg'"
proof -
  have pl: "plain_ctx (sv_ctx s)" using assms(1) by (simp add: clean_server_def)
  have "clean_request inp' i (serving s' i) st' lg'" if st': "sv_heap s' i = Some st'" for i st'
  proof -
    consider "ss_blank st'" | st where "sv_heap s i = Some st" "plain_ctx (ss_ctx st) \<longrightarrow> plain_ctx (ss_ctx st')"
        "serving s' i \<longrightarrow> serving s i \<and> ss_stays st st'"
      using assms(2) st' pl unfolding server_stays_def by blast
    then show ?thesis
    proof cases
      case (2 st)
      then have "clean_request inp i (serving s i) st lg" using assms(1) by (simp add: clean_server_def)
      then show ?thesis
        using 2(2,3) assms(3-5) assms(6) [OF 2(1)] by (auto simp: clean_request_def ss_stays_def)
    qed (simp add: clean_request_def ss_blank_def)
  qed
  then show ?thesis using assms(2) pl by (simp add: clean_server_def server_stays_def)
qed

lemma ss_stays_refl [simp]: "ss_stays st st"
  by (simp add: ss_stays_def)

lemma ss_stays_plain: "ss_stays st st' \<Longrightarrow> plain_ctx (ss_ctx st) \<longrightarrow> plain_ctx (ss_ctx st')"
  by (simp add: ss_stays_def)

lemma server_stays_put:
  assumes "sv_heap s' = (sv_heap s)(i \<mapsto> st')" and "sv_heap s i = Some st" and "ss_stays st st'" and "sv_ctx s' = sv_ctx s"
    and "\<And>j. serving s' j \<Longrightarrow> serving s j"
  shows "server_stays s s'"
  using assms ss_stays_plain [OF assms(3)] by (auto simp: server_stays_def)

lemma server_stays_heap:
  "sv_heap s' = sv_heap s \<Longrightarrow> sv_ctx s' = sv_ctx s \<Longrightarrow> (\<And>j. serving s' j \<Longrightarrow> serving s j) \<Longrightarrow> server_stays s s'"
  by (auto simp: server_stays_def)

lemma serving_frame [simp]:
  "serving (s\<lparr>sv_loop := x0\<rparr>) = serving s" "serving (s\<lparr>sv_waiting := x1\<rparr>) = serving s" "serving (s\<lparr>sv_ctx := x2\<rparr>) = serving s"
  "serving (s\<lparr>sv_jobs := x3\<rparr>) = serving s" "serving (s\<lparr>sv_streams := x4\<rparr>) = serving s" "serving (s\<lparr>sv_sent := x5\<rparr>) = serving s"
  "serving (s\<lparr>sv_heap := x6\<rparr>) = serving s" "serving (put_server i st s) = serving s" "serving (s\<lparr>sv_lastSeen := x7\<rparr>) = serving s"
  by (auto simp: serving_def put_server_def)

lemma server_stays_refl [simp]: "server_stays s s"
  by (rule server_stays_heap) simp_all

lemma server_stays_frame [simp]:
  "server_stays s (s'\<lparr>sv_loop := x0\<rparr>) = server_stays s s'" "server_stays s (s'\<lparr>sv_waiting := x1\<rparr>) = server_stays s s'"
  "server_stays s (s'\<lparr>sv_jobs := x2\<rparr>) = server_stays s s'" "server_stays s (s'\<lparr>sv_sent := x3\<rparr>) = server_stays s s'"
  "server_stays s (s'\<lparr>sv_lastSeen := x4\<rparr>) = server_stays s s'"
  by (simp_all add: server_stays_def)

lemma ss_stays_finish_begin: "e \<noteq> EOF \<Longrightarrow> ss_stays st (finish_begin (Some e) st)"
  by (auto simp: ss_stays_def finish_begin_def halfClose_def halfClose_err_def)

lemma server_stays_finish_begin:
  assumes "e \<noteq> EOF"
  shows "server_stays s (srv_finish_begin (Some e) i s)"
proof (cases "sv_heap s i")
  case None
  then show ?thesis by (simp add: srv_finish_begin_def server_stays_heap)
next
  case (Some st)
  show ?thesis
    by (rule server_stays_put [OF _ Some ss_stays_finish_begin [OF assms]])
       (simp_all add: srv_finish_begin_def Some server_removeStream_def put_server_def)
qed

lemma server_stays_loop_finish: "e \<noteq> EOF \<Longrightarrow> server_stays s (loop_finish (Some e) i s)"
  using server_stays_finish_begin [of e s i] by (simp add: loop_finish_def)

text \<open>When the handler has ended nothing is asked of its stream any more.\<close>

lemma server_stays_serve_defer: "server_stays s (serve_defer e i s)"
  by (auto simp: serve_defer_def srv_finish_begin_def server_removeStream_def put_server_def finish_begin_def halfClose_def
      server_stays_def serving_def split: option.splits)

lemma server_stays_finish_locked:
  assumes "srv_finish_locked L e i s = Some s'"
  shows "server_stays s s' \<and> sv_serving s' = sv_serving s"
proof -
  obtain st st' fs where x: "sv_heap s i = Some st" "finish_locked L e st = Some (st', fs)"
    "s' = (put_server i st' s)\<lparr>sv_jobs := sv_jobs s @ (if fs = [] then [] else [map (s2c i) fs])\<rparr>"
    using assms by (auto simp: srv_finish_locked_def split: option.splits)
  have "ss_stays st st'" using x(2) by (auto simp: finish_locked_def Let_def ss_stays_def split: if_splits)
  then show ?thesis by (intro conjI server_stays_put [OF _ x(1)]) (auto simp: x(3) put_server_def serving_def)
qed

lemma server_stays_all_ctx:
  assumes "e \<in> {CtxCanceled, CtxDeadlineExceeded}"
  shows "server_stays s (tunnel_ctx_ends e s)"
  using assms plain_ctx_end [OF _ assms] by (auto simp: tunnel_ctx_ends_def server_stays_def ss_stays_def serving_def)

lemma server_stays_return: "server_stays s (serve_return e s)"
  using server_stays_all_ctx [of CtxCanceled s] by (simp add: serve_return_eq server_stays_def)

lemma server_stays_send:
  assumes "server_stream_send (\<lambda>x. x) b r i s = Some (e, s')"
  shows "server_stays s s' \<and> sv_serving s' = sv_serving s"
proof -
  obtain st st' fs where st: "sv_heap s i = Some st" "server_SendMsg (\<lambda>x. x) b r st = Some (e, st', fs)"
    "s' = (put_server i st' s)\<lparr>sv_sent := sv_sent s @ map (s2c i) (if r = None then fs else [])\<rparr>"
    using assms by (auto simp: server_stream_send_def split: option.splits)
  have "ss_stays st st'"
    using st(2) by (auto simp: server_SendMsg_def sendHeadersLocked_def ss_stays_def Let_def split: if_splits option.splits sum.splits)
  then show ?thesis by (intro conjI server_stays_put [OF _ st(1)]) (auto simp: st(3) put_server_def serving_def)
qed

subsection \<open>Reading\<close>

lemma log_read_at:
  "lg_got (log_read i res lg) i = handed (lg_got lg i) res"
  "lg_at (log_read i res lg) i = (case res of SrvBlock ph \<Rightarrow> Some ph | SrvRet ret \<Rightarrow> None)"
  by (cases "(lg_got lg i, res)" rule: handed.cases; simp add: log_read_def log_waits_def log_gets_def)+

lemma clean_request_read:
  assumes "clean_request inp i on st lg" and "server_stream_ok W st" and "server_readMsg (lg_at lg i) st = (res, st', us)"
    and "\<not> rcv_cancelled (ss_receiver st) \<longrightarrow> lg_at lg i \<noteq> None \<longrightarrow> ss_readErr st = None"
  shows "clean_request inp i on st' (log_read i res lg)"
proof -
  let ?lg = "log_read i res lg"
  note fl = server_reads_from_fields [OF server_readMsg_reads [OF assms(3)]] server_readMsg_cancelled [OF assms(3)]
  have pl: "plain_ctx (ss_ctx st)" using assms(1) by (simp add: clean_request_def)
  have rd: "reader_ok server_switch (data_up i inp) True (rcv_items (ss_receiver st')) (ss_readErr st') (lg_got ?lg i) (server_at (lg_at ?lg i))"
    if "on" "\<not> rcv_cancelled (ss_receiver st)" "ss_halfClosed st = Some EOF"
  proof -
    have "server_read (data_up i inp) True st' (lg_got lg i) res"
      by (rule server_msg_read [OF assms(3,2)]) (use assms(1,4) that in \<open>simp_all add: clean_request_def\<close>)
    then show ?thesis by (cases "(lg_got lg i, res)" rule: handed.cases) (auto simp: server_read_def log_read_at)
  qed
  have eof: "ss_halfClosed st = Some EOF \<and> all_up (data_up i inp) (lg_got ?lg i)"
    if e: "ss_readErr st' = Some EOF" and on: "on" "\<not> rcv_cancelled (ss_receiver st)"
  proof (cases "ss_readErr st")
    case None
    note x = server_msg_eof [OF assms(3) None e pl on(2) assms(2), of "data_up i inp" "lg_got lg i"]
    then show ?thesis using assms(1) None on by (simp add: clean_request_def log_read_at)
  next
    case (Some y)
    then have at: "lg_at lg i = None" using assms(4) on(2) by auto
    have "ss_readErr st' = Some y" "lg_got ?lg i = lg_got lg i"
      using server_msg_err_stays [OF assms(3) [unfolded at] Some, of "lg_got lg i"] by (auto simp: log_read_at)
    then show ?thesis using assms(1) e Some on by (simp add: clean_request_def)
  qed
  show ?thesis using assms(1) fl rd eof unfolding clean_request_def by auto
qed

lemma clean_server_put:
  assumes "clean_server inp s lg" and "log_only i lg lg'" and "clean_request inp i (serving s' i) st' lg'"
    and "sv_heap s' = (sv_heap s)(i \<mapsto> st')" and "sv_ctx s' = sv_ctx s" and "serving s' = serving s"
  shows "clean_server inp s' lg'"
  using assms by (auto simp: clean_server_def clean_request_def log_only_def)

lemma clean_server_RecvMsg:
  assumes "clean_server inp s lg" and "server_end inp s lg" and "srv_inv s" and "server_stream_RecvMsg (lg_at lg i) i s = Some (x, s')"
  shows "clean_server inp s' (server_log (SRecvMsg i (lg_at lg i)) s s' lg)"
proof -
  obtain st where st: "sv_heap s i = Some st"
    using assms(4) by (auto simp: server_stream_RecvMsg_def split: option.splits)
  obtain res st' us where rd: "server_readMsg (lg_at lg i) st = (res, st', us)" by (metis prod_cases3)
  let ?s1 = "(put_server i st' s)\<lparr>sv_sent := sv_sent s @ map (s2c i) (server_sendUpdates us st)\<rparr>"
  have lg: "server_log (SRecvMsg i (lg_at lg i)) s s' lg = log_read i res lg"
    using st rd by (simp add: server_stream_RecvMsg_def log_read_def Let_def split: srv_res.splits option.splits)
  have ok: "server_stream_ok (srv_window s) st" using assms(3) st by (simp add: srv_inv_def srv_streams_ok_def)
  have "clean_request inp i (serving s i) st lg" using assms(1) st by (simp add: clean_server_def)
  moreover have "\<not> rcv_cancelled (ss_receiver st) \<longrightarrow> lg_at lg i \<noteq> None \<longrightarrow> ss_readErr st = None"
    using server_end_at [OF assms(2) st] by (simp add: server_reads_def)
  ultimately have s1: "clean_server inp ?s1 (log_read i res lg)"
    using clean_request_read [OF _ ok rd] by (intro clean_server_put [OF assms(1)]) (simp_all add: put_server_def)
  have "server_stays ?s1 s'"
  proof (cases "\<exists>d e. res = SrvRet (d, False, Some e)")
    case True
    then obtain d e where e: "res = SrvRet (d, False, Some e)" by blast
    then have "s' = (srv_finish_begin (Some e) i ?s1)\<lparr>sv_waiting := sv_waiting s @ [(i, Some e)]\<rparr>" "e \<noteq> EOF"
      using assms(4) st rd server_readMsg_not_ok [OF rd [unfolded e]]
      by (auto simp: server_stream_RecvMsg_def Let_def failure_def put_server_def)
    then show ?thesis using server_stays_finish_begin [of e ?s1 i] by simp
  next
    case False
    then have "s' = ?s1"
      using assms(4) st rd by (auto simp: server_stream_RecvMsg_def Let_def split: srv_res.splits option.splits if_splits)
    then show ?thesis by simp
  qed
  then show ?thesis unfolding lg by (intro clean_server_stays [OF s1]) simp_all
qed

subsection \<open>Frames that arrive\<close>

lemma clean_server_halfClose:
  assumes "clean_server inp s lg" and "server_end inp s lg" and "srv_inv s" and "i \<in> sv_streams s" and "sv_heap s i = Some st"
  shows "clean_server (inp @ [c2s i ClientToServer_HalfClose]) (put_server i (halfClose (Some EOF) st) s) lg"
proof -
  let ?inp = "inp @ [c2s i ClientToServer_HalfClose]"
  have more: "clean_server ?inp s lg" by (rule clean_server_stays [OF assms(1)]) (auto intro: server_stays_heap)
  then have cl: "clean_request ?inp i (serving s i) st lg" using assms(5) by (simp add: clean_server_def)
  have "clean_request ?inp i (serving s i) (halfClose (Some EOF) st) lg"
  proof (cases "ss_halfClosed st")
    case None
    have "server_stream_ok (srv_window s) st" using assms(3,5) by (simp add: srv_inv_def srv_streams_ok_def)
    then have "\<not> rcv_closed (ss_receiver st)" using None by (simp add: server_stream_ok_def)
    then have rd: "\<not> rcv_cancelled (ss_receiver st) \<Longrightarrow> reader_ok server_switch (data_up i ?inp) True (rcv_items (ss_receiver st)) (ss_readErr st)
        (lg_got lg i) (server_at (lg_at lg i))"
      using server_end_at [OF assms(2,5)] assms(4) by (simp add: server_reads_def)
    have "\<exists>m\<in>set ?inp. half_close i m" by (auto simp: half_close_def)
    then show ?thesis using cl rd None unfolding clean_request_def by (simp add: halfClose_def halfClose_err_def)
  qed (use cl in \<open>simp add: halfClose_def\<close>)
  then show ?thesis by (intro clean_server_put [OF more, where i = i]) (simp_all add: put_server_def)
qed

lemma clean_server_accept:
  assumes "clean_server inp s lg" and "server_end inp s lg" and "srv_inv s" and "i \<in> sv_streams s" and "\<not> is_new f"
    and "\<And>j st. sv_heap s j = Some st \<Longrightarrow> serving s j \<Longrightarrow> ss_halfClosed st = Some EOF \<Longrightarrow> \<not> rcv_cancelled (ss_receiver st)
      \<Longrightarrow> data_up j [\<lparr>C2S_StreamId = i, C2S_Frame = f\<rparr>] = []"
  shows "clean_server (inp @ [\<lparr>C2S_StreamId = i, C2S_Frame = f\<rparr>]) (acceptClientFrame f i s) lg"
proof -
  obtain st where st: "sv_heap s i = Some st" using assms(3,4) by (auto simp: srv_inv_def srv_streams_ok_def)
  have stays: "clean_server (inp @ [\<lparr>C2S_StreamId = i, C2S_Frame = f\<rparr>]) s1 lg" if "server_stays s s1" for s1
    by (rule clean_server_stays [OF assms(1) that]) (use assms(6) in auto)
  have ok: "server_stream_ok (srv_window s) st" using assms(3) st by (simp add: srv_inv_def srv_streams_ok_def)
  have data: "server_stays s (server_accept_data g i st s)" for g
  proof (cases rule: accept_cases [where r = "ss_receiver st" and m = server_measure and x = g])
    case exceeded
    then show ?thesis
      using server_stays_loop_finish [of errFlowControlWindowExceeded s i] st
      by (simp add: server_accept_data_def errFlowControlWindowExceeded_def)
  next
    case queued
    then show ?thesis
      using st ok by (intro server_stays_put [OF _ st]) (auto simp: server_accept_data_def put_server_def ss_stays_def server_stream_ok_def)
  qed (use st in \<open>auto simp: server_accept_data_def intro: server_stays_heap\<close>)
  have window: "server_stays s (put_server i (st\<lparr>ss_sender := updateWindow w (ss_sender st)\<rparr>) s)" for w
    by (rule server_stays_put [OF _ st]) (auto simp: put_server_def ss_stays_def)
  show ?thesis
    using clean_server_halfClose [OF assms(1-4) st] stays [OF data] stays [OF window] assms(5)
      stays [OF server_stays_loop_finish [of CtxCanceled s i]] stays [OF server_stays_loop_finish [of errServerUnrecognizedFrame s i]]
    by (auto simp: acceptClientFrame_def st errServerUnrecognizedFrame_def split: option.splits ClientToServerFrame.splits)
qed

lemma server_stays_create: "server_stays s (snd (createStream L svcs closing i f s))"
proof -
  have "plain_ctx c \<Longrightarrow> plain_ctx (stream_ctx c d)" for c d
    by (auto simp: plain_ctx_def stream_ctx_def split: option.splits)
  then have "ss_blank (newServerStream (stream_ctx c d) dl j m md sd r)" if "plain_ctx c" for c d dl j m md sd r
    using that by (simp add: newServerStream_def ss_blank_def)
  then have "server_stays s (s\<lparr>sv_lastSeen := i, sv_heap := (sv_heap s)(i \<mapsto> newServerStream (stream_ctx (sv_ctx s) d) dl i m md sd r),
      sv_streams := insert i (sv_streams s), sv_serving := (sv_serving s)(i \<mapsto> sg)\<rparr>)" for d dl m md sd r sg
    by (auto simp: server_stays_def serving_def)
  then show ?thesis by (auto simp: createStream_def Let_def split: sum.splits)
qed

lemma clean_server_recv:
  assumes "clean_server inp s lg" and "server_end inp s lg" and "srv_inv s" and "serve_step L svcs closing (Inr m) s = Some s'"
    and "\<And>i st. sv_heap s i = Some st \<Longrightarrow> serving s i \<Longrightarrow> ss_halfClosed st = Some EOF \<Longrightarrow> \<not> rcv_cancelled (ss_receiver st)
      \<Longrightarrow> data_up i [m] = []"
  shows "clean_server (inp @ [m]) s' lg"
proof -
  have stays: "clean_server (inp @ [m]) s1 lg" if "server_stays s s1" for s1
    by (rule clean_server_stays [OF assms(1) that]) (use assms(5) in auto)
  show ?thesis
  proof (cases "is_new (C2S_Frame m)")
    case True
    then obtain f where f: "C2S_Frame m = Some (ClientToServer_NewStream f)" by (cases "C2S_Frame m" rule: is_new.cases) simp_all
    obtain ok e s1 where cr: "createStream L svcs closing (C2S_StreamId m) f s = ((ok, e), s1)" by (metis prod.exhaust)
    have s1: "server_stays s s1" using server_stays_create [of s L svcs closing "C2S_StreamId m" f] cr by simp
    have "s1 = s" if "\<not> ok" using cr that by (auto simp: createStream_def Let_def split: if_splits sum.splits)
    then have "server_stays s s'"
      using assms(4) f cr s1 server_stays_return
      by (auto simp: serve_step_def split: if_splits option.splits)
    then show ?thesis by (rule stays)
  next
    case False
    have "clean_server (inp @ [m]) (acceptClientFrame (C2S_Frame m) (C2S_StreamId m) s) lg" if "C2S_StreamId m \<in> sv_streams s"
      using clean_server_accept [OF assms(1-3) that False] assms(5) by (cases m) simp
    then show ?thesis
      using assms(4) False stays [OF server_stays_return] stays [OF server_stays_heap]
      by (auto simp: serve_step_def server_getStream_def split: if_splits option.splits ClientToServerFrame.splits)
  qed
qed

subsection \<open>All steps of the server\<close>

fun tunnel_ctx_lawful :: "srv_act \<Rightarrow> bool" where
  "tunnel_ctx_lawful (STunnelCtx e) = (e \<in> {CtxCanceled, CtxDeadlineExceeded})"
| "tunnel_ctx_lawful _ = True"

lemma server_stays_pending:
  "serve_resume L s = Some s' \<Longrightarrow> server_stays s s'" "recv_finish L s = Some s' \<Longrightarrow> server_stays s s'"
proof -
  have frame: "server_stays s (s1\<lparr>sv_loop := x\<rparr>)" "server_stays s (s1\<lparr>sv_waiting := y\<rparr>)"
    if "srv_finish_locked L e i s = Some s1" for e i s1 x y
    using server_stays_finish_locked [OF that] by simp_all
  show "serve_resume L s = Some s' \<Longrightarrow> server_stays s s'" "recv_finish L s = Some s' \<Longrightarrow> server_stays s s'"
    using frame by (auto simp: serve_resume_def recv_finish_def split: srv_loop.splits list.splits)
qed

lemma server_stays_finish:
  assumes "serve_finish L i s = Some s'"
  shows "server_stays s s'"
proof -
  obtain err s1 where e: "srv_finish_locked L err i s = Some s1" "s' = s1\<lparr>sv_serving := (sv_serving s)(i \<mapsto> ServeDone)\<rparr>"
    using assms by (auto simp: serve_finish_def split: option.splits serve_pc.splits)
  have "server_stays s s1" "sv_serving s1 = sv_serving s" using server_stays_finish_locked [OF e(1)] by simp_all
  moreover have "serving s' j \<Longrightarrow> serving s1 j" for j using e(2) \<open>sv_serving s1 = _\<close> by (auto simp: serving_def split: if_splits)
  ultimately show ?thesis using e(2) unfolding server_stays_def by simp metis
qed

lemma server_stays_stream:
  "server_stream_setTrailer L md i s = Some (e, s') \<Longrightarrow> server_stays s s'"
  "server_ctx_ends i s = Some s' \<Longrightarrow> server_stays s s'"
  "server_watch i s = Some s' \<Longrightarrow> server_stays s s'"
  by (auto simp: server_stream_setTrailer_def server_ctx_ends_def server_watch_def setTrailer_def server_ctx_watch_def ss_stays_def
      put_server_def intro!: server_stays_put split: option.splits if_splits)

lemma server_stays_job: "server_run_job k r s = Some s' \<Longrightarrow> server_stays s s'"
  by (auto simp: server_run_job_def split: if_splits list.splits)

lemma server_stays_setHeader:
  assumes "server_stream_setHeader L md b r i s = Some (e, s')"
  shows "server_stays s s'"
proof -
  obtain st st' fs where x: "sv_heap s i = Some st" "setHeader L md b r st = Some (e, st', fs)"
    "s' = (put_server i st' s)\<lparr>sv_sent := sv_sent s @ map (s2c i) (if r = None then fs else [])\<rparr>"
    using assms by (auto simp: server_stream_setHeader_def split: option.splits)
  have "ss_stays st st'"
    using x(2) by (auto simp: setHeader_def sendHeadersLocked_def ss_stays_def Let_def split: if_splits)
  then show ?thesis by (intro server_stays_put [OF _ x(1)]) (auto simp: x(3) put_server_def)
qed

lemma server_stays_send_do:
  assumes "server_stream_send_do a i s = Some s'"
  shows "server_stays s s'"
proof -
  obtain st st' fs where st: "sv_heap s i = Some st" "server_send_do a st = Some (st', fs)"
    "s' = (put_server i st' s)\<lparr>sv_sent := sv_sent s @ map (s2c i) fs\<rparr>"
    using assms by (auto simp: server_stream_send_do_def split: option.splits if_splits)
  have "ss_stays st st'"
    using st(2) by (auto simp: server_send_do_def ss_stays_def simp del: sys_do.simps split: option.splits)
  then show ?thesis by (intro server_stays_put [OF _ st(1)]) (auto simp: st(3) put_server_def)
qed

lemma clean_server_end:
  assumes "clean_server inp s lg" and "serve_end (\<lambda>x. x) h r i s = Some s'"
  shows "clean_server inp s' lg"
proof (cases "\<exists>b. h = HResp b")
  case True
  then obtain b e s1 where s1: "server_stream_send (\<lambda>x. x) b r i s = Some (e, s1)"
      "s' = serve_defer e i s1 \<or> s' = s1\<lparr>sv_serving := (sv_serving s1)(i \<mapsto> ServeSending)\<rparr>"
    using assms(2) by (auto simp: serve_end_def split: option.splits serve_pc.splits method_desc.splits)
  have "server_stays s1 (s1\<lparr>sv_serving := (sv_serving s1)(i \<mapsto> ServeSending)\<rparr>)"
    by (rule server_stays_heap) (auto simp: serving_def split: if_splits)
  then have "server_stays s1 s'" using s1(2) server_stays_serve_defer by auto
  moreover have "clean_server inp s1 lg" using server_stays_send [OF s1(1)] by (intro clean_server_stays [OF assms(1)]) simp_all
  ultimately show ?thesis using clean_server_stays [of inp s1 lg s' lg inp] by simp
next
  case False
  then have "\<exists>e. s' = serve_defer e i s"
    using assms(2) by (auto simp: serve_end_def split: option.splits serve_pc.splits handler_end.splits method_desc.splits)
  then show ?thesis using clean_server_stays [OF assms(1) server_stays_serve_defer] by auto
qed

lemma clean_server_own:
  assumes "clean_server inp s lg" and "server_end inp s lg" and "srv_inv s" and "srv_do L svcs a s = Some s'" and "server_own a"
    and "tunnel_ctx_lawful a" and "\<And>i ph. a = SRecvMsg i ph \<Longrightarrow> ph = lg_at lg i"
  shows "clean_server inp s' (server_log a s s' lg)"
proof (cases "\<exists>i ph. a = SRecvMsg i ph")
  case True
  then obtain i where "a = SRecvMsg i (lg_at lg i)" using assms(7) by auto
  then show ?thesis using clean_server_RecvMsg [OF assms(1-3)] assms(4) by auto
next
  case False
  have lg: "lg_got (server_log a s s' lg) = lg_got lg" "lg_at (server_log a s s' lg) = lg_at lg"
    using False by (cases "(a, s, s', lg)" rule: server_log.cases; simp add: log_begins_def log_sends_def)+
  have same: "clean_server inp s' (server_log a s s' lg) = clean_server inp s' lg"
    using lg by (simp add: clean_server_def clean_request_def)
  have stays: "clean_server inp s' lg" if "server_stays s s'" using clean_server_stays [OF assms(1) that] by simp
  show ?thesis
    unfolding same
  proof (cases a)
    case (SRecv closing x)
    then obtain e where "s' = serve_return e s"
      using assms(4,5) by (cases x) (auto simp: serve_step_def split: if_splits)
    then show "clean_server inp s' lg" using stays server_stays_return by simp
  next
    case (SHandlerEnd i h r)
    then show "clean_server inp s' lg" using assms(4) clean_server_end [OF assms(1)] by auto
  next
    case (SSent i)
    then show "clean_server inp s' lg"
      using assms(4) stays server_stays_serve_defer by (auto simp: serve_sent_def split: option.splits serve_pc.splits send_pc.splits)
  next
    case (STunnelCtx e)
    then show "clean_server inp s' lg" using assms(4,6) stays server_stays_all_ctx by auto
  next
    case (SSendMsg i b r)
    then show "clean_server inp s' lg" using assms(4) stays server_stays_send by auto
  qed (use assms(4) stays False server_stays_pending server_stays_finish server_stays_stream server_stays_job server_stays_setHeader server_stays_send_do in auto)
qed

end
