(* ===== verification/Tunnel_Ends.thy ===== *)
theory Tunnel_Ends
  imports Request_Ends
begin

text \<open>
  The ends of a whole tunnel: a client that reads EOF has read all responses, and a handler that reads EOF while it serves has read all requests.
\<close>

subsection \<open>Lawful runs\<close>

text \<open>
  Callers do not send after \<^verbatim>\<open>CloseSend\<close>, handlers do not send once they have returned, and contexts end with the errors of the standard library.
\<close>

fun lawful :: "ts_act \<Rightarrow> tunnel_log \<Rightarrow> bool" where
  "lawful (TClient a) x = (ctx_lawful a \<and> caller_lawful a (ts_client (tl_sys x)))"
| "lawful (TServer a) x = (tunnel_ctx_lawful a \<and> handler_lawful a (ts_server (tl_sys x)))"
| "lawful _ x = True"

inductive lawful_reach :: "grpc_lib \<Rightarrow> (string \<rightharpoonup> ServiceDesc) \<Rightarrow> tunnel_log \<Rightarrow> tunnel_log \<Rightarrow> bool" for L svcs x0 where
  lawful_begin: "lawful_reach L svcs x0 x0"
| lawful_step: "lawful_reach L svcs x0 x \<Longrightarrow> lawful a x \<Longrightarrow> logged_do L svcs a x = Some y \<Longrightarrow> lawful_reach L svcs x0 y"

lemma lawful_logged: "lawful_reach L svcs x0 x \<Longrightarrow> logged_reach L svcs x0 x"
  by (induction rule: lawful_reach.induct) (auto intro: logged_reach.intros)

subsection \<open>Responses\<close>

definition ends_well :: "grpc_lib \<Rightarrow> tunnel_log \<Rightarrow> bool" where
  "ends_well L x \<longleftrightarrow> clean_client L (down_seen (tl_sys x)) (ts_client (tl_sys x)) (tl_client x) \<and> closing_order L (ts_server (tl_sys x))"

text \<open>What follows the closing frame on its way to the client is no data of the stream.\<close>

lemma closed_no_data:
  assumes "ends_well L x" and "ch_heap (ts_client (tl_sys x)) i = Some st" and "cs_done st = Some EOF"
  shows "data_down i (drop (ts_down (tl_sys x)) (sv_sent (ts_server (tl_sys x)))) = []" and "shut (ts_server (tl_sys x)) i"
proof -
  let ?s = "ts_server (tl_sys x)" and ?n = "ts_down (tl_sys x)"
  obtain m where m: "m \<in> set (down_seen (tl_sys x))" "close_eof L i m"
    using assms by (auto simp: ends_well_def clean_client_def clean_stream_def)
  then obtain pre us where "take ?n (sv_sent ?s) = pre @ m # us" by (auto simp: down_seen_def dest: split_list)
  then have "sv_sent ?s = pre @ m # us @ drop ?n (sv_sent ?s)" by (metis append_take_drop_id append.assoc append_Cons)
  then have "data_down i (us @ drop ?n (sv_sent ?s)) = []"
    using assms(1) m(2) unfolding ends_well_def closing_order_def by blast
  then show "data_down i (drop ?n (sv_sent ?s)) = []" by simp
  have "m \<in> set (sv_sent ?s)" using m(1) by (auto simp: down_seen_def dest: in_set_takeD)
  then show "shut ?s i" using assms(1) m(2) unfolding ends_well_def closing_order_def by blast
qed

lemma ends_well_server:
  assumes "closing_order L (ts_server y)" and "ts_inv y" and "server_end (up_seen y) (ts_server y) lg" and "status_faithful L"
    and "srv_do L svcs b (ts_server y) = Some s" and "handler_lawful b (ts_server y)"
  shows "closing_order L s" and "take (ts_down y) (sv_sent s) = down_seen y"
proof -
  have inv: "srv_inv (ts_server y)" "ts_down y \<le> length (sv_sent (ts_server y))" using assms(2) by (simp_all add: ts_inv_def)
  have "down_data (S2C_Frame m) = []" if "m \<in> set (concat (sv_jobs (ts_server y)))" for m
    using assms(3) that unfolding server_end_def by blast
  then show "closing_order L s" by (rule closing_order_do [OF assms(1) inv(1) assms(4-6)])
  show "take (ts_down y) (sv_sent s) = down_seen y" using srv_do_sent [OF assms(5)] inv(2) by (auto simp: down_seen_def)
qed

lemma ends_well_down:
  assumes "ends_well L x" and "delivers x" and "chan_inv (ts_client (tl_sys x))" and "logged_do L svcs TDown x = Some z"
  shows "ends_well L z"
proof -
  let ?y = "tl_sys x"
  let ?m = "sv_sent (ts_server ?y) ! ts_down ?y"
  obtain c where c: "ts_down ?y < length (sv_sent (ts_server ?y))" "recvLoop L (Inr ?m) (ts_client ?y) = Some c"
      "z = x\<lparr>tl_sys := ?y\<lparr>ts_client := c, ts_down := ts_down ?y + 1\<rparr>\<rparr>"
    using assms(4) by (auto simp: logged_do_def split: if_splits)
  have w: "clean_client L (down_seen ?y) (ts_client ?y) (tl_client x)" "closing_order L (ts_server ?y)"
    and d: "client_end (down_seen ?y) (ts_client ?y) (tl_client x)"
    using assms(1,2) by (simp_all add: ends_well_def delivers_def)
  have "drop (ts_down ?y) (sv_sent (ts_server ?y)) = [?m] @ drop (Suc (ts_down ?y)) (sv_sent (ts_server ?y))"
    using c(1) by (simp add: Cons_nth_drop_Suc)
  then have "data_down i [?m] = []" if st: "ch_heap (ts_client ?y) i = Some st" "cs_done st = Some EOF" for i st
    using closed_no_data(1) [OF assms(1) st] by (simp only: data_down_part)
  then have "clean_client L (down_seen ?y @ [?m]) c (tl_client x)" by (rule clean_client_recv [OF w(1) d assms(3) c(2)])
  then show ?thesis using c(1,3) w(2) by (simp add: ends_well_def down_seen_def take_Suc_conv_app_nth)
qed

lemma ends_well_do:
  assumes "ends_well L x" and "delivers x" and "ts_inv (tl_sys x)" and "status_faithful L" and "lawful a x"
    and "logged_do L svcs a x = Some z"
  shows "ends_well L z"
proof -
  let ?y = "tl_sys x"
  have inv: "chan_inv (ts_client ?y)" using assms(3) by (simp add: ts_inv_def)
  have w: "clean_client L (down_seen ?y) (ts_client ?y) (tl_client x)" "closing_order L (ts_server ?y)"
    and d: "client_end (down_seen ?y) (ts_client ?y) (tl_client x)" "server_end (up_seen ?y) (ts_server ?y) (tl_server x)"
    using assms(1,2) by (simp_all add: ends_well_def delivers_def)
  note srv = ends_well_server [OF w(2) assms(3) d(2) assms(4)]
  show ?thesis
  proof (cases a)
    case (TClient b)
    then obtain c where c: "resumes a x" "client_own b (ts_client ?y)" "chan_do L b (ts_client ?y) = Some c"
        "z = log_step a (?y\<lparr>ts_client := c\<rparr>) x"
      using assms(6) by (auto simp: logged_do_def split: if_splits)
    have "clean_client L (down_seen ?y) c (client_log b (ts_client ?y) c (tl_client x))"
      by (rule clean_client_own [OF w(1) d(1) inv c(3)]) (use assms(5) c(1,2) TClient in auto)
    then show ?thesis using w(2) TClient c(4) by (simp add: ends_well_def down_seen_def)
  next
    case (TServer b)
    then obtain s where s: "srv_do L svcs b (ts_server ?y) = Some s" "z = log_step a (?y\<lparr>ts_server := s\<rparr>) x"
      using assms(6) by (auto simp: logged_do_def split: if_splits)
    show ?thesis using srv [OF s(1)] assms(5) w(1) TServer s(2) by (simp add: ends_well_def down_seen_def)
  next
    case (TUp closing)
    then obtain m s where s: "srv_do L svcs (SRecv closing (Inr m)) (ts_server ?y) = Some s"
        "z = x\<lparr>tl_sys := ?y\<lparr>ts_server := s, ts_up := ts_up ?y + 1\<rparr>\<rparr>"
      using assms(6) by (auto simp: logged_do_def split: if_splits)
    show ?thesis using srv [OF s(1)] w(1) s(2) by (simp add: ends_well_def down_seen_def)
  qed (use ends_well_down [OF assms(1,2) inv] assms(6) in blast)
qed

lemma ends_well_start: "ends_well L (logged_start (newTunnelChannel x pr md True r opts mem) (serveTunnel sx True r' sopts))"
  by (simp add: ends_well_def logged_start_def ts_start_def clean_client_def newTunnelChannel_def serveTunnel_def closing_order_def
      errors_real_def settings_frame_def close_eof_def)

text \<open>A reader that has seen EOF has read everything.\<close>

lemma responses_all_read:
  assumes "ends_well L x" and "delivers x" and "ch_heap (ts_client (tl_sys x)) i = Some st" and "cs_readErr st = Some EOF"
  shows "lg_got (tl_client x) i = lg_sent (tl_server x) i" and "shut (ts_server (tl_sys x)) i"
proof -
  let ?s = "ts_server (tl_sys x)"
  have cl: "clean_stream L (down_seen (tl_sys x)) i st (tl_client x)" using assms(1,3) by (simp add: ends_well_def clean_client_def)
  then have dn: "cs_done st = Some EOF" using assms(4) by (simp add: clean_stream_def)
  note nd = closed_no_data [OF assms(1,3) dn]
  show "shut ?s i" by (rule nd(2))
  have "data_down i (sv_sent ?s) = data_down i (down_seen (tl_sys x) @ drop (ts_down (tl_sys x)) (sv_sent ?s))"
    by (simp add: down_seen_def)
  also have "\<dots> = data_down i (down_seen (tl_sys x))" using nd(1) by simp
  finally have all: "all_read (data_down i (sv_sent ?s)) (lg_got (tl_client x) i)"
    using cl dn assms(4) by (simp add: clean_stream_def)
  obtain sst where sst: "sv_heap ?s i = Some sst" using nd(2) by (auto simp: shut_def pcs_def)
  have "server_end (up_seen (tl_sys x)) ?s (tl_server x)" using assms(2) by (simp add: delivers_def)
  then show "lg_got (tl_client x) i = lg_sent (tl_server x) i"
    using server_end_at [of _ ?s "tl_server x" i sst] sst all writer_ok_all unfolding all_read_def server_writes_def by fastforce
qed


subsection \<open>Requests\<close>

definition requests_end :: "tunnel_log \<Rightarrow> bool" where
  "requests_end x \<longleftrightarrow> clean_server (up_seen (tl_sys x)) (ts_server (tl_sys x)) (tl_server x) \<and> half_order (ts_client (tl_sys x))"

text \<open>What follows the half-close on its way to the server is no data of the stream.\<close>

lemma half_closed_no_data:
  assumes "requests_end x" and "sv_heap (ts_server (tl_sys x)) i = Some st" and "serving (ts_server (tl_sys x)) i"
    and "ss_halfClosed st = Some EOF" and "\<not> rcv_cancelled (ss_receiver st)"
  shows "data_up i (drop (ts_up (tl_sys x)) (ch_sent (ts_client (tl_sys x)))) = []" and "sent_out (ts_client (tl_sys x)) i"
proof -
  let ?c = "ts_client (tl_sys x)" and ?n = "ts_up (tl_sys x)"
  obtain m where m: "m \<in> set (up_seen (tl_sys x))" "half_close i m"
    using assms by (auto simp: requests_end_def clean_server_def clean_request_def)
  then obtain pre us where "take ?n (ch_sent ?c) = pre @ m # us" by (auto simp: up_seen_def dest: split_list)
  then have "ch_sent ?c = pre @ m # us @ drop ?n (ch_sent ?c)" by (metis append_take_drop_id append.assoc append_Cons)
  then have "data_up i (us @ drop ?n (ch_sent ?c)) = []"
    using assms(1) m(2) unfolding requests_end_def half_order_def by blast
  then show "data_up i (drop ?n (ch_sent ?c)) = []" by simp
  have "m \<in> set (ch_sent ?c)" using m(1) by (auto simp: up_seen_def dest: in_set_takeD)
  then show "sent_out ?c i" using assms(1) m(2) unfolding requests_end_def half_order_def by blast
qed

lemma requests_end_up:
  assumes "requests_end x" and "delivers x" and "srv_inv (ts_server (tl_sys x))" and "logged_do L svcs (TUp closing) x = Some z"
  shows "requests_end z"
proof -
  let ?y = "tl_sys x"
  let ?m = "ch_sent (ts_client ?y) ! ts_up ?y"
  obtain s where s: "ts_up ?y < length (ch_sent (ts_client ?y))" "serve_step L svcs closing (Inr ?m) (ts_server ?y) = Some s"
      "z = x\<lparr>tl_sys := ?y\<lparr>ts_server := s, ts_up := ts_up ?y + 1\<rparr>\<rparr>"
    using assms(4) by (auto simp: logged_do_def split: if_splits)
  have w: "clean_server (up_seen ?y) (ts_server ?y) (tl_server x)" "half_order (ts_client ?y)"
    and d: "server_end (up_seen ?y) (ts_server ?y) (tl_server x)"
    using assms(1,2) by (simp_all add: requests_end_def delivers_def)
  have "drop (ts_up ?y) (ch_sent (ts_client ?y)) = [?m] @ drop (Suc (ts_up ?y)) (ch_sent (ts_client ?y))"
    using s(1) by (simp add: Cons_nth_drop_Suc)
  then have "data_up i [?m] = []" if "sv_heap (ts_server ?y) i = Some st" "serving (ts_server ?y) i" "ss_halfClosed st = Some EOF"
      "\<not> rcv_cancelled (ss_receiver st)" for i st
    using half_closed_no_data(1) [OF assms(1) that] by (simp only: data_up_part)
  then have "clean_server (up_seen ?y @ [?m]) s (tl_server x)" by (rule clean_server_recv [OF w(1) d assms(3) s(2)])
  then show ?thesis using s(1,3) w(2) by (simp add: requests_end_def up_seen_def take_Suc_conv_app_nth)
qed

lemma requests_end_do:
  assumes "requests_end x" and "delivers x" and "ts_inv (tl_sys x)" and "lawful a x" and "logged_do L svcs a x = Some z"
  shows "requests_end z"
proof -
  let ?y = "tl_sys x"
  have inv: "chan_inv (ts_client ?y)" "srv_inv (ts_server ?y)" "ts_up ?y \<le> length (ch_sent (ts_client ?y))"
    using assms(3) by (simp_all add: ts_inv_def)
  have d: "server_end (up_seen ?y) (ts_server ?y) (tl_server x)" using assms(2) by (simp add: delivers_def)
  have w: "clean_server (up_seen ?y) (ts_server ?y) (tl_server x)" "half_order (ts_client ?y)"
    using assms(1) by (simp_all add: requests_end_def)
  show ?thesis
  proof (cases a)
    case (TClient b)
    then obtain c where c: "client_own b (ts_client ?y)" "chan_do L b (ts_client ?y) = Some c" "z = log_step a (?y\<lparr>ts_client := c\<rparr>) x"
      using assms(5) by (auto simp: logged_do_def split: if_splits)
    obtain new where "ch_sent c = ch_sent (ts_client ?y) @ new" using chan_do_sent [OF c(2)] c(1) by blast
    moreover have "half_order c" using half_order_do [OF w(2) inv(1) c(2)] assms(4) TClient by simp
    ultimately show ?thesis using w(1) inv(3) TClient c(3) by (simp add: requests_end_def up_seen_def)
  next
    case (TServer b)
    then obtain s where s: "resumes a x" "server_own b" "srv_do L svcs b (ts_server ?y) = Some s" "z = log_step a (?y\<lparr>ts_server := s\<rparr>) x"
      using assms(5) by (auto simp: logged_do_def split: if_splits)
    have "clean_server (up_seen ?y) s (server_log b (ts_server ?y) s (tl_server x))"
      by (rule clean_server_own [OF w(1) d inv(2) s(3,2)]) (use assms(4) s(1) TServer in auto)
    then show ?thesis using w(2) TServer s(4) by (simp add: requests_end_def up_seen_def)
  next
    case TDown
    then obtain m c where c: "recvLoop L (Inr m) (ts_client ?y) = Some c" "z = x\<lparr>tl_sys := ?y\<lparr>ts_client := c, ts_down := ts_down ?y + 1\<rparr>\<rparr>"
      using assms(5) by (auto simp: logged_do_def split: if_splits)
    have "ch_sent c = ch_sent (ts_client ?y)" using wire_view_recvLoop [OF c(1)] by (simp add: wire_view_def)
    then show ?thesis using half_order_calm [OF w(2) calm_recvLoop [OF c(1)]] w(1) c(2) by (simp add: requests_end_def up_seen_def)
  qed (use requests_end_up [OF assms(1,2) inv(2)] assms(5) in blast)
qed

lemma requests_end_start:
  "plain_ctx sx \<Longrightarrow> requests_end (logged_start (newTunnelChannel x pr md True r opts mem) (serveTunnel sx True r' sopts))"
  by (simp add: requests_end_def logged_start_def ts_start_def clean_server_def newTunnelChannel_def serveTunnel_def half_order_def)

lemma requests_all_read:
  assumes "requests_end x" and "delivers x" and "sv_heap (ts_server (tl_sys x)) i = Some st" and "ss_readErr st = Some EOF"
    and "serving (ts_server (tl_sys x)) i" and "\<not> rcv_cancelled (ss_receiver st)"
  shows "lg_got (tl_server x) i = lg_sent (tl_client x) i" and "sent_out (ts_client (tl_sys x)) i"
proof -
  let ?c = "ts_client (tl_sys x)"
  have "clean_request (up_seen (tl_sys x)) i (serving (ts_server (tl_sys x)) i) st (tl_server x)"
    using assms(1,3) by (simp add: requests_end_def clean_server_def)
  then have cl: "clean_request (up_seen (tl_sys x)) i True st (tl_server x)" using assms(5) by simp
  then have hc: "ss_halfClosed st = Some EOF" using assms(4,6) by (simp add: clean_request_def)
  note nd = half_closed_no_data [OF assms(1,3,5) hc assms(6)]
  show "sent_out ?c i" by (rule nd(2))
  have "data_up i (ch_sent ?c) = data_up i (up_seen (tl_sys x) @ drop (ts_up (tl_sys x)) (ch_sent ?c))" by (simp add: up_seen_def)
  also have "\<dots> = data_up i (up_seen (tl_sys x))" using nd(1) by simp
  finally have all: "all_up (data_up i (ch_sent ?c)) (lg_got (tl_server x) i)" using cl hc assms(4,6) by (simp add: clean_request_def)
  obtain cst where cst: "ch_heap ?c i = Some cst" using nd(2) by (auto simp: sent_out_def marks_def)
  have "client_end (down_seen (tl_sys x)) ?c (tl_client x)" using assms(2) by (simp add: delivers_def)
  then show "lg_got (tl_server x) i = lg_sent (tl_client x) i"
    using client_end_at [of _ ?c "tl_client x" i cst] cst all writer_ok_all unfolding all_up_def client_writes_def by fastforce
qed

subsection \<open>Both directions\<close>

lemma ends_reach:
  assumes "lawful_reach L svcs x0 x" and "x0 = logged_start (newTunnelChannel cx pr md True r opts mem) (serveTunnel sx True r' sopts)"
    and "opts_wf opts" and "opts_wf sopts" and "0 \<le> ch_lastStreamID (ts_client (tl_sys x))" and "status_faithful L" and "plain_ctx sx"
  shows "ends_well L x \<and> requests_end x"
  using assms(1,5)
proof (induction rule: lawful_reach.induct)
  case lawful_begin
  then show ?case using ends_well_start requests_end_start [OF assms(7)] assms(2) by simp
next
  case (lawful_step x a z)
  then have "ts_do L svcs a (tl_sys x) = Some (tl_sys z)" by (auto simp: logged_do_def split: if_splits)
  then have last: "0 \<le> ch_lastStreamID (ts_client (tl_sys x))" using lawful_step(5) ts_do_last by blast
  then have "delivers x \<and> ts_inv (tl_sys x)" using delivers_reach [OF lawful_logged [OF lawful_step(1)] assms(2-4)] by blast
  then show ?case
    using ends_well_do [OF _ _ _ assms(6) lawful_step(2,3)] requests_end_do [OF _ _ _ lawful_step(2,3)] lawful_step(4) [OF last] by blast
qed

end
