(* ===== verification/Credit_Steps.thy ===== *)
theory Credit_Steps
  imports Tunnel_System Flow_Link
begin

text \<open>
  Flow control across a whole tunnel, the steps of either end. For one end of a stream, what it may still send and the room of its
  receiver are an \<open>endpoint\<close>; every step of the client (\<open>client_moves\<close>) and of the server (\<open>server_moves\<close>) takes in frames and sends
  frames, and \<open>ep_step\<close> says what that may do to the endpoint of each stream. \<open>pair_ok\<close> is the account of both ends and what is on its
  way between them: an inequality, as streams may end at any moment and frames of an ended stream are dropped.
\<close>

subsection \<open>The account of a stream\<close>

text \<open>One end of a stream: what its sender holds, the room of its receiver, whether the receiver is closed.\<close>

record endpoint =
  ep_held :: nat
  ep_room :: nat
  ep_shut :: bool

fun reserved_at :: "sender \<Rightarrow> send_pc \<Rightarrow> nat" where
  "reserved_at s (AtSend d i c) = unat (send_overhead s i) + unat c"
| "reserved_at s _ = 0"

definition endpoint_of :: "sender \<Rightarrow> send_pc \<Rightarrow> 'a receiver \<Rightarrow> endpoint" where
  "endpoint_of s pc r = \<lparr>ep_held = unat (snd_currentWindow s) + reserved_at s pc,
     ep_room = unat (rcv_currentWindow r), ep_shut = rcv_closed r\<rparr>"

text \<open>A step of an end: the cost of the data and the updates it took in, and those it sent.\<close>

definition ep_step :: "nat \<Rightarrow> nat \<Rightarrow> endpoint \<Rightarrow> nat \<Rightarrow> nat \<Rightarrow> endpoint \<Rightarrow> bool" where
  "ep_step cin uin e cout uout e' \<longleftrightarrow> ep_held e' + cout \<le> ep_held e + uin \<and> (ep_shut e \<longrightarrow> ep_shut e')
     \<and> (ep_shut e' \<or> ep_room e + uout \<le> ep_room e' + cin)"

text \<open>Both ends, and for either direction the data and the updates on their way.\<close>

definition pair_ok :: "endpoint \<Rightarrow> endpoint \<Rightarrow> nat \<Rightarrow> nat \<Rightarrow> nat \<Rightarrow> nat \<Rightarrow> bool" where
  "pair_ok e g cu uu cd ud \<longleftrightarrow> (ep_shut g \<or> ep_held e + cu + ud \<le> ep_room g) \<and> (ep_shut e \<or> ep_held g + cd + uu \<le> ep_room e)"

lemma pair_ok_swap: "pair_ok g e cd ud cu uu = pair_ok e g cu uu cd ud"
  by (auto simp: pair_ok_def)

lemma pair_ok_step:
  "pair_ok e g cu uu (cin + cd) (uin + ud) \<Longrightarrow> ep_step cin uin e cout uout e' \<Longrightarrow> pair_ok e' g (cu + cout) (uu + uout) cd ud"
  by (auto simp: pair_ok_def ep_step_def)

lemma pair_ok_drop: "pair_ok e g cu uu (cin + cd) (uin + ud) \<Longrightarrow> pair_ok e g cu uu cd ud"
  by (auto simp: pair_ok_def)

lemma ep_step_refl [simp]: "ep_step cin uin e 0 0 e"
  by (simp add: ep_step_def)

lemma ep_step_trans:
  "ep_step cin uin e cout uout e' \<Longrightarrow> ep_step cin' uin' e' cout' uout' e'' \<Longrightarrow>
   ep_step (cin + cin') (uin + uin') e (cout + cout') (uout + uout') e''"
  by (auto simp: ep_step_def)

subsection \<open>Senders and receivers\<close>

text \<open>A sender between the load and the compare-and-swap has loaded enough for the overhead.\<close>

fun pc_fits :: "sender \<Rightarrow> send_pc \<Rightarrow> bool" where
  "pc_fits s (AtCas d i w) = (send_overhead s i \<le> w)"
| "pc_fits s _ = True"

definition parts_ok :: "u32 \<Rightarrow> sender \<Rightarrow> send_pc \<Rightarrow> 'a receiver \<Rightarrow> bool" where
  "parts_ok v s pc r \<longleftrightarrow> snd_msgOverhead s = v \<and> rcv_msgOverhead r = v \<and> pc_fits s pc"

lemma send_needed_overhead:
  assumes "sender_wf s"
  shows "send_overhead s i \<le> send_needed s d i"
proof -
  have m: "unat (min (u32_of_len d) 1) \<le> 1" by (simp add: unat_min_word)
  then have "unat (send_overhead s i) + unat (min (u32_of_len d) 1) < 4294967296"
    using assms by (simp add: unat_send_overhead sender_wf_nat)
  then have "unat (send_overhead s i) \<le> unat (send_overhead s i + min (u32_of_len d) 1)"
    by (simp add: unat_add_no_wrap)
  then show ?thesis by (simp add: send_needed_def word_le_nat_alt unat_max_word)
qed

lemma cas_holds:
  assumes "send_overhead s i \<le> w"
  shows "unat (w - send_overhead s i - send_chunkSz s d i w) + (unat (send_overhead s i) + unat (send_chunkSz s d i w)) = unat w"
proof -
  have c: "send_chunkSz s d i w \<le> w - send_overhead s i" by (simp add: send_chunkSz_def)
  have "unat (w - send_overhead s i) = unat w - unat (send_overhead s i)" using assms by (simp add: unat_sub)
  then show ?thesis using assms c by (simp add: unat_sub word_le_nat_alt)
qed

text \<open>A step of \<^verbatim>\<open>send\<close>: what it sends was held.\<close>

lemma send_step_holds:
  assumes "sys_do a y = Some z" and "send_own a" and "sys_out y = []" and "sender_wf (sys_sender y)" and "pc_fits (sys_sender y) (sys_pc y)"
  shows "snd_msgOverhead (sys_sender z) = snd_msgOverhead (sys_sender y) \<and> pc_fits (sys_sender z) (sys_pc z)
    \<and> unat (snd_currentWindow (sys_sender z)) + reserved_at (sys_sender z) (sys_pc z)
        + (\<Sum>(d, n, b)\<leftarrow>sys_out z. length d + (if b then unat (snd_msgOverhead (sys_sender y)) else 0))
      \<le> unat (snd_currentWindow (sys_sender y)) + reserved_at (sys_sender y) (sys_pc y)"
proof (cases a)
  case Load
  then obtain d i where pc: "sys_pc y = AtLoad d i" "z = y\<lparr>sys_pc := send_load (sys_sender y) d i\<rparr>"
    using assms(1) by (auto split: send_pc.splits)
  then show ?thesis
    using assms(3) send_needed_overhead [OF assms(4), of i d]
    by (auto simp: send_load_def Let_def not_less intro: order_trans)
next
  case Cas
  then obtain d i w where pc: "sys_pc y = AtCas d i w" using assms(1) by (auto split: send_pc.splits)
  let ?s = "sys_sender y"
  show ?thesis
  proof (cases "snd_currentWindow ?s = w")
    case True
    then have z: "sys_sender z = ?s\<lparr>snd_currentWindow := w - send_overhead ?s i - send_chunkSz ?s d i w\<rparr>"
      "sys_pc z = AtSend d i (send_chunkSz ?s d i w)" "sys_out z = []"
      using assms(1,3) Cas pc by (auto simp: send_cas_def Let_def)
    have "send_overhead (sys_sender z) i = send_overhead ?s i" by (simp add: z(1) send_overhead_def)
    then show ?thesis
      using True pc assms(5) cas_holds [of ?s i w d] by (simp add: z)
  next
    case False
    then have "z = y\<lparr>sys_pc := AtLoad d i\<rparr>" using assms(1) Cas pc by (auto simp: send_cas_def Let_def)
    then show ?thesis using assms(3) pc by simp
  qed
next
  case (SendFunc r)
  then show ?thesis
    using assms(1,3) by (auto simp: send_after_def unat_send_overhead split: send_pc.splits option.splits)
qed (use assms in \<open>auto split: send_pc.splits if_splits option.splits\<close>)

lemma updateWindow_holds:
  "snd_msgOverhead (updateWindow w s) = snd_msgOverhead s" "pc_fits (updateWindow w s) pc = pc_fits s pc"
  "unat (snd_currentWindow (updateWindow w s)) + reserved_at (updateWindow w s) pc
     \<le> unat (snd_currentWindow s) + reserved_at s pc + unat w"
proof -
  have f: "snd_msgOverhead (updateWindow w s) = snd_msgOverhead s"
    "snd_currentWindow (updateWindow w s) = snd_currentWindow s + w"
    by (simp_all add: updateWindow_def updateWindow_add_def updateWindow_signal_def Let_def)
  show "snd_msgOverhead (updateWindow w s) = snd_msgOverhead s" by (rule f)
  show "pc_fits (updateWindow w s) pc = pc_fits s pc" by (cases pc) (simp_all add: f send_overhead_def)
  have "reserved_at (updateWindow w s) pc = reserved_at s pc" by (cases pc) (simp_all add: f send_overhead_def)
  then show "unat (snd_currentWindow (updateWindow w s)) + reserved_at (updateWindow w s) pc
     \<le> unat (snd_currentWindow s) + reserved_at s pc + unat w"
    by (simp add: f unat_word_ariths(1))
qed

lemma idle_holds: "send_idle pc \<Longrightarrow> reserved_at s pc = 0"
  by (cases pc) simp_all

lemma begin_holds: "reserved_at s (send_begin b) = 0" "pc_fits s (send_begin b)"
  by (simp_all add: send_begin_def)

lemma accept_room:
  assumes "accept m x r = (e, r')"
  shows "rcv_closed r' = rcv_closed r \<and> rcv_msgOverhead r' = rcv_msgOverhead r
    \<and> (rcv_closed r' \<or> unat (rcv_currentWindow r) \<le> unat (rcv_currentWindow r') + frame_cost m (rcv_msgOverhead r) x)"
proof (cases rule: accept_cases [where r = r and m = m and x = x])
  case queued
  then show ?thesis
    using assms unat_window_minus_charge [OF queued(2)] by (auto simp: charge_frame_cost)
qed (use assms in auto)

lemma close_receiver_overhead [simp]: "rcv_msgOverhead (close_receiver r) = rcv_msgOverhead r"
  by (auto simp: close_receiver_def handleClosure_def Let_def)

lemma cancel_receiver_room [simp]:
  "rcv_msgOverhead (cancel_receiver r) = rcv_msgOverhead r" "rcv_currentWindow (cancel_receiver r) = rcv_currentWindow r"
  by (auto simp: cancel_receiver_def handleClosure_def Let_def)

text \<open>What reading gives back of the window goes into the updates.\<close>

definition gives_back :: "'a receiver \<Rightarrow> u32 list \<Rightarrow> 'a receiver \<Rightarrow> bool" where
  "gives_back r us r' \<longleftrightarrow> rcv_closed r' = rcv_closed r \<and> rcv_msgOverhead r' = rcv_msgOverhead r
     \<and> unat (rcv_currentWindow r') = unat (rcv_currentWindow r) + (\<Sum>u\<leftarrow>us. unat u)"

lemma gives_back_refl [simp]: "gives_back r [] r"
  by (simp add: gives_back_def)

lemma gives_back_trans: "gives_back r us r' \<Longrightarrow> gives_back r' us' r'' \<Longrightarrow> gives_back r (us @ us') r''"
  by (simp add: gives_back_def)

lemma dequeue_gives_back:
  assumes "recv_inv m W r" and "dequeue m r = (d, r')"
  shows "gives_back r (case d of DeqItem x u \<Rightarrow> acked u | _ \<Rightarrow> []) r'"
proof (cases rule: dequeue_cases [where r = r and m = m])
  case (acks x rest u)
  then show ?thesis
    using assms(2) unat_new_windowUpdate [OF assms(1) acks(2)]
    by (auto simp: gives_back_def acked_def unat_add_no_wrap word_gt_0)
qed (use assms(2) in \<open>auto simp: gives_back_def acked_def\<close>)

lemma client_loop_gives_back:
  assumes "client_read_loop peer dn k b r = (res, r', us)" and "recv_inv client_measure W r"
  shows "gives_back r us r'"
  using assms
proof (induction "length (rcv_items r)" arbitrary: k b r us rule: less_induct)
  case less
  from less.prems(1) show ?case
  proof (cases rule: client_reader.loop_cases)
    case (continues f u r1 k' b' us')
    have "recv_inv client_measure W r1" by (rule recv_inv_dequeue_eq [OF continues(1) less.prems(2)])
    then show ?thesis
      using less.hyps [OF continues(4,3)] dequeue_gives_back [OF less.prems(2) continues(1)] continues(5)
      by (auto intro: gives_back_trans)
  qed (use dequeue_gives_back [OF less.prems(2)] in force)+
qed

lemma server_loop_gives_back:
  assumes "server_read_loop c hc h k b r = (res, r', us)" and "recv_inv server_measure W r"
  shows "gives_back r us r'"
  using assms
proof (induction "length (rcv_items r)" arbitrary: h k b r us rule: less_induct)
  case less
  show ?case
  proof (cases "h \<and> c \<noteq> None")
    case True
    then show ?thesis using less.prems by (auto simp: server_read_loop.simps [of c hc True k b r])
  next
    case False
    obtain d r1 where deq: "dequeue server_measure r = (d, r1)" by (cases "dequeue server_measure r")
    note gb = dequeue_gives_back [OF less.prems(2) deq]
    have inv: "recv_inv server_measure W r1" by (rule recv_inv_dequeue_eq [OF deq less.prems(2)])
    show ?thesis
    proof (cases d)
      case (DeqItem f u)
      note hyp = less.hyps [OF dequeue_shrinks [OF deq [unfolded DeqItem]] _ inv]
      show ?thesis
        using less.prems(1) deq gb DeqItem hyp
        by (auto simp: server_read_loop_past [OF False] then_read_def intro: gives_back_trans split: sum.splits prod.splits)
    qed (use less.prems(1) deq gb in \<open>auto simp: server_read_loop_past [OF False]\<close>)
  qed
qed

subsection \<open>Frames on their way\<close>

fun c2s_upd :: "ClientToServerFrame option \<Rightarrow> nat" where
  "c2s_upd (Some (ClientToServer_WindowUpdate w)) = unat w"
| "c2s_upd _ = 0"

fun s2c_upd :: "ServerToClientFrame option \<Rightarrow> nat" where
  "s2c_upd (Some (ServerToClient_WindowUpdate w)) = unat w"
| "s2c_upd _ = 0"

definition c2s_cost :: "u32 \<Rightarrow> ClientToServerFrame option \<Rightarrow> nat" where
  "c2s_cost v f = (case f of None \<Rightarrow> 0 | Some g \<Rightarrow> frame_cost server_measure v g)"

definition s2c_cost :: "u32 \<Rightarrow> ServerToClientFrame option \<Rightarrow> nat" where
  "s2c_cost v f = (case f of None \<Rightarrow> 0 | Some g \<Rightarrow> frame_cost client_measure v g)"

definition up_cost :: "u32 \<Rightarrow> i64 \<Rightarrow> ClientToServer list \<Rightarrow> nat" where
  "up_cost v i ms = (\<Sum>m\<leftarrow>ms. if C2S_StreamId m = i then c2s_cost v (C2S_Frame m) else 0)"

definition up_upd :: "i64 \<Rightarrow> ClientToServer list \<Rightarrow> nat" where
  "up_upd i ms = (\<Sum>m\<leftarrow>ms. if C2S_StreamId m = i then c2s_upd (C2S_Frame m) else 0)"

definition down_cost :: "u32 \<Rightarrow> i64 \<Rightarrow> ServerToClient list \<Rightarrow> nat" where
  "down_cost v i ms = (\<Sum>m\<leftarrow>ms. if S2C_StreamId m = i then s2c_cost v (S2C_Frame m) else 0)"

definition down_upd :: "i64 \<Rightarrow> ServerToClient list \<Rightarrow> nat" where
  "down_upd i ms = (\<Sum>m\<leftarrow>ms. if S2C_StreamId m = i then s2c_upd (S2C_Frame m) else 0)"

lemmas account_defs = up_cost_def up_upd_def down_cost_def down_upd_def

lemma account_simps [simp]:
  "up_cost v i [] = 0" "up_upd i [] = 0" "down_cost v i [] = 0" "down_upd i [] = 0"
  "up_cost v i (x @ y) = up_cost v i x + up_cost v i y" "up_upd i (x @ y) = up_upd i x + up_upd i y"
  "down_cost v i (x' @ y') = down_cost v i x' + down_cost v i y'" "down_upd i (x' @ y') = down_upd i x' + down_upd i y'"
  by (simp_all add: account_defs)

lemma account_other [simp]:
  "i \<noteq> j \<Longrightarrow> up_cost v i (map (c2s j) fs) = 0" "i \<noteq> j \<Longrightarrow> up_upd i (map (c2s j) fs) = 0"
  "i \<noteq> j \<Longrightarrow> down_cost v i (map (s2c j) gs) = 0" "i \<noteq> j \<Longrightarrow> down_upd i (map (s2c j) gs) = 0"
  by (simp_all add: account_defs sum_list_eq_0_iff)

lemma account_none:
  "i \<notin> C2S_StreamId ` set ms \<Longrightarrow> up_cost v i ms = 0 \<and> up_upd i ms = 0"
  "i \<notin> S2C_StreamId ` set ns \<Longrightarrow> down_cost v i ns = 0 \<and> down_upd i ns = 0"
  by (auto simp: account_defs sum_list_eq_0_iff)

text \<open>Frames that carry neither data nor updates.\<close>

definition up_quiet :: "ClientToServer \<Rightarrow> bool" where
  "up_quiet m \<longleftrightarrow> (\<forall>v. c2s_cost v (C2S_Frame m) = 0) \<and> c2s_upd (C2S_Frame m) = 0"

definition down_quiet :: "ServerToClient \<Rightarrow> bool" where
  "down_quiet m \<longleftrightarrow> (\<forall>v. s2c_cost v (S2C_Frame m) = 0) \<and> s2c_upd (S2C_Frame m) = 0"

lemma up_quiet_account: "(\<And>m. m \<in> set ms \<Longrightarrow> up_quiet m) \<Longrightarrow> up_cost v i ms = 0 \<and> up_upd i ms = 0"
  by (auto simp: account_defs sum_list_eq_0_iff up_quiet_def)

lemma down_quiet_account: "(\<And>m. m \<in> set ms \<Longrightarrow> down_quiet m) \<Longrightarrow> down_cost v i ms = 0 \<and> down_upd i ms = 0"
  by (auto simp: account_defs sum_list_eq_0_iff down_quiet_def)

lemma quiet_frames [simp]:
  "up_quiet (c2s i ClientToServer_Cancel)" "up_quiet (c2s i ClientToServer_HalfClose)" "up_quiet (c2s i (ClientToServer_NewStream f))"
  "down_quiet (s2c i (ServerToClient_ResponseHeaders h))" "down_quiet (s2c i (ServerToClient_CloseStream cl))"
  "down_quiet (settings_frame opt)"
  by (simp_all add: up_quiet_def down_quiet_def c2s_cost_def s2c_cost_def frame_cost_def settings_frame_def)

lemma up_updates: "up_cost v i (map (c2s i) (map ClientToServer_WindowUpdate us)) = 0"
  "up_upd i (map (c2s i) (map ClientToServer_WindowUpdate us)) = (\<Sum>u\<leftarrow>us. unat u)"
  by (induction us) (simp_all add: account_defs c2s_cost_def frame_cost_def)

lemma down_updates: "down_cost v i (map (s2c i) (map ServerToClient_WindowUpdate us)) = 0"
  "down_upd i (map (s2c i) (map ServerToClient_WindowUpdate us)) = (\<Sum>u\<leftarrow>us. unat u)"
  by (induction us) (simp_all add: account_defs s2c_cost_def frame_cost_def)

lemma up_chunks: "up_cost v i (map (c2s i) (map (\<lambda>(d, n, b). client_sendData d n b) cs))
    = (\<Sum>(d, n, b)\<leftarrow>cs. length d + (if b then unat v else 0))"
  "up_upd i (map (c2s i) (map (\<lambda>(d, n, b). client_sendData d n b) cs)) = 0"
  by (induction cs) (auto simp: account_defs c2s_cost_def req.cost_frame client_sendData_def frame_cost_def)

lemma down_chunks: "down_cost v i (map (s2c i) (map (\<lambda>(d, n, b). server_sendFunc d n b) cs))
    = (\<Sum>(d, n, b)\<leftarrow>cs. length d + (if b then unat v else 0))"
  "down_upd i (map (s2c i) (map (\<lambda>(d, n, b). server_sendFunc d n b) cs)) = 0"
  by (induction cs) (auto simp: account_defs s2c_cost_def server_sendFunc_def frame_cost_def)

subsection \<open>Steps of the client\<close>

definition client_endpoint :: "tunnelClientStream \<Rightarrow> endpoint" where
  "client_endpoint st = endpoint_of (cs_sender st) (cs_pc st) (cs_receiver st)"

definition client_parts :: "u32 \<Rightarrow> tunnelClientStream \<Rightarrow> bool" where
  "client_parts v st \<longleftrightarrow> parts_ok v (cs_sender st) (cs_pc st) (cs_receiver st)"

text \<open>A step of stream \<open>i\<close> that took in the frames \<open>inp\<close> and sent \<open>out\<close>.\<close>

definition cs_moves :: "u32 \<Rightarrow> i64 \<Rightarrow> ServerToClient list \<Rightarrow> tunnelClientStream \<Rightarrow> ClientToServer list \<Rightarrow> tunnelClientStream \<Rightarrow> bool" where
  "cs_moves v i inp st out st' \<longleftrightarrow> (client_parts v st \<longrightarrow> client_parts v st'
     \<and> ep_step (down_cost v i inp) (down_upd i inp) (client_endpoint st) (up_cost v i out) (up_upd i out) (client_endpoint st'))"

definition client_moves :: "u32 \<Rightarrow> ServerToClient list \<Rightarrow> tunnelChannel \<Rightarrow> ClientToServer list \<Rightarrow> tunnelChannel \<Rightarrow> bool" where
  "client_moves v inp c out c' \<longleftrightarrow> ch_sent c' = ch_sent c @ out
     \<and> (ch_useRevision c', ch_tunnelOpts c', ch_settings c') = (ch_useRevision c, ch_tunnelOpts c, ch_settings c)
     \<and> (\<forall>m\<in>set (ch_jobs c'). m \<in> set (ch_jobs c) \<or> up_quiet m)
     \<and> (\<forall>i. ch_heap c i = None \<longrightarrow> ch_heap c' i = None)
     \<and> (\<forall>i st. ch_heap c i = Some st \<longrightarrow> (\<exists>st'. ch_heap c' i = Some st' \<and> cs_moves v i inp st out st'))"

lemmas endpoint_defs = cs_moves_def client_endpoint_def client_parts_def endpoint_of_def parts_ok_def ep_step_def

lemma cs_moves_refl [simp]: "up_cost v i out = 0 \<Longrightarrow> up_upd i out = 0 \<Longrightarrow> cs_moves v i inp st out st"
  by (simp add: cs_moves_def)

lemma cs_moves_trans:
  "cs_moves v i inp st out st' \<Longrightarrow> cs_moves v i inp' st' out' st'' \<Longrightarrow> cs_moves v i (inp @ inp') st (out @ out') st''"
  by (auto simp: cs_moves_def intro: ep_step_trans)

lemma client_moves_trans:
  assumes "client_moves v inp c out c1" and "client_moves v inp' c1 out' c2"
  shows "client_moves v (inp @ inp') c (out @ out') c2"
proof -
  have "\<exists>st'. ch_heap c2 i = Some st' \<and> cs_moves v i (inp @ inp') st (out @ out') st'" if "ch_heap c i = Some st" for i st
  proof -
    obtain st1 where 1: "ch_heap c1 i = Some st1" "cs_moves v i inp st out st1"
      using assms(1) \<open>ch_heap c i = Some st\<close> unfolding client_moves_def by blast
    obtain st2 where 2: "ch_heap c2 i = Some st2" "cs_moves v i inp' st1 out' st2"
      using assms(2) 1(1) unfolding client_moves_def by blast
    show ?thesis using 2(1) cs_moves_trans [OF 1(2) 2(2)] by blast
  qed
  moreover have "\<forall>i. ch_heap c i = None \<longrightarrow> ch_heap c2 i = None"
    "\<forall>m\<in>set (ch_jobs c2). m \<in> set (ch_jobs c) \<or> up_quiet m"
    using assms unfolding client_moves_def by blast+
  moreover have "ch_sent c2 = ch_sent c @ out @ out'"
    "(ch_useRevision c2, ch_tunnelOpts c2, ch_settings c2) = (ch_useRevision c, ch_tunnelOpts c, ch_settings c)"
    using assms by (simp_all add: client_moves_def)
  ultimately show ?thesis unfolding client_moves_def by blast
qed

lemma client_moves_job:
  "client_moves v inp c out c' \<Longrightarrow> up_quiet j \<Longrightarrow> client_moves v inp c out (c'\<lparr>ch_jobs := ch_jobs c' @ [j]\<rparr>)"
  by (auto simp: client_moves_def)

lemma client_moves_refl [simp]: "client_moves v inp c [] c"
  by (simp add: client_moves_def split: option.splits)

lemma client_moves_frame [simp]:
  "client_moves v inp c out (c'\<lparr>ch_mem := x0\<rparr>) = client_moves v inp c out c'"
  "client_moves v inp c out (c'\<lparr>ch_loop := x1\<rparr>) = client_moves v inp c out c'"
  "client_moves v inp c out (c'\<lparr>ch_ctx := x2\<rparr>) = client_moves v inp c out c'"
  "client_moves v inp c out (c'\<lparr>ch_streams := x3\<rparr>) = client_moves v inp c out c'"
  "client_moves v inp c out (c'\<lparr>ch_err := x4\<rparr>) = client_moves v inp c out c'"
  "client_moves v inp c out (c'\<lparr>ch_finished := x5\<rparr>) = client_moves v inp c out c'"
  "client_moves v inp c out (c'\<lparr>ch_tearDowns := x6\<rparr>) = client_moves v inp c out c'"
  "client_moves v inp c out (c'\<lparr>ch_streamDone := x7\<rparr>) = client_moves v inp c out c'"
  "client_moves v inp c out (removeStream i c') = client_moves v inp c out c'"
  by (simp_all add: client_moves_def removeStream_def split: option.splits)

lemma client_moves_put:
  assumes "ch_heap c i = Some st" and "cs_moves v i inp st (map (c2s i) fs) st'"
  shows "client_moves v inp c (map (c2s i) fs) ((put_stream i st' c)\<lparr>ch_sent := ch_sent c @ map (c2s i) fs\<rparr>)"
  using assms by (auto simp: client_moves_def put_stream_def split: option.splits)

lemma client_moves_put_only:
  "ch_heap c i = Some st \<Longrightarrow> cs_moves v i inp st [] st' \<Longrightarrow> client_moves v inp c [] (put_stream i st' c)"
  using client_moves_put [of c i st v inp "[]" st'] by (simp add: client_moves_def put_stream_def)

lemma client_moves_finish: "client_moves v inp c [] (snd (finishStream e tr i c))"
proof (cases "ch_heap c i")
  case (Some st)
  show ?thesis
  proof (cases "client_finish e tr st")
    case (Some st')
    then have "cs_moves v i inp st [] st'"
      by (auto simp: client_finish_def endpoint_defs split: if_splits)
    from client_moves_put_only [OF \<open>ch_heap c i = Some st\<close> this] show ?thesis
      by (simp add: finishStream_def \<open>ch_heap c i = Some st\<close> Some)
  qed (simp add: finishStream_def Some)
qed (simp add: finishStream_def)

lemma client_moves_cancel: "client_moves v inp c [] (cancelStream e i c)"
proof -
  obtain b d where f: "finishStream e None i c = (b, d)" by fastforce
  then have d: "client_moves v inp c [] d" using client_moves_finish [of v inp c e None i] by simp
  show ?thesis
  proof (cases "b \<and> ch_heap d i \<noteq> None")
    case True
    then obtain st where st: "ch_heap d i = Some st" by blast
    let ?d = "put_stream i (st\<lparr>cs_receiver := cancel_receiver (cs_receiver st)\<rparr>) d"
    have "cs_moves v i [] st [] (st\<lparr>cs_receiver := cancel_receiver (cs_receiver st)\<rparr>)"
      by (simp add: endpoint_defs)
    from client_moves_job [OF client_moves_trans [OF d client_moves_put_only [OF st this]], of "c2s i ClientToServer_Cancel"]
    show ?thesis using True st f by (simp add: cancelStream_def put_stream_def)
  qed (use d f in \<open>auto simp: cancelStream_def split: bool.splits option.splits\<close>)
qed

lemma client_moves_close: "client_moves v inp c [] (snd (channel_close e c))"
proof -
  have same: "cs_moves v i inp st [] (cancel_ctx st)" for i st
    by (simp add: cancel_ctx_def endpoint_defs)
  show ?thesis
    by (simp add: client_moves_def channel_close_def Let_def same split: option.splits)
qed

text \<open>Reading.\<close>

lemma client_readMsgLocked_gives_back:
  assumes "client_readMsgLocked peer e st = (res, st', us)" and "recv_inv client_measure W (cs_receiver st)"
  shows "gives_back (cs_receiver st) us (cs_receiver st') \<and> recv_inv client_measure W (cs_receiver st')
    \<and> cs_sender st' = cs_sender st \<and> cs_pc st' = cs_pc st"
proof -
  have rd: "reads_from st st'" by (rule client_readMsgLocked_reads [OF assms(1)])
  then have "recv_inv client_measure W (cs_receiver st')" "cs_sender st' = cs_sender st"
    using assms(2) reads_from_fields [OF rd] by (simp_all add: reads_from_def)
  moreover have "cs_pc st' = cs_pc st" using rd by (cases st; cases st'; simp add: reads_from_def)
  moreover have "gives_back (cs_receiver st) us (cs_receiver st')"
    using assms by (auto simp: client_readMsgLocked_def Let_def dest!: client_loop_gives_back
        split: if_splits prod.splits read_res.splits option.splits)
  ultimately show ?thesis by blast
qed

definition client_gives :: "tunnelClientStream \<Rightarrow> u32 list \<Rightarrow> tunnelClientStream \<Rightarrow> bool" where
  "client_gives st us st' \<longleftrightarrow> gives_back (cs_receiver st) us (cs_receiver st') \<and> cs_sender st' = cs_sender st \<and> cs_pc st' = cs_pc st"

lemma client_readSecond_gives:
  "client_readSecond peer d e st = (res, st', us) \<Longrightarrow> recv_inv client_measure W (cs_receiver st) \<Longrightarrow> client_gives st us st'"
  by (auto simp: client_readSecond_def client_gives_def Let_def dest!: client_readMsgLocked_gives_back
      split: prod.splits read_res.splits option.splits if_splits)

lemma client_readFirst_gives:
  assumes "client_readFirst peer e st = (res, st', us)" and "recv_inv client_measure W (cs_receiver st)"
  shows "client_gives st us st'"
proof -
  obtain res1 st1 us1 where lk: "client_readMsgLocked peer e st = (res1, st1, us1)" by (metis prod_cases3)
  have g: "gives_back (cs_receiver st) us1 (cs_receiver st1) \<and> recv_inv client_measure W (cs_receiver st1)
      \<and> cs_sender st1 = cs_sender st \<and> cs_pc st1 = cs_pc st"
    by (rule client_readMsgLocked_gives_back [OF lk assms(2)])
  have "us = us1 \<and> st' = st1 \<or> (\<exists>d res2 us2. client_readSecond peer d None st1 = (res2, st', us2) \<and> us = us1 @ us2)"
    using assms(1) lk by (auto simp: client_readFirst_def split: read_res.splits prod.splits if_splits)
  then show ?thesis
    using g by (auto simp: client_gives_def dest!: client_readSecond_gives intro: gives_back_trans)
qed

lemma client_readMsg_gives:
  "client_readMsg peer ph st = (res, st', us) \<Longrightarrow> recv_inv client_measure W (cs_receiver st) \<Longrightarrow> client_gives st us st'"
  by (auto simp: client_readMsg_def split: option.splits read_phase.splits dest: client_readFirst_gives client_readSecond_gives)

lemma cs_moves_readMsg:
  assumes "client_readMsg peer ph st = (res, st', us)" and "client_stream_ok W st"
  shows "cs_moves v i [] st (map (c2s i) (client_sendUpdates us st)) st'"
proof -
  have "recv_inv client_measure W (cs_receiver st)" "cs_done st \<noteq> None \<longrightarrow> rcv_closed (cs_receiver st)"
    using assms(2) by (simp_all add: client_stream_ok_def)
  with client_readMsg_gives [OF assms(1)] show ?thesis
    by (auto simp: client_gives_def gives_back_def client_sendUpdates_def endpoint_defs up_updates simp del: map_map)
qed

text \<open>Sending.\<close>

lemma cs_moves_SendMsg: "client_SendMsg ms m st = Some (e, st') \<Longrightarrow> cs_moves v i inp st [] st'"
  by (auto simp: client_SendMsg_def Let_def endpoint_defs idle_holds begin_holds split: if_splits sum.splits)

lemma cs_moves_send_do:
  assumes "client_send_do a st = Some (st', fs)" and "send_own a" and "sender_wf (cs_sender st)"
  shows "cs_moves v i inp st (map (c2s i) fs) st'"
proof -
  let ?y = "(sys_init (cs_sender st))\<lparr>sys_pc := cs_pc st, sys_size := cs_sendSize st, sys_ctx := cs_ctx st\<rparr>"
  obtain z where z: "sys_do a ?y = Some z" "st' = st\<lparr>cs_sender := sys_sender z, cs_pc := sys_pc z\<rparr>"
      "fs = map (\<lambda>(d, n, b). client_sendData d n b) (sys_out z)"
    using assms(1) by (auto simp: client_send_do_def simp del: sys_do.simps split: option.splits)
  have y: "sys_sender ?y = cs_sender st" "sys_pc ?y = cs_pc st" "sys_out ?y = []" by (simp_all add: sys_init_def)
  from send_step_holds [OF z(1) assms(2) y(3), unfolded y] assms(3) show ?thesis
    by (auto simp: z(2,3) endpoint_defs up_chunks simp del: map_map intro: trans_le_add1)
qed

lemma cs_moves_CloseSend:
  assumes "client_CloseSend r st = Some (e, st', fs)"
  shows "cs_moves v i inp st (if b then map (c2s i) fs else []) st'"
proof -
  have "up_cost v i (map (c2s i) fs) = 0 \<and> up_upd i (map (c2s i) fs) = 0"
    using assms by (intro up_quiet_account) (auto simp: client_CloseSend_def split: if_splits)
  then show ?thesis
    using assms by (auto simp: client_CloseSend_def endpoint_defs split: if_splits)
qed

subsection \<open>The client's own steps\<close>

lemma client_moves_RecvMsg:
  assumes "stream_RecvMsg ph i c = Some (r, c')" and "streams_ok c"
  shows "\<exists>out. client_moves v [] c out c'"
proof -
  obtain st where st: "ch_heap c i = Some st"
    using assms(1) by (auto simp: stream_RecvMsg_def split: option.splits)
  obtain res st' us where rd: "client_readMsg (fst (tunnelRoles (ch_reverse c))) ph st = (res, st', us)"
    by (metis prod_cases3)
  let ?out = "map (c2s i) (client_sendUpdates us st)"
  let ?c1 = "(put_stream i st' c)\<lparr>ch_sent := ch_sent c @ ?out\<rparr>"
  have "client_stream_ok (chan_window c) st" using assms(2) st by (simp add: streams_ok_def)
  then have c1: "client_moves v [] c ?out ?c1" by (intro client_moves_put [OF st] cs_moves_readMsg [OF rd])
  have "client_moves v [] c ?out (cancelStream e i ?c1)" for e
    using client_moves_trans [OF c1 client_moves_cancel [of v "[]" ?c1 e i]] by simp
  then show ?thesis
    using assms(1) st rd c1
    by (auto simp: stream_RecvMsg_def Let_def split: msg_res.splits option.splits if_splits prod.splits)
qed

lemma client_moves_send_do:
  assumes "stream_send_do a i c = Some c'" and "streams_ok c"
  shows "\<exists>out. client_moves v [] c out c'"
proof -
  obtain st st' fs where x: "ch_heap c i = Some st" "send_own a" "client_send_do a st = Some (st', fs)"
    "c' = (put_stream i st' c)\<lparr>ch_sent := ch_sent c @ map (c2s i) fs\<rparr>"
    using assms(1) by (auto simp: stream_send_do_def split: option.splits if_splits)
  have "sender_wf (cs_sender st)" using assms(2) x(1) by (simp add: streams_ok_def client_stream_ok_def)
  from client_moves_put [OF x(1) cs_moves_send_do [OF x(3,2) this]] show ?thesis unfolding x(4) by blast
qed

lemma client_moves_CloseSend:
  assumes "stream_CloseSend r i c = Some (e, c')"
  shows "\<exists>out. client_moves v [] c out c'"
proof -
  obtain st st' fs where x: "ch_heap c i = Some st" "client_CloseSend r st = Some (e, st', fs)"
    "c' = (put_stream i st' c)\<lparr>ch_sent := ch_sent c @ map (c2s i) (if r = None then fs else [])\<rparr>"
    using assms by (auto simp: stream_CloseSend_def split: option.splits)
  have "cs_moves v i [] st (map (c2s i) (if r = None then fs else [])) st'"
    using cs_moves_CloseSend [OF x(2), of v i "[]" "r = None"] by (cases r) simp_all
  from client_moves_put [OF x(1) this] show ?thesis unfolding x(3) by blast
qed

lemma client_moves_run_job:
  assumes "run_job r c = Some c'" and "\<forall>m\<in>set (ch_jobs c). up_quiet m"
  shows "\<exists>out. client_moves v [] c out c'"
proof -
  obtain j js where j: "ch_jobs c = j # js" "c' = c\<lparr>ch_jobs := js, ch_sent := ch_sent c @ (if r = None then [j] else [])\<rparr>"
    using assms(1) by (auto simp: run_job_def split: list.splits)
  have "up_cost v i (if r = None then [j] else []) = 0 \<and> up_upd i (if r = None then [j] else []) = 0" for i
    using assms(2) j(1) by (intro up_quiet_account) (auto split: if_splits)
  then have "client_moves v [] c (if r = None then [j] else []) c'"
    by (simp add: client_moves_def j)
  then show ?thesis by blast
qed

lemma client_moves_simple:
  assumes "chan_do L a c = Some c'" and "a = ActClose e \<or> a = ActTunnelCtx x \<or> a = ActStreamCtx i x \<or> a = ActWatch i \<or> a = ActSendMsg i b \<or> a = ActRecv (Inl x)"
  shows "client_moves v [] c [] c'"
proof -
  have ctx: "cs_moves v i [] st [] (st\<lparr>cs_ctx := y\<rparr>)" for st y by (simp add: endpoint_defs)
  show ?thesis
    using assms
    by (auto simp: client_moves_close end_stream_ctx_def watchStream_def client_moves_cancel stream_SendMsg_def recvLoop_def recvLoop_start_def
        recvLoop_step_def recv_exit_def Let_def intro!: client_moves_put_only ctx cs_moves_SendMsg split: option.splits if_splits loop_pc.splits)
qed

lemma client_moves_own:
  assumes "chan_do L a c = Some c'" and "client_own a c" and "\<nexists>x r. a = ActNew x r" and "chan_inv c" and "\<forall>m\<in>set (ch_jobs c). up_quiet m"
  shows "\<exists>out. client_moves v [] c out c'"
proof -
  have ok: "streams_ok c" using assms(4) by (simp add: chan_inv_def)
  show ?thesis
  proof (cases a)
    case (ActRecv inp)
    then obtain x where "inp = Inl x" using assms(2) by (cases inp) auto
    then show ?thesis using client_moves_simple [OF assms(1)] ActRecv by blast
  next
    case (ActSend i b)
    then show ?thesis using assms(1) client_moves_send_do [OF _ ok] by simp
  next
    case (ActCloseSend i r)
    then show ?thesis using assms(1) client_moves_CloseSend by auto
  next
    case (ActRecvMsg i ph)
    then show ?thesis using assms(1) client_moves_RecvMsg [OF _ ok] by auto
  next
    case (ActJob r)
    then show ?thesis using assms(1,5) client_moves_run_job by simp
  qed (use assms(3) client_moves_simple [OF assms(1)] in blast)+
qed

subsection \<open>Frames that reach the client\<close>

lemma cs_moves_accept:
  assumes "accept client_measure f (cs_receiver st) = (e, r)"
  shows "cs_moves v i [s2c i f] st [] (st\<lparr>cs_receiver := r\<rparr>)"
  using accept_room [OF assms] by (auto simp: endpoint_defs down_cost_def s2c_cost_def)

lemma client_moves_accept_data: "client_moves v [s2c i f] c [] (accept_data f i c)"
proof (cases "ch_heap c i")
  case (Some st)
  obtain e r where acc: "accept client_measure f (cs_receiver st) = (e, r)" by fastforce
  let ?c = "put_stream i (st\<lparr>cs_receiver := r\<rparr>) c"
  have put: "client_moves v [s2c i f] c [] ?c" by (rule client_moves_put_only [OF Some cs_moves_accept [OF acc]])
  have "client_moves v [s2c i f] c [] (snd (finishStream x None i ?c))" for x
    using client_moves_trans [OF put client_moves_finish [of v "[]" ?c x None i]] by simp
  then show ?thesis using put by (simp add: accept_data_def Some acc Let_def split: option.splits)
qed (simp add: accept_data_def)

lemma client_moves_acceptServerFrame:
  "client_moves v [\<lparr>S2C_StreamId = i, S2C_Frame = f\<rparr>] c [] (acceptServerFrame L f i c)"
proof -
  have upd: "cs_moves v i [s2c i (ServerToClient_WindowUpdate w)] st [] (st\<lparr>cs_sender := updateWindow w (cs_sender st)\<rparr>)" for w st
    using updateWindow_holds(3) [of w "cs_sender st" "cs_pc st"]
    by (auto simp: updateWindow_holds(1,2) endpoint_defs down_upd_def down_cost_def s2c_cost_def frame_cost_def)
  have hdr: "cs_moves v i inp st [] st'" if "client_gotHeaders h st = Some st'" for h st st' inp
    using that by (auto simp: client_gotHeaders_def endpoint_defs split: if_splits)
  show ?thesis
    by (cases "(L, f, i, c)" rule: acceptServerFrame.cases)
       (auto simp: client_moves_finish client_moves_accept_data intro: client_moves_put_only upd hdr split: option.splits)
qed

lemma client_moves_running:
  assumes "recvLoop L (Inr m) c = Some c'" and "ch_loop c = LoopRunning"
  shows "client_moves v [m] c [] c'"
proof -
  have "client_moves v [m] c [] (acceptServerFrame L (S2C_Frame m) (S2C_StreamId m) c)"
    using client_moves_acceptServerFrame [of v "S2C_StreamId m" "S2C_Frame m" c L] by (cases m) simp
  then show ?thesis
    using assms
    by (auto simp: recvLoop_def recvLoop_step_def recv_exit_def getStream_def client_moves_close split: if_splits)
qed

subsection \<open>Steps of the server\<close>

definition server_endpoint :: "tunnelServerStream \<Rightarrow> endpoint" where
  "server_endpoint st = endpoint_of (ss_sender st) (ss_pc st) (ss_receiver st)"

definition server_parts :: "u32 \<Rightarrow> tunnelServerStream \<Rightarrow> bool" where
  "server_parts v st \<longleftrightarrow> parts_ok v (ss_sender st) (ss_pc st) (ss_receiver st)"

definition ss_moves :: "u32 \<Rightarrow> i64 \<Rightarrow> ClientToServer list \<Rightarrow> tunnelServerStream \<Rightarrow> ServerToClient list \<Rightarrow> tunnelServerStream \<Rightarrow> bool" where
  "ss_moves v i inp st out st' \<longleftrightarrow> (server_parts v st \<longrightarrow> server_parts v st'
     \<and> ep_step (up_cost v i inp) (up_upd i inp) (server_endpoint st) (down_cost v i out) (down_upd i out) (server_endpoint st'))"

definition server_moves :: "u32 \<Rightarrow> ClientToServer list \<Rightarrow> tunnelServer \<Rightarrow> ServerToClient list \<Rightarrow> tunnelServer \<Rightarrow> bool" where
  "server_moves v inp s out s' \<longleftrightarrow> sv_sent s' = sv_sent s @ out \<and> sv_tunnelOpts s' = sv_tunnelOpts s
     \<and> (\<forall>m\<in>set (concat (sv_jobs s')). m \<in> set (concat (sv_jobs s)) \<or> down_quiet m)
     \<and> (\<forall>i. sv_heap s i = None \<longrightarrow> sv_heap s' i = None \<and> down_cost v i out = 0 \<and> down_upd i out = 0)
     \<and> (\<forall>i st. sv_heap s i = Some st \<longrightarrow> (\<exists>st'. sv_heap s' i = Some st' \<and> ss_moves v i inp st out st'))"

lemmas server_end_defs = ss_moves_def server_endpoint_def server_parts_def endpoint_of_def parts_ok_def ep_step_def

lemma ss_moves_refl [simp]: "down_cost v i out = 0 \<Longrightarrow> down_upd i out = 0 \<Longrightarrow> ss_moves v i inp st out st"
  by (simp add: ss_moves_def)

lemma ss_moves_trans:
  "ss_moves v i inp st out st' \<Longrightarrow> ss_moves v i inp' st' out' st'' \<Longrightarrow> ss_moves v i (inp @ inp') st (out @ out') st''"
  by (auto simp: ss_moves_def intro: ep_step_trans)

lemma server_moves_trans:
  assumes "server_moves v inp s out s1" and "server_moves v inp' s1 out' s2"
  shows "server_moves v (inp @ inp') s (out @ out') s2"
proof -
  have "\<exists>st'. sv_heap s2 i = Some st' \<and> ss_moves v i (inp @ inp') st (out @ out') st'" if "sv_heap s i = Some st" for i st
  proof -
    obtain st1 where 1: "sv_heap s1 i = Some st1" "ss_moves v i inp st out st1"
      using assms(1) \<open>sv_heap s i = Some st\<close> unfolding server_moves_def by blast
    obtain st2 where 2: "sv_heap s2 i = Some st2" "ss_moves v i inp' st1 out' st2"
      using assms(2) 1(1) unfolding server_moves_def by blast
    show ?thesis using 2(1) ss_moves_trans [OF 1(2) 2(2)] by blast
  qed
  moreover have "\<forall>m\<in>set (concat (sv_jobs s2)). m \<in> set (concat (sv_jobs s)) \<or> down_quiet m"
    using assms unfolding server_moves_def by blast
  moreover have "\<forall>i. sv_heap s i = None \<longrightarrow> sv_heap s2 i = None \<and> down_cost v i (out @ out') = 0 \<and> down_upd i (out @ out') = 0"
    using assms by (simp add: server_moves_def)
  moreover have "sv_sent s2 = sv_sent s @ out @ out'" "sv_tunnelOpts s2 = sv_tunnelOpts s"
    using assms by (simp_all add: server_moves_def)
  ultimately show ?thesis unfolding server_moves_def by blast
qed

lemma server_moves_refl [simp]: "server_moves v inp s [] s"
  by (simp add: server_moves_def)

lemma server_moves_frame [simp]:
  "server_moves v inp s out (s'\<lparr>sv_loop := x0\<rparr>) = server_moves v inp s out s'"
  "server_moves v inp s out (s'\<lparr>sv_ctx := x1\<rparr>) = server_moves v inp s out s'"
  "server_moves v inp s out (s'\<lparr>sv_serving := x2\<rparr>) = server_moves v inp s out s'"
  "server_moves v inp s out (s'\<lparr>sv_waiting := x3\<rparr>) = server_moves v inp s out s'"
  "server_moves v inp s out (s'\<lparr>sv_streams := x4\<rparr>) = server_moves v inp s out s'"
  "server_moves v inp s out (server_removeStream i s') = server_moves v inp s out s'"
  by (simp_all add: server_moves_def server_removeStream_def)

lemma server_moves_put:
  assumes "sv_heap s i = Some st" and "ss_moves v i inp st (map (s2c i) fs) st'"
  shows "server_moves v inp s (map (s2c i) fs) ((put_server i st' s)\<lparr>sv_sent := sv_sent s @ map (s2c i) fs\<rparr>)"
  using assms by (auto simp: server_moves_def)

lemma server_moves_put_only:
  "sv_heap s i = Some st \<Longrightarrow> ss_moves v i inp st [] st' \<Longrightarrow> server_moves v inp s [] (put_server i st' s)"
  by (auto simp: server_moves_def)

lemma ss_moves_halfClose: "ss_moves v i inp st [] (halfClose e st)"
  by (auto simp: halfClose_def server_end_defs)

lemma ss_moves_finish_begin: "ss_moves v i inp st [] (finish_begin e st)"
  using ss_moves_halfClose [of v i inp "st\<lparr>ss_ctx := ctx_cancel (ss_ctx st)\<rparr>" e]
  by (simp add: finish_begin_def server_end_defs)

lemma server_moves_finish_begin: "server_moves v inp s [] (srv_finish_begin e i s)"
  by (auto simp: srv_finish_begin_def intro: server_moves_put_only ss_moves_finish_begin split: option.splits)

lemma server_moves_loop_finish: "server_moves v inp s [] (loop_finish e i s)"
  by (simp add: loop_finish_def server_moves_finish_begin)

lemma server_moves_defer: "server_moves v inp s [] (serve_defer e i s)"
  by (simp add: serve_defer_def server_moves_finish_begin)

lemma finish_locked_moves:
  assumes "finish_locked L e st = Some (st', fs)"
  shows "ss_moves v i inp st [] st' \<and> (\<forall>m\<in>set (map (s2c i) fs). down_quiet m)"
  using assms by (auto simp: finish_locked_def Let_def server_end_defs split: if_splits)

lemma server_moves_finish_locked:
  assumes "srv_finish_locked L e i s = Some s'"
  shows "server_moves v inp s [] s'"
proof -
  obtain st st' fs where x: "sv_heap s i = Some st" "finish_locked L e st = Some (st', fs)"
    "s' = (put_server i st' s)\<lparr>sv_jobs := sv_jobs s @ (if fs = [] then [] else [map (s2c i) fs])\<rparr>"
    using assms by (auto simp: srv_finish_locked_def split: option.splits)
  show ?thesis
    using server_moves_put_only [OF x(1), of v inp st'] finish_locked_moves [OF x(2), of v i inp]
    by (auto simp: server_moves_def x(3))
qed

lemma server_moves_all_ctx: "server_moves v inp s [] (tunnel_ctx_ends e s)"
  by (auto simp: server_moves_def tunnel_ctx_ends_def server_end_defs)

text \<open>Reading.\<close>

definition server_gives :: "tunnelServerStream \<Rightarrow> u32 list \<Rightarrow> tunnelServerStream \<Rightarrow> bool" where
  "server_gives st us st' \<longleftrightarrow> gives_back (ss_receiver st) us (ss_receiver st') \<and> ss_sender st' = ss_sender st \<and> ss_pc st' = ss_pc st"

lemma server_readMsgLocked_gives:
  assumes "server_readMsgLocked e st = (res, st', us)" and "server_stream_ok W st"
  shows "server_gives st us st' \<and> server_stream_ok W st'"
proof -
  have rd: "server_reads_from st st'" by (rule server_readMsgLocked_reads [OF assms(1)])
  then have "server_stream_ok W st'" "ss_sender st' = ss_sender st" "ss_pc st' = ss_pc st"
    using assms(2) by (cases st; cases st'; simp add: server_reads_from_def)+
  moreover have "recv_inv server_measure W (ss_receiver st)" using assms(2) by (simp add: server_stream_ok_def)
  then have "gives_back (ss_receiver st) us (ss_receiver st')"
    using assms(1) by (auto simp: server_readMsgLocked_def Let_def dest!: server_loop_gives_back
        split: if_splits prod.splits read_res.splits option.splits)
  ultimately show ?thesis by (simp add: server_gives_def)
qed

lemma server_readSecond_gives:
  "server_readSecond d e st = (res, st', us) \<Longrightarrow> server_stream_ok W st \<Longrightarrow> server_gives st us st'"
  by (auto simp: server_readSecond_def server_gives_def Let_def dest!: server_readMsgLocked_gives
      split: prod.splits read_res.splits option.splits if_splits)

lemma server_readFirst_gives:
  assumes "server_readFirst e st = (res, st', us)" and "server_stream_ok W st"
  shows "server_gives st us st'"
proof -
  obtain res1 st1 us1 where lk: "server_readMsgLocked e st = (res1, st1, us1)" by (metis prod_cases3)
  have g: "server_gives st us1 st1 \<and> server_stream_ok W st1" by (rule server_readMsgLocked_gives [OF lk assms(2)])
  have "us = us1 \<and> st' = st1 \<or> (\<exists>d res2 us2. server_readSecond d None st1 = (res2, st', us2) \<and> us = us1 @ us2)"
    using assms(1) lk by (auto simp: server_readFirst_def split: read_res.splits prod.splits if_splits)
  then show ?thesis
    using g by (auto simp: server_gives_def dest!: server_readSecond_gives intro: gives_back_trans)
qed

lemma server_readMsg_gives:
  "server_readMsg ph st = (res, st', us) \<Longrightarrow> server_stream_ok W st \<Longrightarrow> server_gives st us st'"
  by (auto simp: server_readMsg_def split: option.splits srv_phase.splits dest: server_readFirst_gives server_readSecond_gives)

lemma ss_moves_readMsg:
  assumes "server_readMsg ph st = (res, st', us)" and "server_stream_ok W st"
  shows "ss_moves v i [] st (map (s2c i) (server_sendUpdates us st)) st'"
proof -
  have "ss_halfClosed st \<noteq> None \<longrightarrow> rcv_closed (ss_receiver st)" using assms(2) by (auto simp: server_stream_ok_def)
  with server_readMsg_gives [OF assms] show ?thesis
    by (auto simp: server_gives_def gives_back_def server_sendUpdates_def server_end_defs down_updates simp del: map_map)
qed

text \<open>Sending.\<close>

lemma ss_moves_SendMsg:
  assumes "server_SendMsg ms m r st = Some (e, st', fs)"
  shows "ss_moves v i inp st (map (s2c i) (if b then fs else [])) st'"
proof -
  have "down_cost v i (map (s2c i) (if b then fs else [])) = 0 \<and> down_upd i (map (s2c i) (if b then fs else [])) = 0"
    using assms by (intro down_quiet_account)
      (auto simp: server_SendMsg_def sendHeadersLocked_def Let_def split: if_splits option.splits sum.splits)
  then show ?thesis
    using assms by (auto simp: server_SendMsg_def sendHeadersLocked_def Let_def server_end_defs idle_holds begin_holds
        split: if_splits option.splits sum.splits)
qed

lemma ss_moves_setHeader:
  assumes "setHeader L md b r st = Some (e, st', fs)"
  shows "ss_moves v i inp st (map (s2c i) (if b' then fs else [])) st'"
proof -
  have "down_cost v i (map (s2c i) (if b' then fs else [])) = 0 \<and> down_upd i (map (s2c i) (if b' then fs else [])) = 0"
    using assms by (intro down_quiet_account) (auto simp: setHeader_def sendHeadersLocked_def Let_def split: if_splits)
  then show ?thesis
    using assms by (auto simp: setHeader_def sendHeadersLocked_def Let_def server_end_defs split: if_splits)
qed

lemma ss_moves_send_do:
  assumes "server_send_do a st = Some (st', fs)" and "send_own a" and "sender_wf (ss_sender st)"
  shows "ss_moves v i inp st (map (s2c i) fs) st'"
proof -
  let ?y = "(sys_init (ss_sender st))\<lparr>sys_pc := ss_pc st, sys_size := ss_sendSize st, sys_ctx := ss_ctx st\<rparr>"
  obtain z where z: "sys_do a ?y = Some z" "st' = st\<lparr>ss_sender := sys_sender z, ss_pc := sys_pc z\<rparr>"
      "fs = map (\<lambda>(d, n, b). server_sendFunc d n b) (sys_out z)"
    using assms(1) by (auto simp: server_send_do_def simp del: sys_do.simps split: option.splits)
  have y: "sys_sender ?y = ss_sender st" "sys_pc ?y = ss_pc st" "sys_out ?y = []" by (simp_all add: sys_init_def)
  from send_step_holds [OF z(1) assms(2) y(3), unfolded y] assms(3) show ?thesis
    by (auto simp: z(2,3) server_end_defs down_chunks simp del: map_map intro: trans_le_add1)
qed

subsection \<open>The server's own steps\<close>

lemma server_moves_send:
  assumes "server_stream_send ms m r i s = Some (e, s')"
  shows "\<exists>out. server_moves v [] s out s'"
proof -
  obtain st st' fs where x: "sv_heap s i = Some st" "server_SendMsg ms m r st = Some (e, st', fs)"
    "s' = (put_server i st' s)\<lparr>sv_sent := sv_sent s @ map (s2c i) (if r = None then fs else [])\<rparr>"
    using assms by (auto simp: server_stream_send_def split: option.splits)
  from server_moves_put [OF x(1) ss_moves_SendMsg [OF x(2)]] show ?thesis unfolding x(3) by blast
qed

lemma server_moves_setHeader:
  assumes "server_stream_setHeader L md b r i s = Some (e, s')"
  shows "\<exists>out. server_moves v [] s out s'"
proof -
  obtain st st' fs where x: "sv_heap s i = Some st" "setHeader L md b r st = Some (e, st', fs)"
    "s' = (put_server i st' s)\<lparr>sv_sent := sv_sent s @ map (s2c i) (if r = None then fs else [])\<rparr>"
    using assms by (auto simp: server_stream_setHeader_def split: option.splits)
  from server_moves_put [OF x(1) ss_moves_setHeader [OF x(2)]] show ?thesis unfolding x(3) by blast
qed

lemma server_moves_send_do:
  assumes "server_stream_send_do a i s = Some s'" and "srv_streams_ok s"
  shows "\<exists>out. server_moves v [] s out s'"
proof -
  obtain st st' fs where x: "sv_heap s i = Some st" "send_own a" "server_send_do a st = Some (st', fs)"
    "s' = (put_server i st' s)\<lparr>sv_sent := sv_sent s @ map (s2c i) fs\<rparr>"
    using assms(1) by (auto simp: server_stream_send_do_def split: option.splits if_splits)
  have "sender_wf (ss_sender st)" using assms(2) x(1) by (simp add: srv_streams_ok_def server_stream_ok_def)
  from server_moves_put [OF x(1) ss_moves_send_do [OF x(3,2) this]] show ?thesis unfolding x(4) by blast
qed

lemma server_moves_RecvMsg:
  assumes "server_stream_RecvMsg ph i s = Some (x, s')" and "srv_streams_ok s"
  shows "\<exists>out. server_moves v [] s out s'"
proof -
  obtain st where st: "sv_heap s i = Some st"
    using assms(1) by (auto simp: server_stream_RecvMsg_def split: option.splits)
  obtain res st' us where rd: "server_readMsg ph st = (res, st', us)" by (metis prod_cases3)
  let ?out = "map (s2c i) (server_sendUpdates us st)"
  let ?s1 = "(put_server i st' s)\<lparr>sv_sent := sv_sent s @ ?out\<rparr>"
  have "server_stream_ok (srv_window s) st" using assms(2) st by (simp add: srv_streams_ok_def)
  then have s1: "server_moves v [] s ?out ?s1" by (intro server_moves_put [OF st] ss_moves_readMsg [OF rd])
  have "server_moves v [] s ?out (srv_finish_begin e i ?s1)" for e
    using server_moves_trans [OF s1 server_moves_finish_begin [of v "[]" ?s1 e i]] by simp
  then have "\<exists>out. server_moves v [] s out (srv_finish_begin e i ?s1)" for e by blast
  then show ?thesis
    using assms(1) st rd s1
    by (auto simp: server_stream_RecvMsg_def Let_def split: srv_res.splits option.splits if_splits prod.splits)
qed

lemma server_moves_end:
  assumes "serve_end ms h r i s = Some s'"
  shows "\<exists>out. server_moves v [] s out s'"
proof -
  have df: "server_moves v [] s [] (serve_defer e i s)" for e by (rule server_moves_defer)
  consider e where "s' = serve_defer e i s"
    | m e s1 where "server_stream_send ms m r i s = Some (e, s1)"
      "s' = serve_defer e i s1 \<or> s' = s1\<lparr>sv_serving := (sv_serving s1)(i \<mapsto> ServeSending)\<rparr>"
    using assms by (auto simp: serve_end_def split: option.splits serve_pc.splits handler_end.splits method_desc.splits)
  then show ?thesis
  proof cases
    case 1
    then show ?thesis using df by blast
  next
    case 2
    obtain out where "server_moves v [] s out s1" using server_moves_send [OF 2(1)] by blast
    moreover from server_moves_trans [OF this server_moves_defer [of v "[]" s1 e i]]
    have "server_moves v [] s out (serve_defer e i s1)" by simp
    ultimately show ?thesis using 2(2) by auto
  qed
qed

lemma server_moves_resumed:
  "serve_resume L s = Some s' \<Longrightarrow> server_moves v [] s [] s'" "recv_finish L s = Some s' \<Longrightarrow> server_moves v [] s [] s'"
  "serve_finish L i s = Some s' \<Longrightarrow> server_moves v [] s [] s'" "serve_sent i s = Some s' \<Longrightarrow> server_moves v [] s [] s'"
  by (auto simp: serve_resume_def recv_finish_def serve_finish_def serve_sent_def server_moves_defer
      intro: server_moves_finish_locked split: srv_loop.splits list.splits option.splits serve_pc.splits send_pc.splits)

lemma server_moves_quiet:
  "server_stream_setTrailer L md i s = Some (e, s') \<Longrightarrow> server_moves v [] s [] s'"
  "server_ctx_ends i s = Some s' \<Longrightarrow> server_moves v [] s [] s'"
  "server_watch i s = Some s' \<Longrightarrow> server_moves v [] s [] s'"
  by (auto simp: server_stream_setTrailer_def server_ctx_ends_def server_watch_def setTrailer_def server_ctx_watch_def server_end_defs
      intro!: server_moves_put_only split: option.splits if_splits)

lemma server_moves_run_job:
  assumes "server_run_job k r s = Some s'" and "\<forall>m\<in>set (concat (sv_jobs s)). down_quiet m"
  shows "\<exists>out. server_moves v [] s out s'"
proof -
  obtain f fs where k: "k < length (sv_jobs s)" "sv_jobs s ! k = f # fs"
    "s' = s\<lparr>sv_jobs := (sv_jobs s)[k := fs], sv_sent := sv_sent s @ (if r = None then [f] else [])\<rparr>"
    using assms(1) by (auto simp: server_run_job_def split: if_splits list.splits)
  note up = concat_update_Cons [OF k(1,2)]
  have "down_cost v i (if r = None then [f] else []) = 0 \<and> down_upd i (if r = None then [f] else []) = 0" for i
    using assms(2) up by (intro down_quiet_account) (auto split: if_splits)
  then have "server_moves v [] s (if r = None then [f] else []) s'"
    using up by (auto simp: server_moves_def k(3) simp del: set_concat)
  then show ?thesis by blast
qed

lemma server_moves_own:
  assumes "srv_do L svcs a s = Some s'" and "server_own a" and "srv_inv s" and "\<forall>m\<in>set (concat (sv_jobs s)). down_quiet m"
  shows "\<exists>out. server_moves v [] s out s'"
proof -
  have ok: "srv_streams_ok s" using assms(3) by (simp add: srv_inv_def)
  show ?thesis
  proof (cases a)
    case (SRecv closing inp)
    then obtain e where "s' = serve_return e s"
      using assms(1,2) by (cases inp) (auto simp: serve_step_def split: if_splits)
    then have "server_moves v [] s [] s'" by (simp add: serve_return_eq server_moves_all_ctx)
    then show ?thesis by blast
  next
    case (SSend i x)
    then show ?thesis using assms(1) server_moves_send_do [OF _ ok] by simp
  next
    case (SRecvMsg i ph)
    then show ?thesis using assms(1) server_moves_RecvMsg [OF _ ok] by auto
  next
    case (SJob k r)
    then show ?thesis using assms(1,4) server_moves_run_job by simp
  next
    case (STunnelCtx e)
    then show ?thesis using assms(1) server_moves_all_ctx [of v "[]" s e] by (auto intro: exI)
  next
    case (SSetHeader i md b r)
    then show ?thesis using assms(1) server_moves_setHeader by auto
  next
    case (SSendMsg i b r)
    then show ?thesis using assms(1) server_moves_send by auto
  next
    case (SHandlerEnd i h r)
    then show ?thesis using assms(1) server_moves_end by auto
  qed (use assms(1) in \<open>auto dest: server_moves_resumed server_moves_quiet\<close>)
qed

subsection \<open>Frames that reach the server\<close>

lemma ss_moves_accept:
  assumes "accept server_measure f (ss_receiver st) = (e, r)"
  shows "ss_moves v i [c2s i f] st [] (st\<lparr>ss_receiver := r\<rparr>)"
  using accept_room [OF assms] by (auto simp: server_end_defs up_cost_def c2s_cost_def)

lemma server_moves_acceptClientFrame:
  "server_moves v [\<lparr>C2S_StreamId = i, C2S_Frame = f\<rparr>] s [] (acceptClientFrame f i s)"
proof (cases "sv_heap s i")
  case (Some st)
  have data: "server_moves v [c2s i g] s [] (server_accept_data g i st s)" for g
  proof -
    obtain e r where acc: "accept server_measure g (ss_receiver st) = (e, r)" by fastforce
    let ?s = "put_server i (st\<lparr>ss_receiver := r\<rparr>) s"
    have put: "server_moves v [c2s i g] s [] ?s" by (rule server_moves_put_only [OF Some ss_moves_accept [OF acc]])
    have "server_moves v [c2s i g] s [] (loop_finish x i ?s)" for x
      using server_moves_trans [OF put server_moves_loop_finish [of v "[]" ?s x i]] by simp
    then show ?thesis using put by (simp add: server_accept_data_def acc Let_def split: option.splits)
  qed
  have upd: "ss_moves v i [c2s i (ClientToServer_WindowUpdate w)] st [] (st\<lparr>ss_sender := updateWindow w (ss_sender st)\<rparr>)" for w
    using updateWindow_holds(3) [of w "ss_sender st" "ss_pc st"]
    by (auto simp: updateWindow_holds(1,2) server_end_defs up_upd_def up_cost_def c2s_cost_def frame_cost_def)
  show ?thesis
    by (auto simp: acceptClientFrame_def Some server_moves_loop_finish data
        intro: server_moves_put_only [OF Some] upd ss_moves_halfClose split: option.splits ClientToServerFrame.splits)
qed (simp add: acceptClientFrame_def)

lemma server_moves_known:
  assumes "serve_step L svcs closing (Inr m) s = Some s'" and "\<not> is_new (C2S_Frame m)"
  shows "server_moves v [m] s [] s'"
proof -
  have "server_moves v [m] s [] (acceptClientFrame (C2S_Frame m) (C2S_StreamId m) s)"
    using server_moves_acceptClientFrame [of v "C2S_StreamId m" "C2S_Frame m" s] by (cases m) simp
  then show ?thesis
    using assms
    by (auto simp: serve_step_def server_getStream_def serve_return_eq server_moves_all_ctx
        split: if_splits option.splits ClientToServerFrame.splits)
qed

end
