(* ===== verification/Tunnel_Credit.thy ===== *)
theory Tunnel_Credit
  imports Credit_Steps
begin

text \<open>
  The account of every stream of a tunnel: for either direction, what the sender holds, the frames on their way and the
  window updates on their way back never exceed the window of the receiver (\<open>credit_inv\<close>), in every reachable state of \<open>Tunnel_System\<close>.
  So whatever frame arrives is accepted.
\<close>

subsection \<open>The account of every stream\<close>

text \<open>The server's end of a stream, or what it will be when the server learns of it.\<close>

definition far_end :: "tunnelChannel \<Rightarrow> tunnelServer \<Rightarrow> i64 \<Rightarrow> endpoint" where
  "far_end c s i = (case sv_heap s i of
     Some st \<Rightarrow> server_endpoint st
   | None \<Rightarrow> \<lparr>ep_held = unat (initialWindowSize (ch_tunnelOpts c)), ep_room = unat (initialWindowSize (sv_tunnelOpts s)), ep_shut = False\<rparr>)"

definition chan_overhead :: "tunnelChannel \<Rightarrow> u32" where
  "chan_overhead c = messageOverhead (ch_useRevision c)"

definition balanced :: "u32 \<Rightarrow> i64 \<Rightarrow> ClientToServer list \<Rightarrow> ServerToClient list \<Rightarrow> endpoint \<Rightarrow> endpoint \<Rightarrow> bool" where
  "balanced v i up down e g \<longleftrightarrow> pair_ok e g (up_cost v i up) (up_upd i up) (down_cost v i down) (down_upd i down)"

text \<open>What the client sends when it opens a stream.\<close>

definition opens_with :: "tunnelChannel \<Rightarrow> ClientToServer \<Rightarrow> bool" where
  "opens_with c m \<longleftrightarrow> (\<forall>f. C2S_Frame m = Some (ClientToServer_NewStream f) \<longrightarrow>
     NewStream_ProtocolRevision f = ch_useRevision c \<and> NewStream_InitialWindowSize f = initialWindowSize (ch_tunnelOpts c))"

definition client_books :: "tunnelChannel \<Rightarrow> bool" where
  "client_books c \<longleftrightarrow> (ch_settings c = None \<longrightarrow> ch_heap c = Map.empty) \<and> (\<forall>m\<in>set (ch_jobs c). up_quiet m)
     \<and> (\<forall>m\<in>set (ch_sent c). opens_with c m) \<and> announced (ch_sent c) \<subseteq> dom (ch_heap c)
     \<and> (\<forall>i st. ch_heap c i = Some st \<longrightarrow> client_parts (chan_overhead c) st)"

definition server_books :: "u32 \<Rightarrow> tunnelServer \<Rightarrow> bool" where
  "server_books v s \<longleftrightarrow> (\<forall>m\<in>set (concat (sv_jobs s)). down_quiet m)
     \<and> (\<forall>i st. sv_heap s i = Some st \<longrightarrow> server_parts v st)"

definition credit_inv :: "tunnel_sys \<Rightarrow> bool" where
  "credit_inv y \<longleftrightarrow> client_books (ts_client y) \<and> server_books (chan_overhead (ts_client y)) (ts_server y)
     \<and> (\<forall>stg. ch_settings (ts_client y) = Some stg \<longrightarrow> Settings_InitialWindowSize stg = initialWindowSize (sv_tunnelOpts (ts_server y)))
     \<and> (\<forall>i st. ch_heap (ts_client y) i = Some st \<longrightarrow> balanced (chan_overhead (ts_client y)) i
          (drop (ts_up y) (ch_sent (ts_client y))) (drop (ts_down y) (sv_sent (ts_server y)))
          (client_endpoint st) (far_end (ts_client y) (ts_server y) i))"

lemma balanced_client:
  assumes "balanced v i up (inp @ down) (client_endpoint st) g" and "cs_moves v i inp st out st'" and "client_parts v st"
  shows "balanced v i (up @ out) down (client_endpoint st') g"
  using pair_ok_step [of "client_endpoint st" g "up_cost v i up" "up_upd i up" "down_cost v i inp" "down_cost v i down"
      "down_upd i inp" "down_upd i down" "up_cost v i out" "up_upd i out" "client_endpoint st'"] assms
  by (simp add: balanced_def cs_moves_def)

lemma balanced_server:
  assumes "balanced v i (inp @ up) down e (server_endpoint st)" and "ss_moves v i inp st out st'" and "server_parts v st"
  shows "balanced v i up (down @ out) e (server_endpoint st')"
  using pair_ok_step [of "server_endpoint st" e "down_cost v i down" "down_upd i down" "up_cost v i inp" "up_cost v i up"
      "up_upd i inp" "up_upd i up" "down_cost v i out" "down_upd i out" "server_endpoint st'"] assms
  by (simp add: balanced_def ss_moves_def pair_ok_swap)

lemma balanced_drop: "balanced v i (inp @ up) down e g \<Longrightarrow> balanced v i up down e g"
  by (auto simp: balanced_def pair_ok_def)

text \<open>The client moves.\<close>

lemma books_client:
  assumes "client_moves v inp c out c'" and "client_books c" and "v = chan_overhead c" and "\<forall>m\<in>set out. \<not> is_new (C2S_Frame m)"
  shows "client_books c' \<and> chan_overhead c' = v"
proof -
  have same: "ch_sent c' = ch_sent c @ out" "ch_useRevision c' = ch_useRevision c" "ch_tunnelOpts c' = ch_tunnelOpts c"
      "ch_settings c' = ch_settings c"
    using assms(1) by (simp_all add: client_moves_def)
  have heap: "\<And>i. ch_heap c i = None \<longleftrightarrow> ch_heap c' i = None"
    using assms(1) unfolding client_moves_def by (metis option.distinct(1) option.exhaust)
  have v: "chan_overhead c' = v" using same(2) assms(3) by (simp add: chan_overhead_def)
  have "client_parts v st'" if h: "ch_heap c' i = Some st'" for i st'
  proof -
    obtain st where "ch_heap c i = Some st" using heap [of i] h by auto
    then have "client_parts v st" "\<exists>st'. ch_heap c' i = Some st' \<and> cs_moves v i inp st out st'"
      using assms(1-3) unfolding client_books_def client_moves_def by blast+
    then show ?thesis using h by (auto simp: cs_moves_def)
  qed
  moreover have "announced out = {}" using assms(4) by (intro announced_none) blast
  moreover have "opens_with c' m" if "m \<in> set (ch_sent c')" for m
    using that assms(2,4) same by (auto simp: client_books_def opens_with_def)
  moreover have "\<forall>m\<in>set (ch_jobs c'). up_quiet m"
    using assms(1,2) by (auto simp: client_moves_def client_books_def)
  moreover have "dom (ch_heap c') = dom (ch_heap c)" using heap by (auto simp: dom_def)
  moreover have "ch_settings c' = None \<longrightarrow> ch_heap c' = Map.empty"
    using assms(2) same(4) heap by (auto simp: client_books_def fun_eq_iff)
  ultimately show ?thesis using assms(2) same v by (auto simp: client_books_def)
qed

lemma credit_client:
  assumes "credit_inv y" and "client_moves (chan_overhead (ts_client y)) inp (ts_client y) out c'"
    and "\<forall>m\<in>set out. \<not> is_new (C2S_Frame m)"
    and "drop (ts_down y) (sv_sent (ts_server y)) = inp @ drop k (sv_sent (ts_server y))" and "ts_up y \<le> length (ch_sent (ts_client y))"
  shows "credit_inv (y\<lparr>ts_client := c', ts_down := k\<rparr>)"
proof -
  let ?c = "ts_client y" and ?s = "ts_server y"
  let ?v = "chan_overhead ?c"
  have inv: "client_books ?c" using assms(1) by (simp add: credit_inv_def)
  note b = books_client [OF assms(2) inv refl assms(3)]
  have same: "ch_sent c' = ch_sent ?c @ out" "ch_tunnelOpts c' = ch_tunnelOpts ?c" "ch_settings c' = ch_settings ?c"
    using assms(2) by (simp_all add: client_moves_def)
  have "balanced ?v i (drop (ts_up y) (ch_sent c')) (drop k (sv_sent ?s)) (client_endpoint st') (far_end c' ?s i)"
    if h: "ch_heap c' i = Some st'" for i st'
  proof -
    obtain st where st: "ch_heap ?c i = Some st"
      using assms(2) h unfolding client_moves_def by (metis option.distinct(1) option.exhaust)
    then have m: "cs_moves ?v i inp st out st'" using assms(2) h unfolding client_moves_def by (metis option.inject)
    have "balanced ?v i (drop (ts_up y) (ch_sent ?c)) (inp @ drop k (sv_sent ?s)) (client_endpoint st) (far_end ?c ?s i)"
      using assms(1,4) st by (simp add: credit_inv_def)
    from balanced_client [OF this m] have "balanced ?v i (drop (ts_up y) (ch_sent ?c) @ out) (drop k (sv_sent ?s)) (client_endpoint st') (far_end ?c ?s i)"
      using inv st by (simp add: client_books_def)
    moreover have "far_end c' ?s i = far_end ?c ?s i" by (simp add: far_end_def same split: option.splits)
    ultimately show ?thesis using assms(5) by (simp add: same)
  qed
  then show ?thesis using assms(1) b same(3) by (simp add: credit_inv_def)
qed

text \<open>The server moves.\<close>

lemma books_server:
  assumes "server_moves v inp s out s'" and "server_books v s"
  shows "server_books v s'"
proof -
  have "server_parts v st'" if h: "sv_heap s' i = Some st'" for i st'
  proof -
    obtain st where st: "sv_heap s i = Some st"
      using assms(1) h unfolding server_moves_def by (metis option.distinct(1) option.exhaust)
    then have "server_parts v st" "ss_moves v i inp st out st'"
      using assms h unfolding server_books_def server_moves_def by (metis option.inject)+
    then show ?thesis by (simp add: ss_moves_def)
  qed
  then show ?thesis using assms unfolding server_books_def server_moves_def by blast
qed

lemma credit_server:
  assumes "credit_inv y" and "server_moves (chan_overhead (ts_client y)) inp (ts_server y) out s'"
    and "drop (ts_up y) (ch_sent (ts_client y)) = inp @ drop k (ch_sent (ts_client y))" and "ts_down y \<le> length (sv_sent (ts_server y))"
  shows "credit_inv (y\<lparr>ts_server := s', ts_up := k\<rparr>)"
proof -
  let ?c = "ts_client y" and ?s = "ts_server y"
  let ?v = "chan_overhead ?c"
  have inv: "server_books ?v ?s" using assms(1) by (simp add: credit_inv_def)
  have same: "sv_sent s' = sv_sent ?s @ out" "sv_tunnelOpts s' = sv_tunnelOpts ?s"
    using assms(2) by (simp_all add: server_moves_def)
  have "balanced ?v i (drop k (ch_sent ?c)) (drop (ts_down y) (sv_sent s')) (client_endpoint st) (far_end ?c s' i)"
    if h: "ch_heap ?c i = Some st" for i st
  proof -
    have bal: "balanced ?v i (inp @ drop k (ch_sent ?c)) (drop (ts_down y) (sv_sent ?s)) (client_endpoint st) (far_end ?c ?s i)"
      using assms(1,3) h by (simp add: credit_inv_def)
    show ?thesis
    proof (cases "sv_heap ?s i")
      case None
      then have new: "sv_heap s' i = None" "down_cost ?v i out = 0" "down_upd i out = 0"
        using assms(2) by (simp_all add: server_moves_def)
      then have "far_end ?c s' i = far_end ?c ?s i" using None same(2) by (simp add: far_end_def)
      then show ?thesis using balanced_drop [OF bal] new(2,3) assms(4) by (simp add: balanced_def same(1))
    next
      case (Some sst)
      then obtain st' where st': "sv_heap s' i = Some st'" "ss_moves ?v i inp sst out st'"
        using assms(2) unfolding server_moves_def by blast
      have "server_parts ?v sst" using inv Some by (simp add: server_books_def)
      from balanced_server [OF _ st'(2) this] bal Some st'(1) assms(4) show ?thesis
        by (simp add: far_end_def same(1))
    qed
  qed
  then show ?thesis using assms(1) books_server [OF assms(2) inv] same(2) by (simp add: credit_inv_def)
qed

text \<open>The settings arrive: there are no streams yet.\<close>

lemma settings_accepted_state:
  assumes "ch_loop c = LoopStart" and "ch_serverSendsSettings c" and "ch_useRevision c = REVISION_ZERO" and "opts_wf opt"
    and "recvLoop L (Inr (settings_frame opt)) c = Some c'"
  shows "ch_heap c' = ch_heap c \<and> (\<exists>stg. ch_settings c' = Some stg \<and> Settings_InitialWindowSize stg = initialWindowSize opt)"
  using assms opts_wf_minWindowSize [OF assms(4), of REVISION_TWO]
  by (auto simp: recvLoop_def recvLoop_start_def settings_frame_def accept_settings_def supportedRevisions_def negotiate_step_def
      revision_defs Let_def split: if_splits)

lemma credit_settings:
  assumes "ts_inv y" and "credit_inv y" and "ch_loop (ts_client y) = LoopStart" and "ts_down y < length (sv_sent (ts_server y))"
    and "recvLoop L (Inr (sv_sent (ts_server y) ! ts_down y)) (ts_client y) = Some c'"
  shows "credit_inv (y\<lparr>ts_client := c', ts_down := k\<rparr>)"
proof -
  let ?c = "ts_client y" and ?s = "ts_server y"
  have st: "settings_ok ?c" "client_wire ?c" "srv_inv ?s" "ts_down y = 0"
    using assms(1,3) by (simp_all add: ts_inv_def chan_inv_def)
  then have none: "ch_settings ?c = None" "ch_sent ?c = []" "ch_useRevision ?c = REVISION_ZERO" "ch_serverSendsSettings ?c"
    using assms(3) by (simp_all add: settings_ok_def client_wire_def)
  then have books: "ch_heap ?c = Map.empty" "\<forall>m\<in>set (ch_jobs ?c). up_quiet m" "\<forall>m\<in>set (concat (sv_jobs ?s)). down_quiet m"
    using assms(2) by (simp_all add: credit_inv_def client_books_def server_books_def)
  have told: "srv_wire {} ?s" using assms(1) none(2) by (simp add: ts_inv_def)
  then have "dom (sv_heap ?s) = {}" unfolding srv_wire_def srv_told_def by blast
  moreover have "sv_sent ?s ! 0 = settings_frame (sv_tunnelOpts ?s)"
    using told assms(4) by (auto simp: srv_wire_def)
  then have c': "ch_heap c' = ch_heap ?c" "\<exists>stg. ch_settings c' = Some stg \<and> Settings_InitialWindowSize stg = initialWindowSize (sv_tunnelOpts ?s)"
    using settings_accepted_state [OF assms(3) none(4,3), of "sv_tunnelOpts ?s" L c'] st(3,4) assms(5) by (simp_all add: srv_inv_def)
  moreover have "ch_sent c' = []" "ch_jobs c' = ch_jobs ?c"
    using wire_view_recvLoop [OF assms(5)] none(2) by (simp_all add: wire_view_def)
  ultimately show ?thesis
    using books by (auto simp: credit_inv_def client_books_def server_books_def)
qed

text \<open>The client opens a stream.\<close>

lemma wire_ids: "wire_ok fs \<Longrightarrow> C2S_StreamId ` set fs \<subseteq> announced fs"
  by (induction fs rule: rev_induct) (auto simp: wire_ok_snoc frame_ok_def split: if_splits)

lemma srv_wire_ids: "srv_wire A s \<Longrightarrow> S2C_StreamId ` set (sv_sent s) \<subseteq> insert (-1) A"
  by (auto simp: srv_wire_def settings_frame_def)

text \<open>Nothing is known of a fresh ID on either side.\<close>

lemma fresh_unknown:
  assumes "ts_inv y" and "client_books (ts_client y)" and "0 \<le> ch_lastStreamID (ts_client y)"
  defines "i \<equiv> fresh_id (ts_client y)"
  shows "i \<notin> C2S_StreamId ` set (ch_sent (ts_client y))" "i \<notin> S2C_StreamId ` set (sv_sent (ts_server y))"
    "sv_heap (ts_server y) i = None" "ch_heap (ts_client y) i = None"
proof -
  let ?c = "ts_client y" and ?s = "ts_server y" and ?A = "announced (take (ts_up y) (ch_sent (ts_client y)))"
  have ids: "ids_ok ?c" "wire_ok (ch_sent ?c)" "srv_wire ?A ?s"
    using assms(1) by (simp_all add: ts_inv_def chan_inv_def client_wire_def)
  show heap: "ch_heap ?c i = None" using ids_ok_fresh(1) [OF ids(1) assms(3)] by (simp add: i_def)
  have ann: "i \<notin> announced (ch_sent ?c)" using assms(2) heap by (auto simp: client_books_def)
  then show "i \<notin> C2S_StreamId ` set (ch_sent ?c)" using wire_ids [OF ids(2)] by blast
  have A: "i \<notin> ?A" using ann announced_take by blast
  have "i \<noteq> -1" using ids_ok_fresh(2) [OF ids(1) assms(3)] assms(3) by (simp add: i_def)
  then show "i \<notin> S2C_StreamId ` set (sv_sent ?s)" using A srv_wire_ids [OF ids(3)] by blast
  show "sv_heap ?s i = None" using ids(3) A by (auto simp: srv_wire_def srv_told_def)
qed

lemma credit_opened:
  assumes "ts_inv y" and "credit_inv y" and "allocateStream L a (ts_client y) = (AllocOk i md, c1)"
    and "ch_sent c' = ch_sent (ts_client y) @ out" and "out = [] \<or> out = [c2s i (newStream_frame a md c1)]"
    and "(ch_heap c', ch_jobs c', ch_settings c', ch_useRevision c', ch_tunnelOpts c')
       = (ch_heap c1, ch_jobs c1, ch_settings c1, ch_useRevision c1, ch_tunnelOpts c1)"
  shows "credit_inv (y\<lparr>ts_client := c'\<rparr>)"
proof -
  let ?c = "ts_client y" and ?s = "ts_server y"
  let ?v = "chan_overhead ?c"
  have bk: "client_books ?c" "server_books ?v ?s" using assms(2) by (simp_all add: credit_inv_def)
  obtain hs ts mem stg str where al: "0 \<le> ch_lastStreamID ?c" "i = fresh_id ?c" "ch_settings ?c = Some stg"
      "str = newClientStream (nc_ctx a) i (nc_method a) hs ts (nc_clientStreams a) (nc_serverStreams a)
          (newSender (Settings_InitialWindowSize stg) (maxChunkSize (ch_tunnelOpts ?c)) ?v)
          (newReceiver (initialWindowSize (ch_tunnelOpts ?c)) (minWindowUpdateSize (ch_tunnelOpts ?c)) ?v)"
      "ch_heap c1 = (ch_heap ?c)(i \<mapsto> str)" "ch_jobs c1 = ch_jobs ?c" "ch_settings c1 = ch_settings ?c"
      "ch_useRevision c1 = ch_useRevision ?c" "ch_tunnelOpts c1 = ch_tunnelOpts ?c"
    by (rule allocateStream_ok [OF assms(3)]) (simp add: chan_overhead_def)
  note fresh = fresh_unknown [OF assms(1) bk(1) al(1), folded al(2)]
  have same: "ch_heap c' = (ch_heap ?c)(i \<mapsto> str)" "ch_jobs c' = ch_jobs ?c" "ch_settings c' = Some stg"
      "ch_useRevision c' = ch_useRevision ?c" "ch_tunnelOpts c' = ch_tunnelOpts ?c" "chan_overhead c' = ?v"
    using assms(6) al by (simp_all add: chan_overhead_def)
  have W: "Settings_InitialWindowSize stg = initialWindowSize (sv_tunnelOpts ?s)" using assms(2) al(3) by (simp add: credit_inv_def)
  have str: "client_parts ?v str" "client_endpoint str = \<lparr>ep_held = srv_window ?s, ep_room = chan_window ?c, ep_shut = False\<rparr>"
    by (simp_all add: al(4) W client_parts_def parts_ok_def client_endpoint_def endpoint_of_def newClientStream_def)
  have quiet: "up_cost ?v j out = 0 \<and> up_upd j out = 0" for j
    using assms(5) by (intro up_quiet_account) (auto simp: newStream_frame_def)
  have far: "far_end c' ?s j = far_end ?c ?s j" for j by (simp add: far_end_def same split: option.splits)
  have "balanced ?v j (drop (ts_up y) (ch_sent c')) (drop (ts_down y) (sv_sent ?s)) (client_endpoint st) (far_end c' ?s j)"
    if h: "ch_heap c' j = Some st" for j st
  proof (cases "j = i")
    case True
    have "i \<notin> C2S_StreamId ` set (drop (ts_up y) (ch_sent ?c))" "i \<notin> S2C_StreamId ` set (drop (ts_down y) (sv_sent ?s))"
      using fresh(1,2) by (auto dest: in_set_dropD)
    then have "up_cost ?v i (drop (ts_up y) (ch_sent ?c)) = 0 \<and> up_upd i (drop (ts_up y) (ch_sent ?c)) = 0"
        "down_cost ?v i (drop (ts_down y) (sv_sent ?s)) = 0 \<and> down_upd i (drop (ts_down y) (sv_sent ?s)) = 0"
      by (simp_all add: account_none)
    moreover have "ts_up y \<le> length (ch_sent ?c)" using assms(1) by (simp add: ts_inv_def)
    ultimately show ?thesis
      using h True same(1) str(2) quiet [of i] fresh(3)
      by (simp add: balanced_def far assms(4)) (simp add: pair_ok_def far_end_def)
  next
    case False
    moreover have "ts_up y \<le> length (ch_sent ?c)" using assms(1) by (simp add: ts_inv_def)
    ultimately show ?thesis
      using h same(1) assms(2) quiet [of j] by (simp add: credit_inv_def balanced_def far assms(4))
  qed
  moreover have "client_books c'"
    using bk(1) str(1) assms(4,5) same al(8,9) unfolding client_books_def
    by (auto simp: opens_with_def newStream_frame_def)
  ultimately show ?thesis using bk(2) W same(3,6) by (simp add: credit_inv_def)
qed

lemma credit_new:
  assumes "ts_inv y" and "credit_inv y"
  shows "credit_inv (y\<lparr>ts_client := snd (newStream L a r (ts_client y))\<rparr>)"
proof -
  let ?c = "ts_client y"
  obtain res c1 where al: "allocateStream L a ?c = (res, c1)" by fastforce
  show ?thesis
  proof (cases "\<exists>i md. res = AllocOk i md")
    case True
    then obtain i md where res: "res = AllocOk i md" by blast
    have sent: "ch_sent c1 = ch_sent ?c" by (rule allocateStream_ok [OF al [unfolded res]]) simp
    show ?thesis
    proof (cases r)
      case None
      show ?thesis
        by (rule credit_opened [OF assms al [unfolded res], where out = "[c2s i (newStream_frame a md c1)]"])
           (simp_all add: newStream_def al res None sent)
    next
      case (Some e)
      show ?thesis
        by (rule credit_opened [OF assms al [unfolded res], where out = "[]"])
           (simp_all add: newStream_def al res Some sent removeStream_def split: option.splits)
    qed
  next
    case False
    then have eq: "snd (newStream L a r ?c) = c1"
      using al by (cases res) (simp_all add: newStream_def)
    have "client_moves (chan_overhead ?c) [] ?c [] c1"
    proof (cases "ch_finished ?c \<or> ch_lastStreamID ?c < 0")
      case True
      then show ?thesis using allocateStream_refused [OF True, of L a] al by simp
    next
      case no: False
      have "c1 = ?c\<lparr>ch_streamCreated := True, ch_lastStreamID := fresh_id ?c, ch_mem := ch_mem c1\<rparr>"
        by (rule allocateStream_failed [OF _ _ al]) (use no False in auto)
      then obtain mem where "c1 = ?c\<lparr>ch_streamCreated := True, ch_lastStreamID := fresh_id ?c, ch_mem := mem\<rparr>" by blast
      then show ?thesis by (simp add: client_moves_def)
    qed
    from credit_client [OF assms(2) this, of "ts_down y"] assms(1) eq show ?thesis by (simp add: ts_inv_def)
  qed
qed

text \<open>The server learns of a stream.\<close>

lemma serve_step_opens:
  assumes "serve_step L svcs closing (Inr m) s = Some s'" and "C2S_Frame m = Some (ClientToServer_NewStream f)"
    and "sv_lastSeen s < C2S_StreamId m" and "C2S_StreamId m \<notin> sv_streams s"
  shows "sv_sent s' = sv_sent s \<and> sv_tunnelOpts s' = sv_tunnelOpts s
    \<and> (\<forall>x\<in>set (concat (sv_jobs s')). x \<in> set (concat (sv_jobs s)) \<or> down_quiet x)
    \<and> (sv_heap s' = sv_heap s \<or> (\<exists>st. sv_heap s' = (sv_heap s)(C2S_StreamId m \<mapsto> st)
         \<and> server_parts (messageOverhead (NewStream_ProtocolRevision f)) st
         \<and> server_endpoint st = \<lparr>ep_held = unat (NewStream_InitialWindowSize f), ep_room = srv_window s, ep_shut = False\<rparr>))"
proof -
  have run: "sv_loop s = SrvRunning" using assms(1) by (auto simp: serve_step_def split: if_splits)
  show ?thesis
  proof (cases "check_stream svcs closing s f")
    case (Inl e)
    then show ?thesis using assms run by (auto simp: serve_step_def createStream_def)
  next
    case (Inr nm)
    then show ?thesis
      using assms run
      by (auto simp: serve_step_def createStream_def Let_def server_parts_def parts_ok_def server_endpoint_def endpoint_of_def
          newServerStream_def split: prod.splits)
  qed
qed

lemma credit_told:
  assumes "ts_inv y" and "credit_inv y" and "ts_up y < length (ch_sent (ts_client y))" and "is_new (C2S_Frame (ch_sent (ts_client y) ! ts_up y))"
    and "serve_step L svcs closing (Inr (ch_sent (ts_client y) ! ts_up y)) (ts_server y) = Some s'"
  shows "credit_inv (y\<lparr>ts_server := s', ts_up := ts_up y + 1\<rparr>)"
proof -
  let ?c = "ts_client y" and ?s = "ts_server y"
  let ?v = "chan_overhead ?c" and ?m = "ch_sent ?c ! ts_up y" and ?A = "announced (take (ts_up y) (ch_sent ?c))"
  let ?j = "C2S_StreamId ?m"
  obtain f where f: "C2S_Frame ?m = Some (ClientToServer_NewStream f)"
    using assms(4) by (cases "C2S_Frame ?m" rule: is_new.cases) simp_all
  have "frame_ok (take (ts_up y) (ch_sent ?c)) ?m" and wire: "srv_wire ?A ?s" and si: "srv_inv ?s"
    using assms(1,3) by (simp_all add: ts_inv_def client_wire_def wire_ok_def)
  then have j: "0 < ?j" "\<forall>i\<in>?A. i < ?j" using assms(4) by (simp_all add: frame_ok_def)
  then have later: "sv_lastSeen ?s < ?j" "sv_heap ?s ?j = None" using wire by (auto simp: srv_wire_def srv_told_def)
  then have fresh: "?j \<notin> sv_streams ?s" using si by (fastforce simp: srv_inv_def srv_streams_ok_def)
  note new = serve_step_opens [OF assms(5) f later(1) fresh]
  have ow: "NewStream_ProtocolRevision f = ch_useRevision ?c" "NewStream_InitialWindowSize f = initialWindowSize (ch_tunnelOpts ?c)"
    using assms(2,3) f by (auto simp: credit_inv_def client_books_def opens_with_def)
  have far: "far_end ?c s' i = far_end ?c ?s i" for i
    using new later(2) ow(2) by (auto simp: far_end_def split: option.splits if_splits)
  have bk: "server_books ?v ?s" using assms(2) by (simp add: credit_inv_def)
  then have "\<forall>x\<in>set (concat (sv_jobs s')). down_quiet x" using new unfolding server_books_def by blast
  moreover have "\<forall>i st. sv_heap s' i = Some st \<longrightarrow> server_parts ?v st"
    using bk new ow(1) unfolding server_books_def chan_overhead_def by (auto split: if_splits)
  ultimately have "server_books ?v s'" unfolding server_books_def by blast
  moreover have "balanced ?v i (drop (ts_up y + 1) (ch_sent ?c)) (drop (ts_down y) (sv_sent s')) (client_endpoint st) (far_end ?c s' i)"
    if h: "ch_heap ?c i = Some st" for i st
  proof -
    have "balanced ?v i ([?m] @ drop (ts_up y + 1) (ch_sent ?c)) (drop (ts_down y) (sv_sent ?s)) (client_endpoint st) (far_end ?c ?s i)"
      using assms(2,3) h by (simp add: credit_inv_def Cons_nth_drop_Suc)
    from balanced_drop [OF this] show ?thesis using new far by simp
  qed
  ultimately show ?thesis using assms(2) new by (simp add: credit_inv_def)
qed

subsection \<open>Every reachable state\<close>

lemma own_not_new:
  assumes "client_wire c" and "chan_do L a c = Some c'" and "client_own a c" and "\<nexists>x r. a = ActNew x r" and "ch_sent c' = ch_sent c @ out"
  shows "\<forall>m\<in>set out. \<not> is_new (C2S_Frame m)"
proof -
  have "sends_from c c'" using sends_from_do [OF assms(2)] assms(3,4) by blast
  then obtain js where "\<forall>m\<in>set out \<union> set js. \<not> is_new (C2S_Frame m) \<and> C2S_StreamId m \<in> ch_watched c \<or> m \<in> set (ch_jobs c)"
    using assms(5) by (auto simp: sends_from_def wire_view_def)
  then show ?thesis using assms(1) unfolding client_wire_def by blast
qed

lemma credit_do:
  assumes "ts_inv y" and "credit_inv y" and "ts_do L svcs a y = Some z"
  shows "credit_inv z"
proof (cases a)
  case (TClient b)
  then obtain c where c: "client_own b (ts_client y)" "chan_do L b (ts_client y) = Some c" "z = y\<lparr>ts_client := c\<rparr>"
    using assms(3) by (auto split: if_splits)
  have inv: "chan_inv (ts_client y)" "client_wire (ts_client y)" "ts_up y \<le> length (ch_sent (ts_client y))"
      "\<forall>m\<in>set (ch_jobs (ts_client y)). up_quiet m"
    using assms(1,2) by (simp_all add: ts_inv_def credit_inv_def client_books_def)
  show ?thesis
  proof (cases "\<exists>x r. b = ActNew x r")
    case True
    then show ?thesis using c credit_new [OF assms(1,2)] by auto
  next
    case False
    obtain out where out: "client_moves (chan_overhead (ts_client y)) [] (ts_client y) out c"
      using client_moves_own [OF c(2,1) False inv(1,4)] by blast
    have "\<forall>m\<in>set out. \<not> is_new (C2S_Frame m)"
      by (rule own_not_new [OF inv(2) c(2,1) False]) (use out in \<open>simp add: client_moves_def\<close>)
    from credit_client [OF assms(2) out this, of "ts_down y"] inv(3) c(3) show ?thesis by simp
  qed
next
  case (TServer b)
  then obtain s where s: "server_own b" "srv_do L svcs b (ts_server y) = Some s" "z = y\<lparr>ts_server := s\<rparr>"
    using assms(3) by (auto split: if_splits)
  have "srv_inv (ts_server y)" "\<forall>m\<in>set (concat (sv_jobs (ts_server y))). down_quiet m" "ts_down y \<le> length (sv_sent (ts_server y))"
    using assms(1,2) by (simp_all add: ts_inv_def credit_inv_def server_books_def)
  moreover from this(1,2) obtain out where "server_moves (chan_overhead (ts_client y)) [] (ts_server y) out s"
    using server_moves_own [OF s(2,1)] by blast
  ultimately show ?thesis using credit_server [OF assms(2), of "[]" out s "ts_up y"] s(3) by simp
next
  case (TUp closing)
  let ?m = "ch_sent (ts_client y) ! ts_up y"
  obtain s where s: "ts_up y < length (ch_sent (ts_client y))" "serve_step L svcs closing (Inr ?m) (ts_server y) = Some s"
      "z = y\<lparr>ts_server := s, ts_up := ts_up y + 1\<rparr>"
    using assms(3) TUp by (auto split: if_splits)
  show ?thesis
  proof (cases "is_new (C2S_Frame ?m)")
    case True
    then show ?thesis using credit_told [OF assms(1,2) s(1) _ s(2)] s(3) by simp
  next
    case False
    have "drop (ts_up y) (ch_sent (ts_client y)) = [?m] @ drop (ts_up y + 1) (ch_sent (ts_client y))"
      using s(1) by (simp add: Cons_nth_drop_Suc)
    from credit_server [OF assms(2) server_moves_known [OF s(2) False] this] assms(1) s(3) show ?thesis
      by (simp add: ts_inv_def)
  qed
next
  case TDown
  let ?m = "sv_sent (ts_server y) ! ts_down y"
  obtain c where c: "ts_down y < length (sv_sent (ts_server y))" "recvLoop L (Inr ?m) (ts_client y) = Some c"
      "z = y\<lparr>ts_client := c, ts_down := ts_down y + 1\<rparr>"
    using assms(3) TDown by (auto split: if_splits)
  show ?thesis
  proof (cases "ch_loop (ts_client y)")
    case LoopStart
    then show ?thesis using credit_settings [OF assms(1,2) LoopStart c(1,2)] c(3) by simp
  next
    case LoopRunning
    have "drop (ts_down y) (sv_sent (ts_server y)) = [?m] @ drop (ts_down y + 1) (sv_sent (ts_server y))"
      using c(1) by (simp add: Cons_nth_drop_Suc)
    from credit_client [OF assms(2) client_moves_running [OF c(2) LoopRunning] _ this] assms(1) c(3) show ?thesis
      by (simp add: ts_inv_def)
  next
    case LoopEnded
    then show ?thesis using c(2) by (simp add: recvLoop_def)
  qed
qed

lemma credit_start: "credit_inv (ts_start (newTunnelChannel x pr md True r opts mem) (serveTunnel sx True r' sopts))"
  by (simp add: credit_inv_def ts_start_def client_books_def server_books_def newTunnelChannel_def serveTunnel_def)

lemma credit_reach:
  "ts_reach L svcs y0 y \<Longrightarrow> ts_inv y0 \<Longrightarrow> credit_inv y0 \<Longrightarrow> 0 \<le> ch_lastStreamID (ts_client y) \<Longrightarrow> ts_inv y \<and> credit_inv y"
proof (induction rule: ts_reach.induct)
  case (ts_step y a z)
  then have "ts_inv y \<and> credit_inv y" using ts_do_last by blast
  then show ?case using ts_step credit_do ts_inv_do by blast
qed simp

text \<open>Whatever arrives fits.\<close>

lemma accept_fits: "rcv_closed r \<or> frame_cost m (rcv_msgOverhead r) f \<le> unat (rcv_currentWindow r) \<Longrightarrow> fst (accept m f r) = None"
  by (cases rule: accept_cases [where r = r and m = m and x = f]) (auto simp: charge_frame_cost)

lemma up_fits:
  assumes "ts_inv y" and "credit_inv y" and "ts_up y < length (ch_sent (ts_client y))"
    and "ch_sent (ts_client y) ! ts_up y = c2s i g" and "sv_heap (ts_server y) i = Some st"
  shows "fst (accept server_measure g (ss_receiver st)) = None"
proof -
  let ?c = "ts_client y" and ?s = "ts_server y"
  let ?v = "chan_overhead ?c" and ?rest = "drop (Suc (ts_up y)) (ch_sent ?c)"
  have "wire_ok (ch_sent ?c)" using assms(1) by (simp add: ts_inv_def client_wire_def)
  moreover have "c2s i g \<in> set (ch_sent ?c)" using assms(3,4) nth_mem by metis
  ultimately have "i \<in> announced (ch_sent ?c)" using wire_ids by force
  then obtain cst where "ch_heap ?c i = Some cst"
    using assms(2) by (auto simp: credit_inv_def client_books_def)
  then have "balanced ?v i (c2s i g # ?rest) (drop (ts_down y) (sv_sent ?s)) (client_endpoint cst) (far_end ?c ?s i)"
    using assms(2-4) Cons_nth_drop_Suc [OF assms(3)] by (simp add: credit_inv_def)
  then have "balanced ?v i (c2s i g # ?rest) (drop (ts_down y) (sv_sent ?s)) (client_endpoint cst) (server_endpoint st)"
    using assms(5) by (simp add: far_end_def)
  moreover have "server_parts ?v st" using assms(2,5) by (simp add: credit_inv_def server_books_def)
  ultimately show ?thesis
    by (intro accept_fits) (auto simp: balanced_def pair_ok_def server_parts_def parts_ok_def server_endpoint_def endpoint_of_def up_cost_def c2s_cost_def)
qed

lemma down_fits:
  assumes "credit_inv y" and "ts_down y < length (sv_sent (ts_server y))"
    and "sv_sent (ts_server y) ! ts_down y = s2c i g" and "ch_heap (ts_client y) i = Some st"
  shows "fst (accept client_measure g (cs_receiver st)) = None"
proof -
  let ?c = "ts_client y" and ?s = "ts_server y"
  let ?v = "chan_overhead ?c" and ?rest = "drop (Suc (ts_down y)) (sv_sent ?s)"
  have "balanced ?v i (drop (ts_up y) (ch_sent ?c)) (s2c i g # ?rest) (client_endpoint st) (far_end ?c ?s i)"
    using assms Cons_nth_drop_Suc [OF assms(2)] by (simp add: credit_inv_def)
  moreover have "client_parts ?v st" using assms(1,4) by (simp add: credit_inv_def client_books_def)
  ultimately show ?thesis
    by (intro accept_fits) (auto simp: balanced_def pair_ok_def client_parts_def parts_ok_def client_endpoint_def endpoint_of_def down_cost_def s2c_cost_def)
qed

text \<open>The account of a stream both ends know.\<close>

lemma credit_account:
  assumes "credit_inv y" and "ch_heap (ts_client y) i = Some cst" and "sv_heap (ts_server y) i = Some sst"
  defines "v \<equiv> messageOverhead (ch_useRevision (ts_client y))"
    and "up \<equiv> drop (ts_up y) (ch_sent (ts_client y))" and "down \<equiv> drop (ts_down y) (sv_sent (ts_server y))"
  shows "(\<not> rcv_closed (ss_receiver sst) \<longrightarrow> unat (snd_currentWindow (cs_sender cst)) + up_cost v i up + down_upd i down
      \<le> unat (rcv_currentWindow (ss_receiver sst)))
    \<and> (\<not> rcv_closed (cs_receiver cst) \<longrightarrow> unat (snd_currentWindow (ss_sender sst)) + down_cost v i down + up_upd i up
      \<le> unat (rcv_currentWindow (cs_receiver cst)))"
proof -
  have "balanced v i up down (client_endpoint cst) (far_end (ts_client y) (ts_server y) i)"
    using assms(1,2) by (simp add: credit_inv_def chan_overhead_def v_def up_def down_def)
  then have "balanced v i up down (client_endpoint cst) (server_endpoint sst)" using assms(3) by (simp add: far_end_def)
  then show ?thesis
    by (auto simp: balanced_def pair_ok_def client_endpoint_def server_endpoint_def endpoint_of_def)
qed

end
