(* ===== verification/Tunnel_Properties.thy ===== *)
theory Tunnel_Properties
  imports Tunnel_Credit Tunnel_Delivery Client_Properties Server_Properties
begin

text \<open>
  The properties of a whole tunnel: both ends, with everything that may happen at either of them, and the stream of frames
  between them.
\<close>

fun ts_run :: "grpc_lib \<Rightarrow> (string \<rightharpoonup> ServiceDesc) \<Rightarrow> ts_act list \<Rightarrow> tunnel_sys \<Rightarrow> tunnel_sys option" where
  "ts_run L svcs [] y = Some y"
| "ts_run L svcs (a # as) y = (case ts_do L svcs a y of None \<Rightarrow> None | Some z \<Rightarrow> ts_run L svcs as z)"

lemma ts_reach_run: "ts_reach L svcs y0 y \<Longrightarrow> ts_run L svcs as y = Some z \<Longrightarrow> ts_reach L svcs y0 z"
  by (induction as arbitrary: y) (auto split: option.splits intro: ts_reach.ts_step)

definition demo_tunnel :: tunnel_sys where
  "demo_tunnel = ts_start demo_new demo_srv"

lemma demo_tunnel_eq:
  "demo_tunnel = ts_start (newTunnelChannel None None None True False demo_opts demo_mem) (serveTunnel None True False demo_opts)"
  by (simp add: demo_tunnel_def demo_new_def demo_srv_def)

lemmas demo_eval = demo_tunnel_def ts_start_def demo_srv_def serveTunnel_def settings_frame_def demo_new_def newTunnelChannel_def
  server_run_job_def recvLoop_def recvLoop_start_def accept_settings_def negotiate_step_def supportedRevisions_def revision_defs Let_def
  minWindowSize_def demo_opts_def messageOverhead_def revisionTwoMessageOverhead_def word_less_nat_alt newStream_def allocateStream_def
  demo_call_def i64_wrap_def live_streams_def newStream_frame_def

lemma demo_sends:
  "\<exists>y st. ts_run demo_lib demo_svcs [TServer (SJob 0 None), TDown, TClient (ActNew demo_call None), TUp False,
       TClient (ActSendMsg 1 (Inr [1, 2, 3])), TClient (ActSend 1 Load), TClient (ActSend 1 Cas), TClient (ActSend 1 (SendFunc None))]
       demo_tunnel = Some y
     \<and> ch_lastStreamID (ts_client y) = 1 \<and> ts_up y = 1 \<and> length (ch_sent (ts_client y)) = 2
     \<and> ch_sent (ts_client y) ! 1 = c2s 1 (client_sendData [1, 2, 3] 3 True) \<and> sv_heap (ts_server y) 1 = Some st"
  by (simp add: demo_eval serve_step_def createStream_def check_stream_def demo_svcs_def trim_slash_def split_slash_def findMethod_def
      stream_SendMsg_def client_SendMsg_def newClientStream_def put_stream_def stream_send_do_def client_send_do_def
      sys_init_def newSender_def send_begin_def send_load_def send_needed_def send_overhead_def send_cas_def send_chunkSz_def
      send_after_def u32_of_len_def MaxUint32_def min_def max_def)

text \<open>
  C9. Two ends of this implementation never accuse each other of a protocol error: whatever callers, handlers, timers and the scheduler do
  at both ends of a tunnel that negotiates, and however late frames arrive, no frame of the client ends the server's receive
  loop, and no frame of the server, the settings included, ends the client's, as long as the client has stream IDs left.
\<close>

theorem tunnel_no_protocol_error:
  assumes "ts_reach L svcs (ts_start (newTunnelChannel x pr md True r opts mem) (serveTunnel sx True r sopts)) y"
    and "opts_wf opts" and "opts_wf sopts" and "0 \<le> ch_lastStreamID (ts_client y)"
  shows "(\<forall>closing z. ts_do L svcs (TUp closing) y = Some z \<longrightarrow> (\<forall>e. sv_loop (ts_server z) \<noteq> SrvReturned e))
    \<and> (\<forall>z. ts_do L svcs TDown y = Some z \<longrightarrow> ch_loop (ts_client z) = LoopRunning)"
proof -
  have inv: "ts_inv y" by (rule ts_inv_reach [OF assms(1) ts_inv_start [OF assms(2,3)] assms(4)])
  show ?thesis
    using ts_inv_up [OF inv] ts_down_running [OF inv] by (auto split: if_splits)
qed

theorem tunnel_no_protocol_error_witness:
  "\<exists>y z. ts_run demo_lib demo_svcs [TServer (SJob 0 None)] demo_tunnel = Some y \<and> ts_do demo_lib demo_svcs TDown y = Some z
     \<and> ch_loop (ts_client z) = LoopRunning"
proof -
  have "\<exists>y z. ts_run demo_lib demo_svcs [TServer (SJob 0 None)] demo_tunnel = Some y \<and> ts_do demo_lib demo_svcs TDown y = Some z
      \<and> ch_lastStreamID (ts_client y) = 0"
    by (simp add: demo_eval)
  then obtain y z where y: "ts_run demo_lib demo_svcs [TServer (SJob 0 None)] demo_tunnel = Some y"
      "ts_do demo_lib demo_svcs TDown y = Some z" "0 \<le> ch_lastStreamID (ts_client y)" by auto
  have "ts_reach demo_lib demo_svcs demo_tunnel y" by (rule ts_reach_run [OF ts_reach.ts_begin y(1)])
  from tunnel_no_protocol_error [OF this [unfolded demo_tunnel_eq] demo_opts_wf demo_opts_wf y(3)] y show ?thesis by blast
qed

text \<open>
  C12. Flow control holds for the tunnel as a whole: whatever happens at both ends, also when streams are finished or cancelled at
  any moment, for every stream the sender's window, the data on its way and the window updates on their way back together fit into the
  window of the receiver at the other end while that is open, in both directions; so no frame that arrives is ever refused because it exceeds the window.
\<close>

theorem tunnel_windows_respected:
  assumes "ts_reach L svcs (ts_start (newTunnelChannel x pr md True r opts mem) (serveTunnel sx True r sopts)) y"
    and "opts_wf opts" and "opts_wf sopts" and "0 \<le> ch_lastStreamID (ts_client y)"
  defines "v \<equiv> messageOverhead (ch_useRevision (ts_client y))"
    and "up \<equiv> drop (ts_up y) (ch_sent (ts_client y))" and "down \<equiv> drop (ts_down y) (sv_sent (ts_server y))"
  shows "(\<forall>i cst sst. ch_heap (ts_client y) i = Some cst \<and> sv_heap (ts_server y) i = Some sst \<longrightarrow>
      (\<not> rcv_closed (ss_receiver sst) \<longrightarrow> unat (snd_currentWindow (cs_sender cst)) + up_cost v i up + down_upd i down
         \<le> unat (rcv_currentWindow (ss_receiver sst)))
      \<and> (\<not> rcv_closed (cs_receiver cst) \<longrightarrow> unat (snd_currentWindow (ss_sender sst)) + down_cost v i down + up_upd i up
         \<le> unat (rcv_currentWindow (cs_receiver cst))))
    \<and> (\<forall>i g sst. up \<noteq> [] \<and> hd up = c2s i g \<and> sv_heap (ts_server y) i = Some sst \<longrightarrow>
         fst (accept server_measure g (ss_receiver sst)) = None)
    \<and> (\<forall>i g cst. down \<noteq> [] \<and> hd down = s2c i g \<and> ch_heap (ts_client y) i = Some cst \<longrightarrow>
         fst (accept client_measure g (cs_receiver cst)) = None)"
proof -
  have inv: "ts_inv y" "credit_inv y"
    using credit_reach [OF assms(1) ts_inv_start [OF assms(2,3)] credit_start assms(4)] by simp_all
  have fits: "(\<not> rcv_closed (ss_receiver sst) \<longrightarrow> unat (snd_currentWindow (cs_sender cst)) + up_cost v i up + down_upd i down
         \<le> unat (rcv_currentWindow (ss_receiver sst)))
      \<and> (\<not> rcv_closed (cs_receiver cst) \<longrightarrow> unat (snd_currentWindow (ss_sender sst)) + down_cost v i down + up_upd i up
         \<le> unat (rcv_currentWindow (cs_receiver cst)))"
    if "ch_heap (ts_client y) i = Some cst" "sv_heap (ts_server y) i = Some sst" for i cst sst
    using credit_account [OF inv(2) that] unfolding v_def up_def down_def .
  have "fst (accept server_measure g (ss_receiver sst)) = None"
    if "up \<noteq> []" "hd up = c2s i g" "sv_heap (ts_server y) i = Some sst" for i g sst
    by (rule up_fits [OF inv _ _ that(3)]) (use that in \<open>simp_all add: up_def hd_drop_conv_nth\<close>)
  moreover have "fst (accept client_measure g (cs_receiver cst)) = None"
    if "down \<noteq> []" "hd down = s2c i g" "ch_heap (ts_client y) i = Some cst" for i g cst
    by (rule down_fits [OF inv(2) _ _ that(3)]) (use that in \<open>simp_all add: down_def hd_drop_conv_nth\<close>)
  ultimately show ?thesis using fits by blast
qed

theorem tunnel_windows_respected_witness:
  "\<exists>y sst. ts_reach demo_lib demo_svcs demo_tunnel y \<and> hd (drop (ts_up y) (ch_sent (ts_client y))) = c2s 1 (client_sendData [1, 2, 3] 3 True)
     \<and> sv_heap (ts_server y) 1 = Some sst \<and> fst (accept server_measure (client_sendData [1, 2, 3] 3 True) (ss_receiver sst)) = None"
proof -
  obtain y sst where y: "ts_run demo_lib demo_svcs [TServer (SJob 0 None), TDown, TClient (ActNew demo_call None), TUp False,
       TClient (ActSendMsg 1 (Inr [1, 2, 3])), TClient (ActSend 1 Load), TClient (ActSend 1 Cas), TClient (ActSend 1 (SendFunc None))]
       demo_tunnel = Some y" "0 \<le> ch_lastStreamID (ts_client y)" "ts_up y = 1" "length (ch_sent (ts_client y)) = 2"
      "ch_sent (ts_client y) ! 1 = c2s 1 (client_sendData [1, 2, 3] 3 True)" "sv_heap (ts_server y) 1 = Some sst"
    using demo_sends by auto
  have r: "ts_reach demo_lib demo_svcs demo_tunnel y" by (rule ts_reach_run [OF ts_reach.ts_begin y(1)])
  have up: "drop (ts_up y) (ch_sent (ts_client y)) \<noteq> []"
      "hd (drop (ts_up y) (ch_sent (ts_client y))) = c2s 1 (client_sendData [1, 2, 3] 3 True)"
    using y(3-5) by (simp_all add: hd_drop_conv_nth)
  from tunnel_windows_respected [OF r [unfolded demo_tunnel_eq] demo_opts_wf demo_opts_wf y(2)] up y(6)
  have "fst (accept server_measure (client_sendData [1, 2, 3] 3 True) (ss_receiver sst)) = None" by blast
  then show ?thesis using r up(2) y(6) by blast
qed

fun logged_run :: "grpc_lib \<Rightarrow> (string \<rightharpoonup> ServiceDesc) \<Rightarrow> ts_act list \<Rightarrow> tunnel_log \<Rightarrow> tunnel_log option" where
  "logged_run L svcs [] x = Some x"
| "logged_run L svcs (a # as) x = (case logged_do L svcs a x of None \<Rightarrow> None | Some z \<Rightarrow> logged_run L svcs as z)"

lemma logged_reach_run: "logged_reach L svcs x0 x \<Longrightarrow> logged_run L svcs as x = Some z \<Longrightarrow> logged_reach L svcs x0 z"
  by (induction as arbitrary: x) (auto split: option.splits intro: logged_reach.logged_step)

definition demo_logged :: tunnel_log where
  "demo_logged = logged_start demo_new demo_srv"

lemma demo_logged_eq:
  "demo_logged = logged_start (newTunnelChannel None None None True False demo_opts demo_mem) (serveTunnel None True False demo_opts)"
  by (simp add: demo_logged_def demo_new_def demo_srv_def)

text \<open>A call of the streaming method: a request is sent and read, a response is sent and read.\<close>

definition demo_asks :: "ts_act list" where
  "demo_asks = [TServer (SJob 0 None), TDown, TClient (ActNew (demo_call\<lparr>nc_method := ''/svc/s''\<rparr>) None), TUp False,
     TClient (ActSendMsg 1 (Inr [1, 2, 3])), TClient (ActSend 1 Load), TClient (ActSend 1 Cas), TClient (ActSend 1 (SendFunc None)),
     TUp False, TServer (SRecvMsg 1 None)]"

definition demo_answers :: "ts_act list" where
  "demo_answers = [TServer (SSendMsg 1 (Inr [7]) None), TServer (SSend 1 Load), TServer (SSend 1 Cas), TServer (SSend 1 (SendFunc None)),
     TDown, TDown, TClient (ActRecvMsg 1 None)]"

lemmas demo_logged_eval = logged_do_def demo_logged_def demo_asks_def demo_answers_def logged_start_def log_defs demo_eval demo_read_eval
  stream_SendMsg_def client_SendMsg_def newClientStream_def put_stream_def stream_send_do_def client_send_do_def sys_init_def newSender_def
  send_begin_def send_load_def send_needed_def send_overhead_def send_cas_def send_chunkSz_def send_after_def u32_of_len_def MaxUint32_def
  min_def max_def toProto_def

lemma demo_asked:
  "\<exists>x st. logged_run demo_lib demo_svcs demo_asks demo_logged = Some x \<and> ch_lastStreamID (ts_client (tl_sys x)) = 1
     \<and> ts_up (tl_sys x) = length (ch_sent (ts_client (tl_sys x))) \<and> sv_heap (ts_server (tl_sys x)) 1 = Some st
     \<and> 1 \<in> sv_streams (ts_server (tl_sys x)) \<and> ss_readErr st = None \<and> \<not> rcv_closed (ss_receiver st) \<and> \<not> rcv_cancelled (ss_receiver st)
     \<and> rcv_items (ss_receiver st) = [] \<and> lg_got (tl_server x) 1 = [[1, 2, 3]] \<and> lg_at (tl_server x) 1 = None"
  by (simp add: demo_logged_eval)

lemma demo_answered:
  "\<exists>x st. logged_run demo_lib demo_svcs (demo_asks @ demo_answers) demo_logged = Some x \<and> ch_lastStreamID (ts_client (tl_sys x)) = 1
     \<and> ts_down (tl_sys x) = length (sv_sent (ts_server (tl_sys x))) \<and> ch_heap (ts_client (tl_sys x)) 1 = Some st
     \<and> 1 \<in> live_streams (ts_client (tl_sys x)) \<and> cs_readErr st = None \<and> \<not> rcv_closed (cs_receiver st)
     \<and> rcv_items (cs_receiver st) = [] \<and> lg_got (tl_client x) 1 = [[7]] \<and> lg_at (tl_client x) 1 = None"
  by (simp add: demo_logged_eval server_stream_send_def server_SendMsg_def sendHeadersLocked_def server_stream_send_do_def server_send_do_def
      server_sendFunc_def recvLoop_step_def getStream_def client_gotHeaders_def accept_data_def stream_RecvMsg_def client_readMsg_def
      client_readFirst_def client_readMsgLocked_def client_read_loop.simps client_sendUpdates_def write_targets_def)

text \<open>
  C10. Requests arrive: whatever happens at both ends of a tunnel, the messages that a handler's RecvMsg has returned are the first of
  the messages that the client's SendMsg has sent on that stream, whole, in order and none twice; the one exception is an empty message at
  the end, once the receiver has been cancelled. And none is lost: when all frames have arrived and an open stream has no frames left to
  read, the handler has read all that was sent, but for a message that RecvMsg still holds to see whether it is the only one.
\<close>

theorem requests_delivered:
  assumes "logged_reach L svcs (logged_start (newTunnelChannel cx pr md True r opts mem) (serveTunnel sx True r sopts)) x"
    and "opts_wf opts" and "opts_wf sopts" and "0 \<le> ch_lastStreamID (ts_client (tl_sys x))"
  defines "c \<equiv> ts_client (tl_sys x)" and "s \<equiv> ts_server (tl_sys x)"
  shows "(\<exists>ms. prefix ms (lg_sent (tl_client x) i) \<and> (lg_got (tl_server x) i = ms
      \<or> lg_got (tl_server x) i = ms @ [[]] \<and> (\<exists>st. sv_heap s i = Some st \<and> rcv_cancelled (ss_receiver st))))
    \<and> (\<forall>st. sv_heap s i = Some st \<and> i \<in> sv_streams s \<and> ss_readErr st = None \<and> \<not> rcv_closed (ss_receiver st)
         \<and> \<not> rcv_cancelled (ss_receiver st) \<and> rcv_items (ss_receiver st) = [] \<and> ts_up (tl_sys x) = length (ch_sent c)
       \<longrightarrow> lg_got (tl_server x) i @ fst (server_at (lg_at (tl_server x) i)) = lg_sent (tl_client x) i)"
proof -
  have "delivers x" using delivers_reach [OF assms(1) refl assms(2-4)] by blast
  from requests_read [OF this, of i] requests_complete [OF this] show ?thesis unfolding c_def s_def by blast
qed

theorem requests_delivered_witness:
  "\<exists>x. logged_run demo_lib demo_svcs demo_asks demo_logged = Some x \<and> lg_got (tl_server x) 1 = [[1, 2, 3]]
     \<and> lg_sent (tl_client x) 1 = [[1, 2, 3]]"
proof -
  obtain x st where x: "logged_run demo_lib demo_svcs demo_asks demo_logged = Some x" "0 \<le> ch_lastStreamID (ts_client (tl_sys x))"
      "ts_up (tl_sys x) = length (ch_sent (ts_client (tl_sys x)))" "sv_heap (ts_server (tl_sys x)) 1 = Some st"
      "1 \<in> sv_streams (ts_server (tl_sys x))" "ss_readErr st = None" "\<not> rcv_closed (ss_receiver st)" "\<not> rcv_cancelled (ss_receiver st)"
      "rcv_items (ss_receiver st) = []" "lg_got (tl_server x) 1 = [[1, 2, 3]]" "lg_at (tl_server x) 1 = None"
    using demo_asked by auto
  have "logged_reach demo_lib demo_svcs demo_logged x" by (rule logged_reach_run [OF logged_reach.logged_begin x(1)])
  from requests_delivered [OF this [unfolded demo_logged_eq] demo_opts_wf demo_opts_wf x(2), THEN conjunct2, rule_format, OF conjI [OF x(4)]]
    x(3,5-11) x(1)
  show ?thesis by auto
qed

text \<open>
  C11. Responses arrive: the messages that a client's RecvMsg has returned are the first of the messages that the handler's SendMsg (or the
  end of a unary handler) has sent on that stream, whole, in order and none twice, whatever happens at both ends; and when all frames have
  arrived and an open stream has no frames left to read, they are all of them, but for one that RecvMsg still holds.
\<close>

theorem responses_delivered:
  assumes "logged_reach L svcs (logged_start (newTunnelChannel cx pr md True r opts mem) (serveTunnel sx True r sopts)) x"
    and "opts_wf opts" and "opts_wf sopts" and "0 \<le> ch_lastStreamID (ts_client (tl_sys x))"
  defines "c \<equiv> ts_client (tl_sys x)" and "s \<equiv> ts_server (tl_sys x)"
  shows "prefix (lg_got (tl_client x) i) (lg_sent (tl_server x) i)
    \<and> (\<forall>st. ch_heap c i = Some st \<and> i \<in> live_streams c \<and> cs_readErr st = None \<and> \<not> rcv_closed (cs_receiver st)
         \<and> rcv_items (cs_receiver st) = [] \<and> ts_down (tl_sys x) = length (sv_sent s)
       \<longrightarrow> lg_got (tl_client x) i @ fst (client_at (lg_at (tl_client x) i)) = lg_sent (tl_server x) i)"
proof -
  have "delivers x" using delivers_reach [OF assms(1) refl assms(2-4)] by blast
  from responses_read [OF this, of i] responses_complete [OF this] show ?thesis unfolding c_def s_def by blast
qed

theorem responses_delivered_witness:
  "\<exists>x. logged_run demo_lib demo_svcs (demo_asks @ demo_answers) demo_logged = Some x \<and> lg_got (tl_client x) 1 = [[7]]
     \<and> lg_sent (tl_server x) 1 = [[7]]"
proof -
  obtain x st where x: "logged_run demo_lib demo_svcs (demo_asks @ demo_answers) demo_logged = Some x"
      "0 \<le> ch_lastStreamID (ts_client (tl_sys x))" "ts_down (tl_sys x) = length (sv_sent (ts_server (tl_sys x)))"
      "ch_heap (ts_client (tl_sys x)) 1 = Some st" "1 \<in> live_streams (ts_client (tl_sys x))" "cs_readErr st = None"
      "\<not> rcv_closed (cs_receiver st)" "rcv_items (cs_receiver st) = []" "lg_got (tl_client x) 1 = [[7]]" "lg_at (tl_client x) 1 = None"
    using demo_answered by auto
  have "logged_reach demo_lib demo_svcs demo_logged x" by (rule logged_reach_run [OF logged_reach.logged_begin x(1)])
  from responses_delivered [OF this [unfolded demo_logged_eq] demo_opts_wf demo_opts_wf x(2), THEN conjunct2, rule_format, OF conjI [OF x(4)]]
    x(3,5-10) x(1)
  show ?thesis by auto
qed

end
