(* ===== verification/Ending_Properties.thy ===== *)
theory Ending_Properties
  imports Tunnel_Ends Tunnel_Properties
begin

text \<open>
  What the end of a stream promises to the reader on the other side of a whole tunnel.
\<close>

fun lawful_run :: "grpc_lib \<Rightarrow> (string \<rightharpoonup> ServiceDesc) \<Rightarrow> ts_act list \<Rightarrow> tunnel_log \<Rightarrow> tunnel_log option" where
  "lawful_run L svcs [] x = Some x"
| "lawful_run L svcs (a # as) x =
     (if lawful a x then case logged_do L svcs a x of None \<Rightarrow> None | Some z \<Rightarrow> lawful_run L svcs as z else None)"

lemma lawful_reach_run: "lawful_reach L svcs x0 x \<Longrightarrow> lawful_run L svcs as x = Some z \<Longrightarrow> lawful_reach L svcs x0 z"
  by (induction as arbitrary: x) (auto split: option.splits if_splits intro: lawful_reach.lawful_step)

text \<open>The call of \<open>demo_asks\<close> and \<open>demo_answers\<close>, ended: the client half-closes, the handler reads the end and returns, the client reads the end.\<close>

definition demo_half_closes :: "ts_act list" where
  "demo_half_closes = [TClient (ActCloseSend 1 None), TUp False, TServer (SRecvMsg 1 None)]"

definition demo_returns :: "ts_act list" where
  "demo_returns = [TServer (SHandlerEnd 1 HNil None), TServer (SFinish 1), TServer (SJob 1 None), TDown, TClient (ActRecvMsg 1 None)]"

lemmas demo_end_eval = demo_half_closes_def demo_returns_def stream_CloseSend_def client_CloseSend_def halfClose_def halfClose_err_def
  serve_end_def serve_defer_def srv_finish_begin_def finish_begin_def serve_finish_def srv_finish_locked_def finish_locked_def
  finishStream_def client_finish_def finish_err_def close_receiver_def handleClosure_def server_removeStream_def put_server_def

lemma demo_status_faithful: "status_faithful demo_lib"
  by (auto simp: status_faithful_def failure_def demo_lib_def split: gerror.splits)

lemma demo_requests_end:
  "\<exists>x st. lawful_run demo_lib demo_svcs (demo_asks @ demo_half_closes) demo_logged = Some x \<and> ch_lastStreamID (ts_client (tl_sys x)) = 1
     \<and> sv_heap (ts_server (tl_sys x)) 1 = Some st \<and> ss_readErr st = Some EOF \<and> serving (ts_server (tl_sys x)) 1
     \<and> \<not> rcv_cancelled (ss_receiver st) \<and> lg_got (tl_server x) 1 = [[1, 2, 3]]"
  by (simp add: demo_logged_eval demo_end_eval serving_def plain_ctx_def)

lemma demo_responses_end:
  "\<exists>x st. lawful_run demo_lib demo_svcs (demo_asks @ demo_half_closes @ demo_answers @ demo_returns) demo_logged = Some x
     \<and> ch_lastStreamID (ts_client (tl_sys x)) = 1
     \<and> ch_heap (ts_client (tl_sys x)) 1 = Some st \<and> cs_readErr st = Some EOF \<and> lg_got (tl_client x) 1 = [[7]]"
  by (simp add: demo_logged_eval demo_end_eval plain_ctx_def demo_lib_def server_stream_send_def server_SendMsg_def sendHeadersLocked_def
      server_stream_send_do_def server_send_do_def server_sendFunc_def recvLoop_step_def getStream_def client_gotHeaders_def accept_data_def
      stream_RecvMsg_def client_readMsg_def client_readFirst_def client_readMsgLocked_def client_read_loop.simps client_sendUpdates_def
      write_targets_def)

text \<open>
  C16. The end of a stream is the end of its messages, in both directions and whatever else happens at both ends: a client whose RecvMsg has
  returned io.EOF has read every message that the handler sent, and the handler has returned; and a handler whose RecvMsg has returned io.EOF
  while it runs and its context's end has not cancelled its receiver has read every message that the client sent, and the client has half-closed
  the stream. Callers do not send after CloseSend, handlers do not send once they have returned, contexts end with the errors of the
  standard library, and the status of a failure is not OK.
\<close>

theorem eof_complete:
  assumes "lawful_reach L svcs (logged_start (newTunnelChannel cx pr md True r opts mem) (serveTunnel sx True r sopts)) x"
    and "opts_wf opts" and "opts_wf sopts" and "0 \<le> ch_lastStreamID (ts_client (tl_sys x))" and "status_faithful L" and "plain_ctx sx"
  defines "c \<equiv> ts_client (tl_sys x)" and "s \<equiv> ts_server (tl_sys x)"
  shows "(\<forall>st. ch_heap c i = Some st \<and> cs_readErr st = Some EOF \<longrightarrow> lg_got (tl_client x) i = lg_sent (tl_server x) i \<and> shut s i)
    \<and> (\<forall>st. sv_heap s i = Some st \<and> ss_readErr st = Some EOF \<and> serving s i \<and> \<not> rcv_cancelled (ss_receiver st)
         \<longrightarrow> lg_got (tl_server x) i = lg_sent (tl_client x) i \<and> sent_out c i)"
proof -
  have d: "delivers x" using delivers_reach [OF lawful_logged [OF assms(1)] refl assms(2-4)] by blast
  have e: "ends_well L x" "requests_end x" using ends_reach [OF assms(1) refl assms(2-6)] by simp_all
  show ?thesis unfolding c_def s_def using responses_all_read [OF e(1) d] requests_all_read [OF e(2) d] by blast
qed

theorem eof_complete_witness:
  "\<exists>x y. lawful_run demo_lib demo_svcs (demo_asks @ demo_half_closes) demo_logged = Some x
     \<and> lg_got (tl_server x) 1 = [[1, 2, 3]] \<and> lg_sent (tl_client x) 1 = [[1, 2, 3]]
     \<and> lawful_run demo_lib demo_svcs (demo_asks @ demo_half_closes @ demo_answers @ demo_returns) demo_logged = Some y
     \<and> lg_got (tl_client y) 1 = [[7]] \<and> lg_sent (tl_server y) 1 = [[7]]"
proof -
  have plain: "plain_ctx None" by (simp add: plain_ctx_def)
  obtain x st where x: "lawful_run demo_lib demo_svcs (demo_asks @ demo_half_closes) demo_logged = Some x"
      "0 \<le> ch_lastStreamID (ts_client (tl_sys x))" "sv_heap (ts_server (tl_sys x)) 1 = Some st" "ss_readErr st = Some EOF"
      "serving (ts_server (tl_sys x)) 1" "\<not> rcv_cancelled (ss_receiver st)" "lg_got (tl_server x) 1 = [[1, 2, 3]]"
    using demo_requests_end by auto
  obtain y cst where y: "lawful_run demo_lib demo_svcs (demo_asks @ demo_half_closes @ demo_answers @ demo_returns) demo_logged = Some y"
      "0 \<le> ch_lastStreamID (ts_client (tl_sys y))" "ch_heap (ts_client (tl_sys y)) 1 = Some cst" "cs_readErr cst = Some EOF"
      "lg_got (tl_client y) 1 = [[7]]"
    using demo_responses_end by auto
  have r: "lawful_reach demo_lib demo_svcs demo_logged x" "lawful_reach demo_lib demo_svcs demo_logged y"
    by (rule lawful_reach_run [OF lawful_reach.lawful_begin x(1)], rule lawful_reach_run [OF lawful_reach.lawful_begin y(1)])
  note ends = eof_complete [OF _ demo_opts_wf demo_opts_wf _ demo_status_faithful plain]
  have "lg_sent (tl_client x) 1 = [[1, 2, 3]]"
    using ends [OF r(1) [unfolded demo_logged_eq] x(2), of 1] x(3-7) by auto
  moreover have "lg_sent (tl_server y) 1 = [[7]]"
    using ends [OF r(2) [unfolded demo_logged_eq] y(2), of 1] y(3-5) by auto
  ultimately show ?thesis using x(1,7) y(1,5) by blast
qed

end
