(* ===== verification/Safe_Streams.thy ===== *)
theory Safe_Streams
  imports Prelude
begin

text \<open>
  The wrappers that make the gRPC stream of a tunnel safe for concurrent use (\<^verbatim>\<open>tunnel_client.go\<close>, \<^verbatim>\<open>reverse_server.go\<close>). The streams of
  gRPC allow one goroutine in \<^verbatim>\<open>Send\<close> and one in \<^verbatim>\<open>Recv\<close> at a time; a wrapper has a mutex for either side. A method is the list of its
  statements; every \<^verbatim>\<open>Lock\<close> of the source is followed by a deferred \<^verbatim>\<open>Unlock\<close>, so returning releases what the call holds. Any number of
  goroutines call methods, and \<open>wrap_do\<close> is one statement of one of them. What a call of the wrapped stream returns is an argument.
\<close>

datatype mutex = SendMu | RecvMu

datatype 'm call = CallSend 'm | CallSendMsg 'm | CallCloseSend | CallRecv | CallRecvMsg

datatype statement = Lock mutex | SetClosed | ReturnIfClosed | Forward

fun side :: "'m call \<Rightarrow> mutex" where
  "side (CallSend m) = SendMu"
| "side (CallSendMsg m) = SendMu"
| "side CallCloseSend = SendMu"
| "side CallRecv = RecvMu"
| "side CallRecvMsg = RecvMu"

subsection \<open>The wrappers\<close>

text \<open>The methods that a wrapper has; \<^verbatim>\<open>CloseSend\<close> is not a method of the server's streams.\<close>

fun threadSafeOpenTunnelClient :: "'m call \<Rightarrow> statement list option" where
  "threadSafeOpenTunnelClient CallCloseSend = Some [Lock SendMu, Forward]"
| "threadSafeOpenTunnelClient (CallSend m) = Some [Lock SendMu, Forward]"
| "threadSafeOpenTunnelClient (CallSendMsg m) = Some [Lock SendMu, Forward]"
| "threadSafeOpenTunnelClient CallRecv = Some [Lock RecvMu, Forward]"
| "threadSafeOpenTunnelClient CallRecvMsg = Some [Lock RecvMu, Forward]"

fun threadSafeOpenReverseTunnelServer :: "'m call \<Rightarrow> statement list option" where
  "threadSafeOpenReverseTunnelServer (CallSend m) = Some [Lock SendMu, Forward]"
| "threadSafeOpenReverseTunnelServer (CallSendMsg m) = Some [Lock SendMu, Forward]"
| "threadSafeOpenReverseTunnelServer CallRecv = Some [Lock RecvMu, Forward]"
| "threadSafeOpenReverseTunnelServer CallRecvMsg = Some [Lock RecvMu, Forward]"
| "threadSafeOpenReverseTunnelServer CallCloseSend = None"

text \<open>\<^verbatim>\<open>Send\<close> of this one calls its \<^verbatim>\<open>SendMsg\<close>.\<close>

definition rtc_SendMsg :: "statement list" where
  "rtc_SendMsg = [Lock SendMu, ReturnIfClosed, Forward]"

fun threadSafeOpenReverseTunnelClient :: "'m call \<Rightarrow> statement list option" where
  "threadSafeOpenReverseTunnelClient CallCloseSend = Some [Lock SendMu, SetClosed, Forward]"
| "threadSafeOpenReverseTunnelClient (CallSend m) = Some rtc_SendMsg"
| "threadSafeOpenReverseTunnelClient (CallSendMsg m) = Some rtc_SendMsg"
| "threadSafeOpenReverseTunnelClient CallRecv = Some [Lock RecvMu, Forward]"
| "threadSafeOpenReverseTunnelClient CallRecvMsg = Some [Lock RecvMu, Forward]"

fun threadSafeOpenTunnelServer :: "'m call \<Rightarrow> statement list option" where
  "threadSafeOpenTunnelServer (CallSend m) = Some [Lock SendMu, Forward]"
| "threadSafeOpenTunnelServer (CallSendMsg m) = Some [Lock SendMu, Forward]"
| "threadSafeOpenTunnelServer CallRecv = Some [Lock RecvMu, Forward]"
| "threadSafeOpenTunnelServer CallRecvMsg = Some [Lock RecvMu, Forward]"
| "threadSafeOpenTunnelServer CallCloseSend = None"

subsection \<open>Goroutines\<close>

text \<open>
  A call in progress: the statements that are left, the mutexes it holds, and whether it is inside the method of the wrapped
  stream. The last two fields of the state are the history: the calls that reached the wrapped stream and the calls that returned.
\<close>

record 'm activity =
  act_call :: "'m call"
  act_todo :: "statement list"
  act_held :: "mutex list"
  act_inside :: bool

record 'm wrapper =
  wr_owner :: "mutex \<Rightarrow> nat option"
  wr_closed :: bool
  wr_run :: "nat \<rightharpoonup> 'm activity"
  wr_inner :: "'m call list"
  wr_returned :: "(nat \<times> 'm call \<times> gerror option) list"

definition wrap_new :: "'m wrapper" where
  "wrap_new = \<lparr>wr_owner = (\<lambda>mu. None), wr_closed = False, wr_run = Map.empty, wr_inner = [], wr_returned = []\<rparr>"

text \<open>Returning runs the deferred \<^verbatim>\<open>Unlock\<close>s.\<close>

definition wrap_return :: "nat \<Rightarrow> 'm activity \<Rightarrow> gerror option \<Rightarrow> 'm wrapper \<Rightarrow> 'm wrapper" where
  "wrap_return g a r w = w\<lparr>wr_owner := (\<lambda>mu. if mu \<in> set (act_held a) then None else wr_owner w mu), wr_run := (wr_run w)(g := None),
     wr_returned := wr_returned w @ [(g, act_call a, r)]\<rparr>"

definition put_run :: "nat \<Rightarrow> 'm activity \<Rightarrow> 'm wrapper \<Rightarrow> 'm wrapper" where
  "put_run g a w = w\<lparr>wr_run := (wr_run w)(g \<mapsto> a)\<rparr>"

fun wrap_statement :: "statement \<Rightarrow> nat \<Rightarrow> 'm activity \<Rightarrow> 'm wrapper \<Rightarrow> 'm wrapper option" where
  "wrap_statement (Lock mu) g a w =
     (if wr_owner w mu = None
      then Some (put_run g (a\<lparr>act_held := mu # act_held a\<rparr>) (w\<lparr>wr_owner := (wr_owner w)(mu \<mapsto> g)\<rparr>)) else None)"
| "wrap_statement SetClosed g a w = Some (put_run g a (w\<lparr>wr_closed := True\<rparr>))"
| "wrap_statement ReturnIfClosed g a w = Some (if wr_closed w then wrap_return g a (Some EOF) w else put_run g a w)"
| "wrap_statement Forward g a w = Some (put_run g (a\<lparr>act_inside := True\<rparr>) (w\<lparr>wr_inner := wr_inner w @ [act_call a]\<rparr>))"

datatype 'm wrap_act = WCall nat "'m call" | WStep nat | WReturn nat "gerror option"

fun wrap_do :: "('m call \<Rightarrow> statement list option) \<Rightarrow> 'm wrap_act \<Rightarrow> 'm wrapper \<Rightarrow> 'm wrapper option" where
  "wrap_do methods (WCall g c) w =
     (case (wr_run w g, methods c) of
        (None, Some p) \<Rightarrow> Some (put_run g \<lparr>act_call = c, act_todo = p, act_held = [], act_inside = False\<rparr> w)
      | _ \<Rightarrow> None)"
| "wrap_do methods (WStep g) w =
     (case wr_run w g of
        None \<Rightarrow> None
      | Some a \<Rightarrow>
          (case act_todo a of
             [] \<Rightarrow> None
           | x # xs \<Rightarrow> if act_inside a then None else wrap_statement x g (a\<lparr>act_todo := xs\<rparr>) w))"
| "wrap_do methods (WReturn g r) w =
     (case wr_run w g of
        None \<Rightarrow> None
      | Some a \<Rightarrow> if act_inside a then Some (wrap_return g a r w) else None)"

fun wrap_run :: "('m call \<Rightarrow> statement list option) \<Rightarrow> 'm wrap_act list \<Rightarrow> 'm wrapper \<Rightarrow> 'm wrapper option" where
  "wrap_run methods [] w = Some w"
| "wrap_run methods (a # as) w = (case wrap_do methods a w of None \<Rightarrow> None | Some w' \<Rightarrow> wrap_run methods as w')"

inductive wrap_reach :: "('m call \<Rightarrow> statement list option) \<Rightarrow> 'm wrapper \<Rightarrow> bool" for methods where
  wrap_start: "wrap_reach methods wrap_new"
| wrap_step: "wrap_reach methods w \<Longrightarrow> wrap_do methods a w = Some w' \<Longrightarrow> wrap_reach methods w'"

lemma wrap_reach_run: "wrap_reach methods w \<Longrightarrow> wrap_run methods as w = Some w' \<Longrightarrow> wrap_reach methods w'"
  by (induction as arbitrary: w) (auto split: option.splits intro: wrap_reach.wrap_step)

lemma wrap_do_cases [consumes 1, case_names call lock set_closed eof open_goes forward returns]:
  assumes "wrap_do methods act w = Some w'"
  obtains g c p where "act = WCall g c" "wr_run w g = None" "methods c = Some p"
      "w' = put_run g \<lparr>act_call = c, act_todo = p, act_held = [], act_inside = False\<rparr> w"
  | g a mu xs where "act = WStep g" "wr_run w g = Some a" "\<not> act_inside a" "act_todo a = Lock mu # xs" "wr_owner w mu = None"
      "w' = put_run g (a\<lparr>act_todo := xs, act_held := mu # act_held a\<rparr>) (w\<lparr>wr_owner := (wr_owner w)(mu \<mapsto> g)\<rparr>)"
  | g a xs where "act = WStep g" "wr_run w g = Some a" "\<not> act_inside a" "act_todo a = SetClosed # xs"
      "w' = put_run g (a\<lparr>act_todo := xs\<rparr>) (w\<lparr>wr_closed := True\<rparr>)"
  | g a xs where "act = WStep g" "wr_run w g = Some a" "\<not> act_inside a" "act_todo a = ReturnIfClosed # xs" "wr_closed w"
      "w' = wrap_return g (a\<lparr>act_todo := xs\<rparr>) (Some EOF) w"
  | g a xs where "act = WStep g" "wr_run w g = Some a" "\<not> act_inside a" "act_todo a = ReturnIfClosed # xs" "\<not> wr_closed w"
      "w' = put_run g (a\<lparr>act_todo := xs\<rparr>) w"
  | g a xs where "act = WStep g" "wr_run w g = Some a" "\<not> act_inside a" "act_todo a = Forward # xs"
      "w' = put_run g (a\<lparr>act_todo := xs, act_inside := True\<rparr>) (w\<lparr>wr_inner := wr_inner w @ [act_call a]\<rparr>)"
  | g a r where "act = WReturn g r" "wr_run w g = Some a" "act_inside a" "w' = wrap_return g a r w"
proof (cases act)
  case (WCall g c)
  then show ?thesis using assms that(1) by (auto split: option.splits)
next
  case (WStep g)
  then obtain a x xs where a: "wr_run w g = Some a" "act_todo a = x # xs" "\<not> act_inside a"
      "wrap_statement x g (a\<lparr>act_todo := xs\<rparr>) w = Some w'"
    using assms by (auto split: option.splits list.splits if_splits)
  show ?thesis
    by (cases x) (use that(2-6) [OF WStep a(1,3)] a(2,4) in \<open>auto split: if_splits\<close>)
next
  case (WReturn g r)
  then show ?thesis using assms that(7) by (auto split: option.splits if_splits)
qed

subsection \<open>The contract\<close>

text \<open>
  What the table of methods owes: a call locks the mutex of its side first and no other, calls the wrapped stream last, and may look at
  the flag in between.
\<close>

definition guarded :: "'m call \<Rightarrow> statement list \<Rightarrow> bool" where
  "guarded c p \<longleftrightarrow> (\<exists>mid. p = Lock (side c) # mid @ [Forward] \<and> set mid \<subseteq> {SetClosed, ReturnIfClosed})"

text \<open>A call that is under way: before its lock, or holding it.\<close>

definition under_way :: "'m activity \<Rightarrow> bool" where
  "under_way a \<longleftrightarrow> (guarded (act_call a) (act_todo a) \<and> act_held a = [] \<and> \<not> act_inside a)
     \<or> (act_held a = [side (act_call a)]
        \<and> (if act_inside a then act_todo a = [] else \<exists>mid. act_todo a = mid @ [Forward] \<and> set mid \<subseteq> {SetClosed, ReturnIfClosed}))"

definition wrap_ok :: "'m wrapper \<Rightarrow> bool" where
  "wrap_ok w \<longleftrightarrow> (\<forall>g a. wr_run w g = Some a \<longrightarrow> under_way a)
     \<and> (\<forall>mu g. wr_owner w mu = Some g \<longleftrightarrow> (\<exists>a. wr_run w g = Some a \<and> mu \<in> set (act_held a)))"

lemma wrap_ok_put:
  assumes "wrap_ok w" and "wr_run w g = Some a" and "under_way a'" and "act_held a' = act_held a"
    and "wr_run w1 = wr_run w" and "wr_owner w1 = wr_owner w"
  shows "wrap_ok (put_run g a' w1)"
  using assms by (auto simp: wrap_ok_def put_run_def)

lemma wrap_ok_return:
  assumes "wrap_ok w" and "wr_run w g = Some a" and "act_held a' = act_held a"
  shows "wrap_ok (wrap_return g a' r w)"
proof -
  have own: "wr_owner w mu = Some h \<longleftrightarrow> (\<exists>b. wr_run w h = Some b \<and> mu \<in> set (act_held b))" for mu h
    using assms(1) by (simp add: wrap_ok_def)
  let ?w = "wrap_return g a' r w"
  have "wr_owner ?w mu = Some h \<longleftrightarrow> (\<exists>b. wr_run ?w h = Some b \<and> mu \<in> set (act_held b))" for mu h
  proof (cases "h = g")
    case True
    have "wr_owner ?w mu \<noteq> Some g" using own [of mu g] assms(2,3) by (auto simp: wrap_return_def)
    then show ?thesis using True by (simp add: wrap_return_def)
  next
    case False
    then have "wr_owner ?w mu = Some h \<longleftrightarrow> wr_owner w mu = Some h"
      using own [of mu g] assms(2,3) by (auto simp: wrap_return_def)
    then show ?thesis using own [of mu h] False by (simp add: wrap_return_def)
  qed
  moreover have "under_way b" if "wr_run ?w h = Some b" for h b
    using assms(1) that by (auto simp: wrap_ok_def wrap_return_def split: if_splits)
  ultimately show ?thesis by (simp add: wrap_ok_def)
qed

text \<open>A statement other than the lock.\<close>

lemma under_way_goes_on:
  assumes "under_way a" and "\<not> act_inside a" and "act_todo a = x # xs" and "\<nexists>mu. x = Lock mu"
  shows "x = Forward \<Longrightarrow> under_way (a\<lparr>act_todo := xs, act_inside := True\<rparr>)"
    and "x \<noteq> Forward \<Longrightarrow> under_way (a\<lparr>act_todo := xs\<rparr>)"
  using assms by (auto simp: under_way_def guarded_def Cons_eq_append_conv split: if_splits)

locale safe_stream =
  fixes methods :: "'m call \<Rightarrow> statement list option"
  assumes methods_guarded: "methods c = Some p \<Longrightarrow> guarded c p"
begin

lemma ok_step:
  assumes "wrap_ok w" and "wrap_do methods act w = Some w'"
  shows "wrap_ok w'"
proof -
  have way: "under_way a" if "wr_run w g = Some a" for g a using assms(1) that by (simp add: wrap_ok_def)
  from assms(2) show ?thesis
  proof (cases rule: wrap_do_cases)
    case (call g c p)
    then show ?thesis using assms(1) methods_guarded [OF call(3)] by (auto simp: wrap_ok_def put_run_def under_way_def)
  next
    case (lock g a mu xs)
    have a: "act_held a = []" "mu = side (act_call a)" "\<exists>mid. xs = mid @ [Forward] \<and> set mid \<subseteq> {SetClosed, ReturnIfClosed}"
      using way [OF lock(2)] lock(3,4) by (auto simp: under_way_def guarded_def Cons_eq_append_conv split: if_splits)
    then have "under_way (a\<lparr>act_todo := xs, act_held := mu # act_held a\<rparr>)" using lock(3) by (simp add: under_way_def)
    moreover have "mu \<notin> set (act_held b)" if "wr_run w h = Some b" for h b
      using assms(1) lock(5) that unfolding wrap_ok_def by (metis option.distinct(1))
    ultimately show ?thesis using assms(1) lock(2,5) a(1) unfolding lock(6) by (auto simp: wrap_ok_def put_run_def)
  next
    case (set_closed g a xs)
    then show ?thesis using under_way_goes_on(2) [OF way] by (auto intro: wrap_ok_put [OF assms(1)])
  next
    case (open_goes g a xs)
    then show ?thesis using under_way_goes_on(2) [OF way] by (auto intro: wrap_ok_put [OF assms(1)])
  next
    case (forward g a xs)
    then show ?thesis using under_way_goes_on(1) [OF way] by (auto intro: wrap_ok_put [OF assms(1)])
  qed (use wrap_ok_return [OF assms(1)] in auto)
qed

lemma ok_reach: "wrap_reach methods w \<Longrightarrow> wrap_ok w"
proof (induction rule: wrap_reach.induct)
  case wrap_start
  show ?case by (simp add: wrap_ok_def wrap_new_def)
qed (rule ok_step)

text \<open>Two calls of one side are never inside at the same time.\<close>

lemma exclusive:
  assumes "wrap_reach methods w" and "wr_run w g = Some a" and "wr_run w h = Some b" and "act_inside a" and "act_inside b"
    and "side (act_call a) = side (act_call b)"
  shows "g = h"
proof -
  have ok: "wrap_ok w" by (rule ok_reach [OF assms(1)])
  then have "side (act_call a) \<in> set (act_held a)" "side (act_call b) \<in> set (act_held b)"
    using assms(2-5) by (fastforce simp: wrap_ok_def under_way_def split: if_splits)+
  then have "wr_owner w (side (act_call a)) = Some g" "wr_owner w (side (act_call a)) = Some h"
    using ok assms(2,3,6) unfolding wrap_ok_def by auto
  then show ?thesis by simp
qed

text \<open>A call that cannot go on waits for another call of its own side.\<close>

lemma waits_for_own_side:
  assumes "wrap_reach methods w" and "wr_run w g = Some a" and "\<not> act_inside a" and "wrap_do methods (WStep g) w = None"
  shows "\<exists>h b. h \<noteq> g \<and> wr_run w h = Some b \<and> side (act_call b) = side (act_call a) \<and> act_held b \<noteq> []"
proof -
  have ok: "wrap_ok w" by (rule ok_reach [OF assms(1)])
  then have a: "under_way a" using assms(2) by (simp add: wrap_ok_def)
  obtain x xs where x: "act_todo a = x # xs"
    using a assms(3) by (cases "act_todo a") (auto simp: under_way_def guarded_def split: if_splits)
  then obtain mu where mu: "x = Lock mu" "wr_owner w mu \<noteq> None" using assms(2-4) by (cases x) (auto split: if_splits)
  then have "mu = side (act_call a)" "act_held a = []"
    using a x assms(3) by (auto simp: under_way_def guarded_def Cons_eq_append_conv split: if_splits)
  moreover obtain h where h: "wr_owner w mu = Some h" using mu(2) by blast
  then obtain b where b: "wr_run w h = Some b" "mu \<in> set (act_held b)" using ok unfolding wrap_ok_def by blast
  then have "under_way b" using ok by (simp add: wrap_ok_def)
  then have "side (act_call b) = mu" using b(2) by (auto simp: under_way_def)
  moreover have "h \<noteq> g" using b assms(2) calculation(2) by auto
  ultimately show ?thesis using b by (intro exI [of _ h] exI [of _ b]) auto
qed

text \<open>A call that holds its mutex is inside the wrapped stream or can go on.\<close>

lemma holder_goes_on:
  assumes "wrap_reach methods w" and "wr_run w g = Some a" and "act_held a \<noteq> []" and "\<not> act_inside a"
  shows "wrap_do methods (WStep g) w \<noteq> None"
proof
  assume stuck: "wrap_do methods (WStep g) w = None"
  have "under_way a" using ok_reach [OF assms(1)] assms(2) by (simp add: wrap_ok_def)
  then obtain mid where mid: "act_todo a = mid @ [Forward]" "set mid \<subseteq> {SetClosed, ReturnIfClosed}"
    using assms(3,4) by (auto simp: under_way_def)
  then obtain x xs where x: "act_todo a = x # xs" "x \<in> {SetClosed, ReturnIfClosed, Forward}" by (cases mid) auto
  then show False using stuck assms(2,4) by auto
qed

end

interpretation open_client: safe_stream threadSafeOpenTunnelClient
  by unfold_locales (erule threadSafeOpenTunnelClient.elims; simp add: guarded_def)

interpretation reverse_server: safe_stream threadSafeOpenReverseTunnelServer
  by unfold_locales (erule threadSafeOpenReverseTunnelServer.elims; simp add: guarded_def)

interpretation reverse_client: safe_stream threadSafeOpenReverseTunnelClient
  by unfold_locales (erule threadSafeOpenReverseTunnelClient.elims; auto simp: guarded_def rtc_SendMsg_def)

interpretation open_server: safe_stream threadSafeOpenTunnelServer
  by unfold_locales (erule threadSafeOpenTunnelServer.elims; simp add: guarded_def)

subsection \<open>Closing\<close>

text \<open>
  The reverse tunnel's client remembers \<^verbatim>\<open>CloseSend\<close>: a call of \<^verbatim>\<open>Send\<close> that is past the check holds the mutex, and so the flag is
  not set until it is inside the wrapped stream.
\<close>

fun sends :: "'m call \<Rightarrow> bool" where
  "sends (CallSend m) = True"
| "sends (CallSendMsg m) = True"
| "sends _ = False"

fun none_after_close :: "'m call list \<Rightarrow> bool" where
  "none_after_close [] = True"
| "none_after_close (c # cs) = (if c = CallCloseSend then \<not> list_ex sends cs else none_after_close cs)"

definition closing_ok :: "'m wrapper \<Rightarrow> bool" where
  "closing_ok w \<longleftrightarrow> none_after_close (wr_inner w) \<and> (CallCloseSend \<in> set (wr_inner w) \<longrightarrow> wr_closed w)
     \<and> (\<forall>g a. wr_run w g = Some a \<longrightarrow> (\<exists>before. threadSafeOpenReverseTunnelClient (act_call a) = Some (before @ act_todo a))
          \<and> (act_todo a = [Forward] \<longrightarrow> (sends (act_call a) \<longrightarrow> \<not> wr_closed w) \<and> (act_call a = CallCloseSend \<longrightarrow> wr_closed w)))"

lemma none_after_close_snoc:
  "none_after_close cs \<Longrightarrow> sends c \<longrightarrow> CallCloseSend \<notin> set cs \<Longrightarrow> none_after_close (cs @ [c])"
  by (induction cs) (auto simp: list_ex_iff)

lemma rtc_statements:
  assumes "threadSafeOpenReverseTunnelClient c = Some (before @ x # xs)"
  shows "x = SetClosed \<Longrightarrow> c = CallCloseSend \<and> xs = [Forward]" and "x = ReturnIfClosed \<Longrightarrow> sends c \<and> xs = [Forward]"
    and "x = Lock mu \<Longrightarrow> xs = [Forward] \<Longrightarrow> \<not> sends c \<and> c \<noteq> CallCloseSend" and "x = Forward \<Longrightarrow> xs = []"
  using assms by (cases c; auto simp: rtc_SendMsg_def Cons_eq_append_conv append_eq_Cons_conv)+

lemma closing_step:
  assumes "wrap_ok w" and "closing_ok w" and "wrap_do threadSafeOpenReverseTunnelClient act w = Some w'"
  shows "closing_ok w'"
proof -
  have st: "\<exists>before. threadSafeOpenReverseTunnelClient (act_call a) = Some (before @ act_todo a)" if "wr_run w g = Some a" for g a
    using assms(2) that by (simp add: closing_ok_def)
  have suf: "\<exists>before. threadSafeOpenReverseTunnelClient (act_call a) = Some (before @ xs)" if "wr_run w g = Some a" "act_todo a = x # xs" for g a x xs
    using st [OF that(1)] that(2) by (metis append.assoc append_Cons append_Nil)
  from assms(3) show ?thesis
  proof (cases rule: wrap_do_cases)
    case (call g c p)
    have "p \<noteq> [Forward]" using call(3) by (cases c) (auto simp: rtc_SendMsg_def)
    then show ?thesis using assms(2) call by (auto simp: closing_ok_def put_run_def)
  next
    case (lock g a mu xs)
    then show ?thesis
      using assms(2) suf [OF lock(2,4)] st [OF lock(2)] rtc_statements(3) [of "act_call a" _ "Lock mu" xs mu]
      by (auto simp: closing_ok_def put_run_def)
  next
    case (set_closed g a xs)
    then have a: "act_call a = CallCloseSend" "xs = [Forward]" using st [OF set_closed(2)] rtc_statements(1) by metis+
    have "\<not> sends (act_call b)" if b: "wr_run w h = Some b" "act_todo b = [Forward]" "h \<noteq> g" for h b
    proof
      assume "sends (act_call b)"
      then have "side (act_call b) = SendMu" by (cases "act_call b") simp_all
      moreover have "under_way a" "under_way b" using assms(1) set_closed(2) b(1) by (simp_all add: wrap_ok_def)
      ultimately have "SendMu \<in> set (act_held a)" "SendMu \<in> set (act_held b)"
        using set_closed(4) a(1) b(2) by (auto simp: under_way_def guarded_def)
      then have "wr_owner w SendMu = Some g" "wr_owner w SendMu = Some h"
        using assms(1) set_closed(2) b(1) unfolding wrap_ok_def by blast+
      then show False using b(3) by simp
    qed
    then show ?thesis using assms(2) suf [OF set_closed(2,4)] a unfolding set_closed(5) by (auto simp: closing_ok_def put_run_def)
  next
    case (open_goes g a xs)
    then have a: "sends (act_call a)" "xs = [Forward]" using st [OF open_goes(2)] rtc_statements(2) by metis+
    then show ?thesis using assms(2) suf [OF open_goes(2,4)] open_goes(5) unfolding open_goes(6) by (auto simp: closing_ok_def put_run_def)
  next
    case (forward g a xs)
    then have "xs = []" using st [OF forward(2)] rtc_statements(4) by metis
    then show ?thesis
      using assms(2) suf [OF forward(2,4)] forward(2,4) none_after_close_snoc unfolding forward(5) by (auto simp: closing_ok_def put_run_def)
  next
    case (eof g a xs)
    then show ?thesis using assms(2) by (auto simp: closing_ok_def wrap_return_def)
  next
    case (returns g a r)
    then show ?thesis using assms(2) by (auto simp: closing_ok_def wrap_return_def)
  qed
qed

lemma closing_reach: "wrap_reach threadSafeOpenReverseTunnelClient w \<Longrightarrow> closing_ok w"
proof (induction rule: wrap_reach.induct)
  case wrap_start
  show ?case by (simp add: closing_ok_def wrap_new_def)
next
  case (wrap_step w a w')
  then show ?case using closing_step reverse_client.ok_reach by blast
qed

subsection \<open>The property\<close>

text \<open>
  C20. The gRPC stream of a tunnel is never used concurrently: whatever goroutines call the methods of any of the four wrappers, at
  most one of them is inside a sending method of the stream and at most one inside a receiving method. A call that
  has to wait waits for another call of its own side, which is inside the stream or can go on: sending and receiving never block each
  other and there is no deadlock. On the client of a reverse tunnel, no message reaches the stream after CloseSend did.
\<close>

theorem wrappers_exclusive:
  assumes "methods \<in> {threadSafeOpenTunnelClient, threadSafeOpenReverseTunnelServer, threadSafeOpenReverseTunnelClient,
      threadSafeOpenTunnelServer}"
    and "wrap_reach methods w"
  shows "(\<forall>g h a b. wr_run w g = Some a \<and> wr_run w h = Some b \<and> act_inside a \<and> act_inside b
          \<and> side (act_call a) = side (act_call b) \<longrightarrow> g = h)
    \<and> (\<forall>g a. wr_run w g = Some a \<and> \<not> act_inside a \<and> wrap_do methods (WStep g) w = None \<longrightarrow>
         (\<exists>h b. h \<noteq> g \<and> wr_run w h = Some b \<and> side (act_call b) = side (act_call a)
            \<and> (act_inside b \<or> wrap_do methods (WStep h) w \<noteq> None)))
    \<and> (methods = threadSafeOpenReverseTunnelClient \<longrightarrow> none_after_close (wr_inner w))"
proof -
  have "safe_stream methods"
    using assms(1) open_client.safe_stream_axioms reverse_server.safe_stream_axioms reverse_client.safe_stream_axioms
      open_server.safe_stream_axioms by auto
  note S = safe_stream.exclusive [OF this assms(2)] safe_stream.waits_for_own_side [OF this assms(2)]
    safe_stream.holder_goes_on [OF this assms(2)]
  have "\<exists>h b. h \<noteq> g \<and> wr_run w h = Some b \<and> side (act_call b) = side (act_call a)
      \<and> (act_inside b \<or> wrap_do methods (WStep h) w \<noteq> None)"
    if stuck: "wr_run w g = Some a" "\<not> act_inside a" "wrap_do methods (WStep g) w = None" for g a
  proof -
    obtain h b where "h \<noteq> g" "wr_run w h = Some b" "side (act_call b) = side (act_call a)" "act_held b \<noteq> []"
      using S(2) [OF stuck] by blast
    then show ?thesis using S(3) [of h b] by blast
  qed
  moreover have "methods = threadSafeOpenReverseTunnelClient \<longrightarrow> none_after_close (wr_inner w)"
    using closing_reach [of w] assms(2) by (auto simp: closing_ok_def)
  ultimately show ?thesis using S(1) by blast
qed

text \<open>One goroutine is inside Recv, one inside CloseSend, and a third waits in Send.\<close>

definition demo_wrap :: "nat wrap_act list" where
  "demo_wrap = [WCall 0 CallRecv, WStep 0, WStep 0, WCall 1 CallCloseSend, WCall 2 (CallSend 7), WStep 1, WStep 1, WStep 1]"

theorem wrappers_exclusive_witness:
  "\<exists>w a. wrap_run threadSafeOpenReverseTunnelClient demo_wrap wrap_new = Some w \<and> wr_run w 2 = Some a
     \<and> (\<exists>h b. h \<noteq> 2 \<and> wr_run w h = Some b \<and> side (act_call b) = side (act_call a)
          \<and> (act_inside b \<or> wrap_do threadSafeOpenReverseTunnelClient (WStep h) w \<noteq> None))
     \<and> none_after_close (wr_inner w)"
proof -
  have "\<exists>w a. wrap_run threadSafeOpenReverseTunnelClient demo_wrap wrap_new = Some w \<and> wr_run w 2 = Some a \<and> \<not> act_inside a
      \<and> wrap_do threadSafeOpenReverseTunnelClient (WStep 2) w = None"
    by (simp add: demo_wrap_def wrap_new_def put_run_def rtc_SendMsg_def)
  then obtain w a where w: "wrap_run threadSafeOpenReverseTunnelClient demo_wrap wrap_new = Some w" "wr_run w 2 = Some a"
      "\<not> act_inside a" "wrap_do threadSafeOpenReverseTunnelClient (WStep 2) w = None" by blast
  have reach: "wrap_reach threadSafeOpenReverseTunnelClient w" by (rule wrap_reach_run [OF wrap_reach.wrap_start w(1)])
  have tbl: "threadSafeOpenReverseTunnelClient \<in> {threadSafeOpenTunnelClient, threadSafeOpenReverseTunnelServer,
      threadSafeOpenReverseTunnelClient, threadSafeOpenTunnelServer}" by simp
  show ?thesis using wrappers_exclusive [OF tbl reach] w by blast
qed

end
