(* ===== verification/Context_Values.thy ===== *)
theory Context_Values
  imports Wire
begin

text \<open>
  The values that tunnels store in contexts, and the accessors of \<^verbatim>\<open>tunnel_metadata.go\<close>. A context is the list of the values added to it, the latest
  first; its error is modelled with the streams. The keys are of unexported types, so that only this package uses them; those of the
  libraries are \<open>LibraryKey\<close>. A channel is its address, and \<^verbatim>\<open>MD.Copy\<close> an argument of the accessors.
\<close>

datatype context_key =
    tunnelMetadataIncomingContextKey | tunnelMetadataOutgoingContextKey | tunnelChannelContextKey | LibraryKey nat

datatype context_value = MDValue MD | ChannelValue nat | LibraryValue nat

type_synonym context_values = "(context_key \<times> context_value) list"

definition WithValue :: "context_key \<Rightarrow> context_value \<Rightarrow> context_values \<Rightarrow> context_values" where
  "WithValue k v c = (k, v) # c"

definition Value :: "context_key \<Rightarrow> context_values \<Rightarrow> context_value option" where
  "Value k c = map_of c k"

subsection \<open>The accessors\<close>

text \<open>The type assertion \<^verbatim>\<open>.(metadata.MD)\<close>: without such a value the nil map, and false.\<close>

fun as_MD :: "context_value option \<Rightarrow> MD \<times> bool" where
  "as_MD (Some (MDValue md)) = (md, True)"
| "as_MD _ = (None, False)"

definition TunnelMetadataFromIncomingContext :: "(MD \<Rightarrow> MD) \<Rightarrow> context_values \<Rightarrow> MD \<times> bool" where
  "TunnelMetadataFromIncomingContext Copy c =
     (case as_MD (Value tunnelMetadataIncomingContextKey c) of (md, ok) \<Rightarrow> (Copy md, ok))"

definition TunnelMetadataFromOutgoingContext :: "(MD \<Rightarrow> MD) \<Rightarrow> context_values \<Rightarrow> MD \<times> bool" where
  "TunnelMetadataFromOutgoingContext Copy c =
     (case as_MD (Value tunnelMetadataOutgoingContextKey c) of (md, ok) \<Rightarrow> (Copy md, ok))"

definition TunnelChannelFromContext :: "context_values \<Rightarrow> nat option" where
  "TunnelChannelFromContext c = (case Value tunnelChannelContextKey c of Some (ChannelValue ch) \<Rightarrow> Some ch | _ \<Rightarrow> None)"

subsection \<open>The contexts of streams\<close>

text \<open>
  The server: \<^verbatim>\<open>serve\<close> adds the tunnel's metadata to the stream's context, and \<^verbatim>\<open>createStream\<close> has \<^verbatim>\<open>metadata.NewIncomingContext\<close> and
  \<^verbatim>\<open>grpc.NewContextWithServerTransportStream\<close> add values of their own.
\<close>

definition serve_values :: "MD \<Rightarrow> context_values \<Rightarrow> context_values" where
  "serve_values tunnelMetadata streamCtx = WithValue tunnelMetadataIncomingContextKey (MDValue tunnelMetadata) streamCtx"

definition createStream_values :: "(MD \<Rightarrow> context_values \<Rightarrow> context_values) \<Rightarrow> (context_values \<Rightarrow> context_values) \<Rightarrow> MD
    \<Rightarrow> context_values \<Rightarrow> context_values" where
  "createStream_values NewIncomingContext withTransportStream headers c = withTransportStream (NewIncomingContext headers c)"

text \<open>The client: \<^verbatim>\<open>allocateStream\<close>.\<close>

definition allocateStream_values :: "MD \<Rightarrow> nat \<Rightarrow> context_values \<Rightarrow> context_values" where
  "allocateStream_values tunnelMetadata ch c =
     WithValue tunnelChannelContextKey (ChannelValue ch) (WithValue tunnelMetadataOutgoingContextKey (MDValue tunnelMetadata) c)"

subsection \<open>What the accessors return\<close>

text \<open>The functions of the libraries: they add values of their own, and a copy has the same entries.\<close>

definition adds_own_values :: "(context_values \<Rightarrow> context_values) \<Rightarrow> bool" where
  "adds_own_values f \<longleftrightarrow> (\<forall>c. \<exists>vs. f c = vs @ c \<and> (\<forall>kv\<in>set vs. \<exists>n. fst kv = LibraryKey n))"

definition copies :: "(MD \<Rightarrow> MD) \<Rightarrow> bool" where
  "copies Copy \<longleftrightarrow> (\<forall>md. md_entries (Copy md) = md_entries md)"

lemma Value_WithValue [simp]: "Value k (WithValue k' v c) = (if k = k' then Some v else Value k c)"
  by (simp add: Value_def WithValue_def)

lemma Value_library:
  assumes "adds_own_values f" and "\<And>n. k \<noteq> LibraryKey n"
  shows "Value k (f c) = Value k c"
proof -
  obtain vs where "f c = vs @ c" "\<forall>kv\<in>set vs. \<exists>n. fst kv = LibraryKey n" using assms(1) unfolding adds_own_values_def by blast
  moreover have "map_of vs k = None" using calculation(2) assms(2) by (auto simp: map_of_eq_None_iff)
  ultimately show ?thesis by (simp add: Value_def map_add_def)
qed

text \<open>
  A handler finds the metadata of its tunnel, whatever contexts the tunnel's stream and the RPC's headers came with, and whatever tunnels
  the calls that led here went through.
\<close>

lemma handler_finds_tunnel_metadata:
  assumes "copies Copy" and "\<And>md. adds_own_values (NewIncomingContext md)" and "adds_own_values withTransportStream"
    and "c = createStream_values NewIncomingContext withTransportStream headers (serve_values tunnelMetadata streamCtx)"
  shows "\<exists>md. TunnelMetadataFromIncomingContext Copy c = (md, True) \<and> md_entries md = md_entries tunnelMetadata"
    and "TunnelChannelFromContext c = TunnelChannelFromContext streamCtx"
  using assms(1) Value_library [OF assms(2)] Value_library [OF assms(3)]
  unfolding assms(4) createStream_values_def serve_values_def TunnelMetadataFromIncomingContext_def TunnelChannelFromContext_def copies_def
  by simp_all

text \<open>
  A client interceptor finds the channel of the RPC and the metadata of its tunnel; a handler that makes calls over a tunnel keeps
  the metadata of the tunnel it is called through.
\<close>

lemma interceptor_finds_tunnel:
  assumes "copies Copy" and "c = allocateStream_values tunnelMetadata ch ctx"
  shows "TunnelChannelFromContext c = Some ch"
    and "\<exists>md. TunnelMetadataFromOutgoingContext Copy c = (md, True) \<and> md_entries md = md_entries tunnelMetadata"
    and "TunnelMetadataFromIncomingContext Copy c = TunnelMetadataFromIncomingContext Copy ctx"
  using assms(1) unfolding assms(2) allocateStream_values_def TunnelMetadataFromOutgoingContext_def TunnelMetadataFromIncomingContext_def
    TunnelChannelFromContext_def copies_def by simp_all

text \<open>Without a tunnel: no channel, and false.\<close>

lemma no_tunnel:
  assumes "\<forall>kv\<in>set c. \<exists>n. fst kv = LibraryKey n"
  shows "\<not> snd (TunnelMetadataFromIncomingContext Copy c)" and "\<not> snd (TunnelMetadataFromOutgoingContext Copy c)"
    and "TunnelChannelFromContext c = None"
proof -
  have "Value k c = None" if "\<And>n. k \<noteq> LibraryKey n" for k
    using assms that by (auto simp: Value_def map_of_eq_None_iff)
  then show "\<not> snd (TunnelMetadataFromIncomingContext Copy c)" and "\<not> snd (TunnelMetadataFromOutgoingContext Copy c)"
    and "TunnelChannelFromContext c = None"
    by (simp_all add: TunnelMetadataFromIncomingContext_def TunnelMetadataFromOutgoingContext_def TunnelChannelFromContext_def)
qed

end
