(* ===== verification/Blocking_Dial.thy ===== *)
theory Blocking_Dial
  imports Prelude
begin

text \<open>
  \<^verbatim>\<open>BlockingDial\<close> of \<^verbatim>\<open>internal/blocking_dial.go\<close>: it creates a client connection with a dialer of its own and waits until the connection is
  ready. Four kinds of goroutines take part: the caller in the loop, the collector of dial errors, and the calls of the dialer, which the grpc
  library makes whenever it likes; the caller's context may end at any moment. They share a channel of capacity one for the errors, the
  channel \<^verbatim>\<open>dialingDone\<close> that is only closed, the variable \<^verbatim>\<open>dialErr\<close> under its mutex, and a context derived from the caller's. What
  \<^verbatim>\<open>NewClient\<close>, \<^verbatim>\<open>GetState\<close>, \<^verbatim>\<open>WaitForStateChange\<close> and \<^verbatim>\<open>DialContext\<close> return are arguments of the steps.
\<close>

subsection \<open>Errors of dialing\<close>

text \<open>An error of the network: its methods \<^verbatim>\<open>Temporary\<close> and \<^verbatim>\<open>Timeout\<close> with what they return, when its type has them.\<close>

record dial_error =
  de_error :: gerror
  de_Temporary :: "bool option"
  de_Timeout :: "bool option"

definition isTemporary :: "dial_error \<Rightarrow> bool" where
  "isTemporary err =
     (case de_Temporary err of
        Some b \<Rightarrow> b
      | None \<Rightarrow> (case de_Timeout err of Some b \<Rightarrow> b | None \<Rightarrow> True))"

subsection \<open>State\<close>

datatype connectivity = ConnIdle | ConnConnecting | ConnReady | ConnTransientFailure | ConnShutdown

datatype dial_result = DialReady | DialErr gerror

text \<open>
  Where the goroutines are. The dialer: in \<^verbatim>\<open>DialContext\<close>, in the \<^verbatim>\<open>select\<close>, before the check of the error. The collector: in its \<^verbatim>\<open>select\<close>, or with an
  error in hand. The caller: at the head of the loop, in \<^verbatim>\<open>WaitForStateChange\<close>, after it returned false, before each of the
  deferred calls, and back.
\<close>

datatype dialer_pc = Dialing | Reporting dial_error | Deciding dial_error | DialerEnded

datatype collector_pc = NotStarted | Selecting | Storing dial_error | CollectorEnded

datatype caller_pc = LoopHead | WaitingChange connectivity | Expired | Deferred dial_result | DoneClosed dial_result | DialReturned dial_result

text \<open>The last three fields are the history: the errors that dials returned, those sent to the channel, and those stored in \<^verbatim>\<open>dialErr\<close>.\<close>

record dialing =
  bd_parent :: ctx
  bd_ctx :: ctx
  bd_dialingDone :: bool
  bd_dialErrors :: "dial_error option"
  bd_dialErr :: "dial_error option"
  bd_dialers :: "nat \<rightharpoonup> dialer_pc"
  bd_collector :: collector_pc
  bd_caller :: caller_pc
  bd_failed :: "dial_error list"
  bd_reported :: "dial_error list"
  bd_collected :: "dial_error list"

text \<open>Up to the loop; \<open>newErr\<close> is the error of \<^verbatim>\<open>grpc.NewClient\<close>.\<close>

definition BlockingDial_begin :: "gerror option \<Rightarrow> ctx \<Rightarrow> dialing" where
  "BlockingDial_begin newErr c =
     \<lparr>bd_parent = c, bd_ctx = c, bd_dialingDone = False, bd_dialErrors = None, bd_dialErr = None, bd_dialers = Map.empty,
      bd_collector = (case newErr of None \<Rightarrow> Selecting | Some e \<Rightarrow> NotStarted),
      bd_caller = (case newErr of None \<Rightarrow> LoopHead | Some e \<Rightarrow> Deferred (DialErr e)),
      bd_failed = [], bd_reported = [], bd_collected = []\<rparr>"

subsection \<open>The dialer\<close>

definition put_dialer :: "nat \<Rightarrow> dialer_pc \<Rightarrow> dialing \<Rightarrow> dialing" where
  "put_dialer i pc d = d\<lparr>bd_dialers := (bd_dialers d)(i \<mapsto> pc)\<rparr>"

definition dialer_start :: "nat \<Rightarrow> dialing \<Rightarrow> dialing option" where
  "dialer_start i d = (if bd_dialers d i = None then Some (put_dialer i Dialing d) else None)"

definition dialer_dialed :: "nat \<Rightarrow> dial_error option \<Rightarrow> dialing \<Rightarrow> dialing option" where
  "dialer_dialed i res d =
     (if bd_dialers d i = Some Dialing
      then (case res of
              None \<Rightarrow> Some (put_dialer i DialerEnded d)
            | Some err \<Rightarrow> Some (put_dialer i (Reporting err) (d\<lparr>bd_failed := bd_failed d @ [err]\<rparr>)))
      else None)"

text \<open>The two cases of the \<^verbatim>\<open>select\<close>; when both are ready, either may be taken.\<close>

definition dialer_report :: "nat \<Rightarrow> dialing \<Rightarrow> dialing option" where
  "dialer_report i d =
     (case bd_dialers d i of
        Some (Reporting err) \<Rightarrow>
          (if bd_dialErrors d = None
           then Some (put_dialer i (Deciding err) (d\<lparr>bd_dialErrors := Some err, bd_reported := bd_reported d @ [err]\<rparr>)) else None)
      | _ \<Rightarrow> None)"

definition dialer_skip :: "nat \<Rightarrow> dialing \<Rightarrow> dialing option" where
  "dialer_skip i d =
     (case bd_dialers d i of
        Some (Reporting err) \<Rightarrow> if bd_dialingDone d then Some (put_dialer i (Deciding err) d) else None
      | _ \<Rightarrow> None)"

definition dialer_decide :: "nat \<Rightarrow> dialing \<Rightarrow> dialing option" where
  "dialer_decide i d =
     (case bd_dialers d i of
        Some (Deciding err) \<Rightarrow>
          Some (put_dialer i DialerEnded (if isTemporary err then d else d\<lparr>bd_ctx := ctx_cancel (bd_ctx d)\<rparr>))
      | _ \<Rightarrow> None)"

subsection \<open>The collector\<close>

definition collector_recv :: "dialing \<Rightarrow> dialing option" where
  "collector_recv d =
     (case (bd_collector d, bd_dialErrors d) of
        (Selecting, Some err) \<Rightarrow> Some (d\<lparr>bd_collector := Storing err, bd_dialErrors := None\<rparr>)
      | _ \<Rightarrow> None)"

definition collector_store :: "dialing \<Rightarrow> dialing option" where
  "collector_store d =
     (case bd_collector d of
        Storing err \<Rightarrow> Some (d\<lparr>bd_collector := Selecting, bd_dialErr := Some err, bd_collected := bd_collected d @ [err]\<rparr>)
      | _ \<Rightarrow> None)"

definition collector_stop :: "dialing \<Rightarrow> dialing option" where
  "collector_stop d =
     (if bd_collector d = Selecting \<and> (bd_dialingDone d \<or> bd_ctx d \<noteq> None)
      then Some (d\<lparr>bd_collector := CollectorEnded\<rparr>) else None)"

subsection \<open>The caller\<close>

definition caller_state :: "connectivity \<Rightarrow> dialing \<Rightarrow> dialing option" where
  "caller_state connState d =
     (if bd_caller d = LoopHead
      then Some (d\<lparr>bd_caller := (if connState = ConnReady then Deferred DialReady else WaitingChange connState)\<rparr>) else None)"

text \<open>\<^verbatim>\<open>WaitForStateChange\<close> is documented to return false only when its context has ended.\<close>

definition WaitForStateChange_ok :: "ctx \<Rightarrow> bool \<Rightarrow> bool" where
  "WaitForStateChange_ok c changed \<longleftrightarrow> changed \<or> c \<noteq> None"

definition caller_waited :: "bool \<Rightarrow> dialing \<Rightarrow> dialing option" where
  "caller_waited changed d =
     (case bd_caller d of
        WaitingChange connState \<Rightarrow>
          (if WaitForStateChange_ok (bd_ctx d) changed
           then Some (d\<lparr>bd_caller := (if changed then LoopHead else Expired)\<rparr>) else None)
      | _ \<Rightarrow> None)"

text \<open>The error of a context that has ended does not change, so it is read together with \<^verbatim>\<open>dialErr\<close>.\<close>

definition caller_read :: "dialing \<Rightarrow> dialing option" where
  "caller_read d =
     (if bd_caller d = Expired
      then (case (bd_dialErr d, bd_ctx d) of
              (Some err, _) \<Rightarrow> Some (d\<lparr>bd_caller := Deferred (DialErr (de_error err))\<rparr>)
            | (None, Some e) \<Rightarrow> Some (d\<lparr>bd_caller := Deferred (DialErr e)\<rparr>)
            | (None, None) \<Rightarrow> None)
      else None)"

text \<open>The deferred calls: \<^verbatim>\<open>close(dialingDone)\<close>, then \<^verbatim>\<open>cancel\<close>.\<close>

definition caller_defer :: "dialing \<Rightarrow> dialing option" where
  "caller_defer d =
     (case bd_caller d of
        Deferred r \<Rightarrow> Some (d\<lparr>bd_caller := DoneClosed r, bd_dialingDone := True\<rparr>)
      | DoneClosed r \<Rightarrow> Some (d\<lparr>bd_caller := DialReturned r, bd_ctx := ctx_cancel (bd_ctx d)\<rparr>)
      | _ \<Rightarrow> None)"

definition parent_ends :: "gerror \<Rightarrow> dialing \<Rightarrow> dialing option" where
  "parent_ends e d =
     (if e \<in> {CtxCanceled, CtxDeadlineExceeded}
      then Some (d\<lparr>bd_parent := ctx_end e (bd_parent d), bd_ctx := ctx_end e (bd_ctx d)\<rparr>) else None)"

subsection \<open>All interleavings\<close>

datatype dial_act =
    DialStart nat | DialDialed nat "dial_error option" | DialReport nat | DialSkip nat | DialDecide nat
  | CollectRecv | CollectStore | CollectStop
  | CallerState connectivity | CallerWaited bool | CallerRead | CallerDefer
  | ParentEnds gerror

fun dial_do :: "dial_act \<Rightarrow> dialing \<Rightarrow> dialing option" where
  "dial_do (DialStart i) d = dialer_start i d"
| "dial_do (DialDialed i res) d = dialer_dialed i res d"
| "dial_do (DialReport i) d = dialer_report i d"
| "dial_do (DialSkip i) d = dialer_skip i d"
| "dial_do (DialDecide i) d = dialer_decide i d"
| "dial_do CollectRecv d = collector_recv d"
| "dial_do CollectStore d = collector_store d"
| "dial_do CollectStop d = collector_stop d"
| "dial_do (CallerState s) d = caller_state s d"
| "dial_do (CallerWaited b) d = caller_waited b d"
| "dial_do CallerRead d = caller_read d"
| "dial_do CallerDefer d = caller_defer d"
| "dial_do (ParentEnds e) d = parent_ends e d"

fun dial_run :: "dial_act list \<Rightarrow> dialing \<Rightarrow> dialing option" where
  "dial_run [] d = Some d"
| "dial_run (a # as) d = (case dial_do a d of None \<Rightarrow> None | Some d' \<Rightarrow> dial_run as d')"

inductive dial_reach :: "gerror option \<Rightarrow> ctx \<Rightarrow> dialing \<Rightarrow> bool" for newErr c where
  dial_begin: "dial_reach newErr c (BlockingDial_begin newErr c)"
| dial_step: "dial_reach newErr c d \<Longrightarrow> dial_do a d = Some d' \<Longrightarrow> dial_reach newErr c d'"

lemma dial_reach_run: "dial_reach newErr c d \<Longrightarrow> dial_run as d = Some d' \<Longrightarrow> dial_reach newErr c d'"
  by (induction as arbitrary: d) (auto split: option.splits intro: dial_reach.dial_step)

lemmas dial_defs = dialer_start_def dialer_dialed_def dialer_report_def dialer_skip_def dialer_decide_def collector_recv_def
  collector_store_def collector_stop_def caller_state_def caller_waited_def caller_read_def caller_defer_def parent_ends_def
  put_dialer_def WaitForStateChange_ok_def

subsection \<open>Invariant\<close>

text \<open>The errors that are on their way to \<^verbatim>\<open>dialErr\<close>.\<close>

definition in_hand :: "dialing \<Rightarrow> dial_error list" where
  "in_hand d = (case bd_collector d of Storing err \<Rightarrow> [err] | _ \<Rightarrow> []) @ (case bd_dialErrors d of None \<Rightarrow> [] | Some err \<Rightarrow> [err])"

definition last_error :: "dial_error list \<Rightarrow> dial_error option" where
  "last_error es = (if es = [] then None else Some (last es))"

text \<open>The reasons there are for giving up: the caller's context has ended, or a dial failed in a way that is not temporary.\<close>

definition gives_up :: "dialing \<Rightarrow> bool" where
  "gives_up d \<longleftrightarrow> bd_parent d \<noteq> None \<or> (\<exists>err\<in>set (bd_failed d). \<not> isTemporary err)"

fun result_of :: "caller_pc \<Rightarrow> dial_result option" where
  "result_of (Deferred r) = Some r"
| "result_of (DoneClosed r) = Some r"
| "result_of (DialReturned r) = Some r"
| "result_of _ = None"

definition collected_ok :: "dialing \<Rightarrow> bool" where
  "collected_ok d \<longleftrightarrow> bd_reported d = bd_collected d @ in_hand d \<and> bd_dialErr d = last_error (bd_collected d)"

definition failed_ok :: "dialing \<Rightarrow> bool" where
  "failed_ok d \<longleftrightarrow> set (bd_reported d) \<subseteq> set (bd_failed d)
     \<and> (\<forall>i err. bd_dialers d i = Some (Reporting err) \<or> bd_dialers d i = Some (Deciding err) \<longrightarrow> err \<in> set (bd_failed d))"

abbreviation errors_ok :: "dialing \<Rightarrow> bool" where
  "errors_ok d \<equiv> collected_ok d \<and> failed_ok d"

definition caller_ok :: "gerror option \<Rightarrow> dialing \<Rightarrow> bool" where
  "caller_ok newErr d \<longleftrightarrow>
     (bd_ctx d \<noteq> None \<longrightarrow> gives_up d \<or> (\<exists>r. bd_caller d = DialReturned r))
     \<and> (bd_caller d = Expired \<longrightarrow> gives_up d \<and> bd_ctx d \<noteq> None)
     \<and> (\<forall>e. result_of (bd_caller d) = Some (DialErr e) \<longrightarrow>
          newErr = Some e \<or> gives_up d \<and> (e \<in> de_error ` set (bd_collected d) \<or> bd_ctx d = Some e))
     \<and> (\<forall>r. bd_caller d \<in> {DoneClosed r, DialReturned r} \<longrightarrow> bd_dialingDone d)"

text \<open>Every step, with the guard it passed.\<close>

lemma dial_do_cases [consumes 1, case_names start dialed failed report skip temporary cancels recv store stop ready waits changed
    expired reads_err reads_ctx closes_done cancels_ctx parent]:
  assumes "dial_do a d = Some d'"
  obtains i where "bd_dialers d i = None" "d' = put_dialer i Dialing d"
  | i where "bd_dialers d i = Some Dialing" "d' = put_dialer i DialerEnded d"
  | i err where "bd_dialers d i = Some Dialing" "d' = put_dialer i (Reporting err) (d\<lparr>bd_failed := bd_failed d @ [err]\<rparr>)"
  | i err where "bd_dialers d i = Some (Reporting err)" "bd_dialErrors d = None"
      "d' = put_dialer i (Deciding err) (d\<lparr>bd_dialErrors := Some err, bd_reported := bd_reported d @ [err]\<rparr>)"
  | i err where "bd_dialers d i = Some (Reporting err)" "bd_dialingDone d" "d' = put_dialer i (Deciding err) d"
  | i err where "bd_dialers d i = Some (Deciding err)" "isTemporary err" "d' = put_dialer i DialerEnded d"
  | i err where "bd_dialers d i = Some (Deciding err)" "\<not> isTemporary err"
      "d' = put_dialer i DialerEnded (d\<lparr>bd_ctx := ctx_cancel (bd_ctx d)\<rparr>)"
  | err where "bd_collector d = Selecting" "bd_dialErrors d = Some err" "d' = d\<lparr>bd_collector := Storing err, bd_dialErrors := None\<rparr>"
  | err where "bd_collector d = Storing err"
      "d' = d\<lparr>bd_collector := Selecting, bd_dialErr := Some err, bd_collected := bd_collected d @ [err]\<rparr>"
  | "bd_collector d = Selecting" "bd_dialingDone d \<or> bd_ctx d \<noteq> None" "d' = d\<lparr>bd_collector := CollectorEnded\<rparr>"
  | "bd_caller d = LoopHead" "d' = d\<lparr>bd_caller := Deferred DialReady\<rparr>"
  | s where "bd_caller d = LoopHead" "s \<noteq> ConnReady" "d' = d\<lparr>bd_caller := WaitingChange s\<rparr>"
  | s where "bd_caller d = WaitingChange s" "d' = d\<lparr>bd_caller := LoopHead\<rparr>"
  | s where "bd_caller d = WaitingChange s" "bd_ctx d \<noteq> None" "d' = d\<lparr>bd_caller := Expired\<rparr>"
  | err where "bd_caller d = Expired" "bd_dialErr d = Some err" "d' = d\<lparr>bd_caller := Deferred (DialErr (de_error err))\<rparr>"
  | e where "bd_caller d = Expired" "bd_dialErr d = None" "bd_ctx d = Some e" "d' = d\<lparr>bd_caller := Deferred (DialErr e)\<rparr>"
  | r where "bd_caller d = Deferred r" "d' = d\<lparr>bd_caller := DoneClosed r, bd_dialingDone := True\<rparr>"
  | r where "bd_caller d = DoneClosed r" "d' = d\<lparr>bd_caller := DialReturned r, bd_ctx := ctx_cancel (bd_ctx d)\<rparr>"
  | e where "d' = d\<lparr>bd_parent := ctx_end e (bd_parent d), bd_ctx := ctx_end e (bd_ctx d)\<rparr>"
proof (cases a)
  case (DialStart i)
  then show ?thesis using assms that(1) by (auto simp: dialer_start_def split: if_splits)
next
  case (DialDialed i res)
  then show ?thesis using assms that(2,3) by (auto simp: dialer_dialed_def split: if_splits option.splits)
next
  case (DialReport i)
  then show ?thesis using assms that(4) by (auto simp: dialer_report_def split: if_splits option.splits dialer_pc.splits)
next
  case (DialSkip i)
  then show ?thesis using assms that(5) by (auto simp: dialer_skip_def split: if_splits option.splits dialer_pc.splits)
next
  case (DialDecide i)
  then show ?thesis using assms that(6,7) by (auto simp: dialer_decide_def split: if_splits option.splits dialer_pc.splits)
next
  case CollectRecv
  then show ?thesis using assms that(8) by (auto simp: collector_recv_def split: option.splits collector_pc.splits)
next
  case CollectStore
  then show ?thesis using assms that(9) by (auto simp: collector_store_def split: collector_pc.splits)
next
  case CollectStop
  then show ?thesis using assms that(10) by (simp add: collector_stop_def split: if_splits)
next
  case (CallerState s)
  then show ?thesis using assms that(11,12) by (auto simp: caller_state_def split: if_splits)
next
  case (CallerWaited b)
  then show ?thesis
    using assms that(13,14) by (auto simp: caller_waited_def WaitForStateChange_ok_def split: if_splits caller_pc.splits)
next
  case CallerRead
  then show ?thesis using assms that(15,16) by (auto simp: caller_read_def split: if_splits option.splits)
next
  case CallerDefer
  then show ?thesis using assms that(17,18) by (auto simp: caller_defer_def split: caller_pc.splits)
next
  case (ParentEnds e)
  then show ?thesis using assms that(19) [of e] by (simp add: parent_ends_def split: if_splits)
qed

lemma collected_ok_step:
  assumes "dial_do a d = Some d'" and "collected_ok d"
  shows "collected_ok d'"
  using assms(1) by (cases rule: dial_do_cases) (use assms(2) in \<open>simp_all add: collected_ok_def in_hand_def last_error_def put_dialer_def\<close>)

lemma failed_ok_step:
  assumes "dial_do a d = Some d'" and "failed_ok d"
  shows "failed_ok d'"
  using assms(1) by (cases rule: dial_do_cases) (use assms(2) in \<open>auto simp: failed_ok_def put_dialer_def\<close>)

lemma errors_ok_step: "dial_do a d = Some d' \<Longrightarrow> errors_ok d \<Longrightarrow> errors_ok d'"
  using collected_ok_step failed_ok_step by blast

text \<open>What never changes back.\<close>

lemma dial_mono:
  assumes "dial_do a d = Some d'"
  shows "gives_up d \<Longrightarrow> gives_up d'" and "bd_ctx d = Some e \<Longrightarrow> bd_ctx d' = Some e"
    and "set (bd_collected d) \<subseteq> set (bd_collected d')" and "bd_dialingDone d \<Longrightarrow> bd_dialingDone d'"
    and "result_of (bd_caller d) = Some r \<Longrightarrow> result_of (bd_caller d') = Some r"
    and "bd_caller d = DialReturned r \<Longrightarrow> bd_caller d' = DialReturned r"
  using assms by (cases rule: dial_do_cases; auto simp: gives_up_def put_dialer_def)+

lemma last_error_Some: "last_error es = Some err \<Longrightarrow> err \<in> set es"
  by (auto simp: last_error_def split: if_splits)

text \<open>Why the context ends, and with what the caller returns.\<close>

lemma ctx_ends_step:
  assumes "dial_do a d = Some d'" and "errors_ok d" and "bd_ctx d \<noteq> None \<Longrightarrow> gives_up d \<or> (\<exists>r. bd_caller d = DialReturned r)"
    and "bd_ctx d' \<noteq> None"
  shows "gives_up d' \<or> (\<exists>r. bd_caller d' = DialReturned r)"
proof (cases "bd_ctx d = None")
  case True
  from assms(1) show ?thesis
    by (cases rule: dial_do_cases) (use True assms(2,4) in \<open>auto simp: gives_up_def put_dialer_def collected_ok_def failed_ok_def\<close>)
next
  case False
  then show ?thesis using assms(3) dial_mono(1,6) [OF assms(1)] by blast
qed

lemma result_step:
  assumes "dial_do a d = Some d'" and "errors_ok d" and "caller_ok newErr d" and "result_of (bd_caller d) = None"
    and "result_of (bd_caller d') = Some (DialErr e)"
  shows "gives_up d' \<and> (e \<in> de_error ` set (bd_collected d') \<or> bd_ctx d' = Some e)"
  using assms(1)
proof (cases rule: dial_do_cases)
  case (reads_err err)
  then have "err \<in> set (bd_collected d)" using assms(2) last_error_Some by (simp add: collected_ok_def failed_ok_def)
  then show ?thesis using reads_err assms(3,5) dial_mono(1) [OF assms(1)] by (auto simp: caller_ok_def)
next
  case (reads_ctx x)
  then show ?thesis using assms(3,5) dial_mono(1) [OF assms(1)] by (auto simp: caller_ok_def)
qed (use assms(4,5) in \<open>auto simp: put_dialer_def\<close>)

lemma caller_ok_step:
  assumes "dial_do a d = Some d'" and "errors_ok d" and "caller_ok newErr d"
  shows "caller_ok newErr d'"
proof -
  note mono = dial_mono [OF assms(1)]
  have ctx: "bd_ctx d' \<noteq> None \<longrightarrow> gives_up d' \<or> (\<exists>r. bd_caller d' = DialReturned r)"
    using ctx_ends_step [OF assms(1,2)] assms(3) by (simp add: caller_ok_def)
  have "newErr = Some e \<or> gives_up d' \<and> (e \<in> de_error ` set (bd_collected d') \<or> bd_ctx d' = Some e)"
    if "result_of (bd_caller d') = Some (DialErr e)" for e
  proof (cases "result_of (bd_caller d)")
    case None
    then show ?thesis using result_step [OF assms None that] by blast
  next
    case (Some r)
    then have "result_of (bd_caller d) = Some (DialErr e)" using mono(5) that by simp
    then have "newErr = Some e \<or> gives_up d \<and> (e \<in> de_error ` set (bd_collected d) \<or> bd_ctx d = Some e)"
      using assms(3) by (simp add: caller_ok_def)
    then show ?thesis using mono(1,3) mono(2) [of e] by blast
  qed
  moreover have "bd_caller d' = Expired \<longrightarrow> gives_up d' \<and> bd_ctx d' \<noteq> None"
    using assms(1) by (cases rule: dial_do_cases) (use assms(3) in \<open>auto simp: caller_ok_def put_dialer_def gives_up_def\<close>)
  moreover have "bd_caller d' \<in> {DoneClosed r, DialReturned r} \<longrightarrow> bd_dialingDone d'" for r
    using assms(1) by (cases rule: dial_do_cases) (use assms(3) in \<open>auto simp: caller_ok_def put_dialer_def\<close>)
  ultimately show ?thesis using ctx by (simp add: caller_ok_def)
qed

lemma dial_reach_ok: "dial_reach newErr c d \<Longrightarrow> errors_ok d \<and> caller_ok newErr d"
proof (induction rule: dial_reach.induct)
  case dial_begin
  show ?case
    by (auto simp: BlockingDial_begin_def collected_ok_def failed_ok_def caller_ok_def in_hand_def last_error_def gives_up_def split: option.splits)
next
  case (dial_step d a d')
  then show ?case using errors_ok_step caller_ok_step by blast
qed

subsection \<open>The property\<close>

text \<open>The collector's own way to its end.\<close>

lemma collector_ends:
  assumes "bd_dialingDone d" and "bd_collector d \<noteq> NotStarted"
  shows "\<exists>as d'. set as \<subseteq> {CollectStore, CollectStop} \<and> dial_run as d = Some d' \<and> bd_collector d' = CollectorEnded"
proof (cases "bd_collector d")
  case Selecting
  then have "set [CollectStop] \<subseteq> {CollectStore, CollectStop} \<and> dial_run [CollectStop] d = Some (d\<lparr>bd_collector := CollectorEnded\<rparr>)"
    using assms(1) by (simp add: collector_stop_def)
  then show ?thesis by (metis dialing.select_convs(7) dialing.surjective dialing.update_convs(7))
next
  case (Storing err)
  let ?d = "d\<lparr>bd_collector := CollectorEnded, bd_dialErr := Some err, bd_collected := bd_collected d @ [err]\<rparr>"
  have "dial_run [CollectStore, CollectStop] d = Some ?d" using Storing assms(1) by (simp add: collector_store_def collector_stop_def)
  moreover have "bd_collector ?d = CollectorEnded" by simp
  ultimately show ?thesis by (intro exI [of _ "[CollectStore, CollectStop]"] exI [of _ ?d]) simp
next
  case CollectorEnded
  then have "dial_run [] d = Some d \<and> bd_collector d = CollectorEnded" by simp
  then show ?thesis by (metis empty_set empty_subsetI)
qed (use assms(2) in simp)

text \<open>
  C32. What BlockingDial returns: in every interleaving of the caller, the collector, any number of dials and the end of the
  caller's context, an error it returns is that of NewClient, or it is the error of a dial or of the context, and
  then the caller's context had ended or a dial had failed in a way that is not temporary: it never gives up while dials
  fail only temporarily. The error kept for it is the latest of those collected, and at most two of those that were
  reported are not yet collected. Once it has returned, a dial that is reporting an error is not blocked, and the collector
  ends by its own steps: no goroutine is left behind.
\<close>

theorem dial_outcome:
  assumes "dial_reach newErr c d"
  shows "(\<forall>e. result_of (bd_caller d) = Some (DialErr e) \<longrightarrow> newErr = Some e \<or>
        (bd_parent d \<noteq> None \<or> (\<exists>err\<in>set (bd_failed d). \<not> isTemporary err))
        \<and> (e \<in> de_error ` set (bd_failed d) \<or> bd_ctx d = Some e))
    \<and> (\<exists>rest. bd_reported d = bd_collected d @ rest \<and> length rest \<le> 2 \<and> set (bd_reported d) \<subseteq> set (bd_failed d))
    \<and> bd_dialErr d = (if bd_collected d = [] then None else Some (last (bd_collected d)))
    \<and> (\<forall>r. bd_caller d = DialReturned r \<longrightarrow>
         (\<forall>i err. bd_dialers d i = Some (Reporting err) \<longrightarrow> dial_do (DialSkip i) d \<noteq> None)
         \<and> (bd_collector d = NotStarted \<or> (\<exists>as d'. set as \<subseteq> {CollectStore, CollectStop} \<and> dial_run as d = Some d'
              \<and> bd_collector d' = CollectorEnded)))"
proof -
  have ok: "errors_ok d" "caller_ok newErr d" using dial_reach_ok [OF assms] by simp_all
  then have coll: "set (bd_collected d) \<subseteq> set (bd_failed d)" by (auto simp: collected_ok_def failed_ok_def)
  have "newErr = Some e \<or> (bd_parent d \<noteq> None \<or> (\<exists>err\<in>set (bd_failed d). \<not> isTemporary err))
      \<and> (e \<in> de_error ` set (bd_failed d) \<or> bd_ctx d = Some e)" if "result_of (bd_caller d) = Some (DialErr e)" for e
    using ok(2) that coll unfolding caller_ok_def gives_up_def by blast
  moreover have "length (in_hand d) \<le> 2" by (auto simp: in_hand_def split: collector_pc.splits option.splits)
  then have "\<exists>rest. bd_reported d = bd_collected d @ rest \<and> length rest \<le> 2 \<and> set (bd_reported d) \<subseteq> set (bd_failed d)"
    using ok(1) unfolding collected_ok_def failed_ok_def by blast
  moreover have "bd_dialErr d = (if bd_collected d = [] then None else Some (last (bd_collected d)))"
    using ok(1) by (simp add: collected_ok_def failed_ok_def last_error_def)
  moreover have "bd_dialingDone d" if "bd_caller d = DialReturned r" for r using ok(2) that by (simp add: caller_ok_def)
  then have "(\<forall>i err. bd_dialers d i = Some (Reporting err) \<longrightarrow> dial_do (DialSkip i) d \<noteq> None)
      \<and> (bd_collector d = NotStarted \<or> (\<exists>as d'. set as \<subseteq> {CollectStore, CollectStop} \<and> dial_run as d = Some d'
           \<and> bd_collector d' = CollectorEnded))" if "bd_caller d = DialReturned r" for r
    using collector_ends [of d] that by (simp add: dialer_skip_def) blast
  ultimately show ?thesis by blast
qed

text \<open>A dial that is refused for good, reported, collected and returned.\<close>

definition demo_refused :: dial_error where
  "demo_refused = \<lparr>de_error = Foreign 1, de_Temporary = Some False, de_Timeout = None\<rparr>"

definition demo_dial :: "dial_act list" where
  "demo_dial = [CallerState ConnConnecting, DialStart 0, DialDialed 0 (Some demo_refused), DialReport 0, CollectRecv, CollectStore,
     DialDecide 0, CallerWaited False, CallerRead, CallerDefer, CallerDefer]"

lemmas dial_eval = BlockingDial_begin_def dial_defs demo_refused_def isTemporary_def

theorem dial_outcome_witness:
  "\<exists>d. dial_run demo_dial (BlockingDial_begin None None) = Some d \<and> bd_caller d = DialReturned (DialErr (Foreign 1))
     \<and> (\<exists>err\<in>set (bd_failed d). \<not> isTemporary err)
     \<and> (\<exists>as d'. set as \<subseteq> {CollectStore, CollectStop} \<and> dial_run as d = Some d' \<and> bd_collector d' = CollectorEnded)"
proof -
  have "\<exists>d. dial_run demo_dial (BlockingDial_begin None None) = Some d \<and> bd_caller d = DialReturned (DialErr (Foreign 1))
      \<and> bd_parent d = None \<and> bd_collector d = Selecting"
    by (simp add: demo_dial_def dial_eval)
  then obtain d where d: "dial_run demo_dial (BlockingDial_begin None None) = Some d" "bd_caller d = DialReturned (DialErr (Foreign 1))"
      "bd_parent d = None" "bd_collector d = Selecting" by blast
  have "dial_reach None None d" by (rule dial_reach_run [OF dial_reach.dial_begin d(1)])
  note out = dial_outcome [OF this]
  have "\<exists>err\<in>set (bd_failed d). \<not> isTemporary err" using out d(2,3) by simp
  moreover have "\<exists>as d'. set as \<subseteq> {CollectStore, CollectStop} \<and> dial_run as d = Some d' \<and> bd_collector d' = CollectorEnded"
    using out d(2,4) by (metis collector_pc.distinct(1))
  ultimately show ?thesis using d by blast
qed

text \<open>
  The error of a dial can be lost: when it is not temporary, the dialer cancels the context as soon as the error is in the channel, and
  the caller may read \<^verbatim>\<open>dialErr\<close> before the collector has stored it. BlockingDial then returns the error of the context that it
  cancelled itself, although a dial had returned an error and the caller's context had not ended.
\<close>

lemma dial_error_lost:
  "\<exists>d. dial_reach None None d \<and> bd_parent d = None \<and> bd_reported d = [demo_refused]
     \<and> bd_caller d = DialReturned (DialErr CtxCanceled)"
proof -
  let ?as = "[CallerState ConnConnecting, DialStart 0, DialDialed 0 (Some demo_refused), DialReport 0, DialDecide 0, CallerWaited False,
     CallerRead, CallerDefer, CallerDefer]"
  have "\<exists>d. dial_run ?as (BlockingDial_begin None None) = Some d \<and> bd_parent d = None \<and> bd_reported d = [demo_refused]
      \<and> bd_caller d = DialReturned (DialErr CtxCanceled)"
    by (simp add: dial_eval)
  then show ?thesis using dial_reach_run [OF dial_reach.dial_begin] by blast
qed

end
