(* ===== verification/Services.thy ===== *)
theory Services
  imports Handler Reverse_Server
begin

text \<open>
  The surfaces of the package that gRPC calls: registration of services, on the handler and on a reverse tunnel server, the service of the handler, and
  the transport stream that a unary handler finds in its context. Most only forward; what they forward to is in \<open>Handler\<close>, \<open>Reverse_Server\<close> and \<open>Tunnel_Server\<close>.
\<close>

subsection \<open>Registration\<close>

text \<open>
  The table of services is grpchan's \<^verbatim>\<open>HandlerMap\<close>: \<open>register\<close> is its \<^verbatim>\<open>RegisterService\<close>, \<open>None\<close> if it panics. What is relied on: a service
  that was registered is found under its name, and other names are left alone.
\<close>

type_synonym handler_table = "(string \<times> ServiceDesc) list"

definition registers :: "(string \<Rightarrow> ServiceDesc \<Rightarrow> handler_table \<Rightarrow> handler_table option) \<Rightarrow> bool" where
  "registers register \<longleftrightarrow> (\<forall>name desc hs hs'. register name desc hs = Some hs' \<longrightarrow> map_of hs' = (map_of hs)(name \<mapsto> desc))"

definition RegisterService :: "(string \<Rightarrow> ServiceDesc \<Rightarrow> handler_table \<Rightarrow> handler_table option) \<Rightarrow> string \<Rightarrow> ServiceDesc
    \<Rightarrow> 'k TunnelServiceHandler \<Rightarrow> 'k TunnelServiceHandler option" where
  "RegisterService register name desc h = map_option (\<lambda>hs. h\<lparr>h_handlers := hs\<rparr>) (register name desc (h_handlers h))"

text \<open>A reverse tunnel server with its \<^verbatim>\<open>handlers\<close>.\<close>

record ReverseTunnelService =
  rts_server :: ReverseTunnelServer
  rts_handlers :: handler_table

definition reverse_RegisterService :: "(string \<Rightarrow> ServiceDesc \<Rightarrow> handler_table \<Rightarrow> handler_table option) \<Rightarrow> string \<Rightarrow> ServiceDesc
    \<Rightarrow> ReverseTunnelService \<Rightarrow> ReverseTunnelService option" where
  "reverse_RegisterService register name desc s = map_option (\<lambda>hs. s\<lparr>rts_handlers := hs\<rparr>) (register name desc (rts_handlers s))"

subsection \<open>The service\<close>

text \<open>\<^verbatim>\<open>Service\<close> wraps the handler; the methods of the wrapper call it. A reverse tunnel begins with the first step of its call.\<close>

record 'k tunnelServiceHandler =
  svc_h :: "'k TunnelServiceHandler"

definition Service :: "'k TunnelServiceHandler \<Rightarrow> 'k tunnelServiceHandler" where
  "Service h = \<lparr>svc_h = h\<rparr>"

definition OpenTunnel :: "grpc_lib \<Rightarrow> ctx \<Rightarrow> MD \<Rightarrow> 'k tunnelServiceHandler \<Rightarrow> gerror + tunnelServer" where
  "OpenTunnel L streamCtx md s = openTunnel L streamCtx md (svc_h s)"

definition OpenReverseTunnel :: "nat \<Rightarrow> 'k tunnelServiceHandler \<Rightarrow> 'k tunnelServiceHandler option" where
  "OpenReverseTunnel ch s = map_option (\<lambda>h. s\<lparr>svc_h := h\<rparr>) (ort_step ch False (svc_h s))"

subsection \<open>The transport stream of a unary handler\<close>

definition transport_Method :: "tunnelServerStream \<Rightarrow> string" where
  "transport_Method st = ss_method st"

definition transport_SetHeader :: "grpc_lib \<Rightarrow> MD \<Rightarrow> i64 \<Rightarrow> tunnelServer \<Rightarrow> (gerror option \<times> tunnelServer) option" where
  "transport_SetHeader L md i s = server_stream_setHeader L md False None i s"

definition transport_SendHeader :: "grpc_lib \<Rightarrow> MD \<Rightarrow> gerror option \<Rightarrow> i64 \<Rightarrow> tunnelServer \<Rightarrow> (gerror option \<times> tunnelServer) option" where
  "transport_SendHeader L md sendRes i s = server_stream_setHeader L md True sendRes i s"

definition transport_SetTrailer :: "grpc_lib \<Rightarrow> MD \<Rightarrow> i64 \<Rightarrow> tunnelServer \<Rightarrow> (gerror option \<times> tunnelServer) option" where
  "transport_SetTrailer L md i s = server_stream_setTrailer L md i s"

text \<open>
  The headers that a unary handler sets before it sends any are, together with those it sends, in the one frame that the tunnel carries; afterwards both are
  refused.
\<close>

lemma transport_headers_sent:
  assumes "transport_SetHeader L (Some a) i s = Some (None, s1)" and "transport_SendHeader L (Some b) None i s1 = Some (e, s2)"
    and "sv_heap s i = Some st"
  shows "e = None" and "sv_sent s2 = sv_sent s @ [s2c i (ServerToClient_ResponseHeaders
      (toProto (md_Join L (md_Join L (ss_headers st) (Some a)) (Some b))))]"
    and "map_option fst (transport_SetHeader L c i s2) = Some (Some (ErrorsNew ''already sent headers''))"
  using assms
  by (auto simp: transport_SetHeader_def transport_SendHeader_def server_stream_setHeader_def setHeader_def sendHeadersLocked_def
      put_server_def Let_def split: if_splits option.splits)

subsection \<open>A service that is registered is served\<close>

text \<open>
  Once a service is registered, the handler serves forward tunnels, and a stream for a method of it, opened with a revision and a window that both ends can use, gets
  past all checks; services registered before under other names are served as before.
\<close>

lemma registered_found:
  assumes "registers register" and "RegisterService register name desc h = Some h'"
  shows "h_handlers h' \<noteq> []" and "map_of (h_handlers h') = (map_of (h_handlers h))(name \<mapsto> desc)"
    and "h_tunnelOpts h' = h_tunnelOpts h"
proof -
  obtain hs where hs: "register name desc (h_handlers h) = Some hs" "h' = h\<lparr>h_handlers := hs\<rparr>"
    using assms(2) by (auto simp: RegisterService_def)
  then show m: "map_of (h_handlers h') = (map_of (h_handlers h))(name \<mapsto> desc)" using assms(1) by (simp add: registers_def)
  then show "h_handlers h' \<noteq> []" by (cases "h_handlers h'") (auto dest: fun_cong [of _ _ name])
  show "h_tunnelOpts h' = h_tunnelOpts h" by (simp add: hs(2))
qed

lemma registered_served:
  assumes "registers register" and "RegisterService register name desc h = Some h'" and "findMethod desc mth = Some m"
    and "CHR ''/'' \<notin> set name" and "MethodName f = ''/'' @ name @ ''/'' @ mth"
    and "NewStream_ProtocolRevision f \<in> set supportedRevisions"
    and "minWindowSize (NewStream_ProtocolRevision f) \<le> NewStream_InitialWindowSize f"
  shows "\<exists>s. OpenTunnel L cx md (Service h') = Inr s \<and> check_stream (map_of (h_handlers h')) False s f = Inr (name @ ''/'' @ mth, m)"
proof -
  note reg = registered_found [OF assms(1,2)]
  have "trim_slash (MethodName f) = name @ ''/'' @ mth" "split_slash (name @ ''/'' @ mth) = [name, mth]"
    using assms(4,5) by (simp_all add: trim_slash_def split_slash_def takeWhile_append dropWhile_append)
  moreover have "NewStream_ProtocolRevision f \<noteq> REVISION_ZERO" using assms(6) by (auto simp: supportedRevisions_def revision_defs)
  ultimately show ?thesis
    using reg assms(3,6) leD [OF assms(7)]
    by (simp add: OpenTunnel_def Service_def openTunnel_def check_stream_def Let_def split: prod.splits)
qed

end
