(* ===== verification/Debug_Log.thy ===== *)
theory Debug_Log
  imports Sender Receiver
begin

text \<open>
  The log of flow control in a build with the tag \<^verbatim>\<open>debug\<close> (\<^verbatim>\<open>debug.go\<close>): a line is the format and the arguments of its \<^verbatim>\<open>log.Printf\<close>. The arguments
  are computed from what the caller has read, not from the state, and partly as signed numbers; where the caller logs, they are the
  windows before and after the step.
\<close>

type_synonym log_line = "string \<times> arg list"

definition logSend :: "string \<Rightarrow> nat \<Rightarrow> u32 \<Rightarrow> u32 \<Rightarrow> u32 \<Rightarrow> u32 \<Rightarrow> log_line" where
  "logSend stream chunkIndex chunkSize overhead totalMsgSize windowRemaining =
     (''%s: sending chunk #%d, %d bytes (out of %d) + %d overhead -- window size: %d => %d'',
      [AStr stream, AInt (int chunkIndex + 1), AInt (uint chunkSize), AInt (uint totalMsgSize), AInt (uint overhead), AInt (uint windowRemaining),
       AInt (uint windowRemaining - uint chunkSize - uint overhead)])"

definition logSenderUpdate :: "string \<Rightarrow> u32 \<Rightarrow> u32 \<Rightarrow> log_line" where
  "logSenderUpdate stream ackSize windowRemaining =
     (''%s: receiving update acknowledging %d bytes -- window size: %d => %d'',
      [AStr stream, AInt (uint ackSize), AInt (uint windowRemaining), AInt (uint (windowRemaining + ackSize))])"

definition logReceive :: "string \<Rightarrow> nat \<Rightarrow> u32 \<Rightarrow> log_line" where
  "logReceive stream chunkSize windowRemaining =
     (''%s: receiving chunk %d bytes -- window size: %d => %d'',
      [AStr stream, AInt (int chunkSize), AInt (uint windowRemaining), AInt (uint windowRemaining - int chunkSize)])"

definition logReceiverAck :: "string \<Rightarrow> nat \<Rightarrow> u32 \<Rightarrow> u32 \<Rightarrow> bool \<Rightarrow> log_line" where
  "logReceiverAck stream chunkSize outstandingAck windowRemaining sending =
     (if sending
      then (''%s: acknowledged %d bytes; sending update for %d bytes -- window size: %d => %d'',
            [AStr stream, AInt (int chunkSize), AInt (uint outstandingAck), AInt (uint windowRemaining), AInt (uint (windowRemaining + outstandingAck))])
      else (''%s: acknowledged %d bytes (bytes outstanding: %d => %d) -- window size: %d'',
            [AStr stream, AInt (int chunkSize), AInt (uint outstandingAck - int chunkSize), AInt (uint outstandingAck), AInt (uint windowRemaining)]))"

subsection \<open>What the lines say\<close>

text \<open>\<^verbatim>\<open>send\<close> logs when its compare-and-swap has succeeded, with the window it has loaded: the last number is the new window.\<close>

lemma logSend_window:
  assumes "sender_wf s" and "length data \<le> MaxUint32" and "send_load s data k = AtCas data k w"
    and "send_cas s data k w = (s', AtSend data k sz)"
  shows "last (snd (logSend name k sz (send_overhead s k) (u32_of_len data) w)) = AInt (uint (snd_currentWindow s'))"
proof -
  have w: "w = snd_currentWindow s" "send_needed s data k \<le> w"
    using assms(3) by (auto simp: send_load_def Let_def not_less split: if_splits)
  have sz: "sz = send_chunkSz s data k w" "snd_currentWindow s' = w - send_overhead s k - sz"
    using assms(4) w(1) by (auto simp: send_cas_def Let_def)
  have "unat (send_overhead s k) + unat sz \<le> unat w"
    unfolding sz(1) by (rule send_chunk_fits(2) [OF assms(1,2) w(2)])
  moreover have "unat (w - send_overhead s k - sz) = unat w - unat (send_overhead s k) - unat sz"
    unfolding sz(1) by (rule send_chunk_fits(3) [OF assms(1,2) w(2)])
  ultimately show ?thesis unfolding logSend_def sz(2) uint_nat by simp
qed

lemma logSenderUpdate_window:
  assumes "updateWindow_add add s = (prev, s')"
  shows "snd (logSenderUpdate name add prev)
    = [AStr name, AInt (uint add), AInt (uint (snd_currentWindow s)), AInt (uint (snd_currentWindow s'))]"
  using assms by (auto simp: updateWindow_add_def logSenderUpdate_def Let_def)

text \<open>\<^verbatim>\<open>accept\<close> logs before it decides: a frame is refused exactly when the number it logs as the new window is negative.\<close>

lemma logReceive_window:
  assumes "\<not> rcv_closed r" and "accept meas x r = (e, r')"
  shows "\<exists>n. last (snd (logReceive name (charge meas r x) (rcv_currentWindow r))) = AInt n
    \<and> (if e = None then n = uint (rcv_currentWindow r') else n < 0)"
proof (cases "charge meas r x > unat (rcv_currentWindow r)")
  case True
  then have "e \<noteq> None" using assms by (auto simp: accept_def)
  moreover have "uint (rcv_currentWindow r) - int (charge meas r x) < 0" using True unfolding uint_nat by linarith
  ultimately show ?thesis by (auto simp: logReceive_def)
next
  case False
  then have "charge meas r x < 4294967296" using unat_u32_less [of "rcv_currentWindow r"] by linarith
  then have "unat (rcv_currentWindow r - word_of_nat (charge meas r x)) = unat (rcv_currentWindow r) - charge meas r x"
    using False by (simp add: unat_sub_no_wrap word_le_nat_alt unat_of_nat_u32)
  then have "uint (rcv_currentWindow r - word_of_nat (charge meas r x)) = uint (rcv_currentWindow r) - int (charge meas r x)"
    using False unfolding uint_nat by simp
  moreover have "e = None \<and> rcv_currentWindow r' = rcv_currentWindow r - word_of_nat (charge meas r x)"
    using False assms by (auto simp: accept_def Let_def split: if_splits)
  ultimately show ?thesis by (simp add: logReceive_def)
qed

text \<open>\<^verbatim>\<open>dequeue\<close> logs the update that is due, and whether it is sent now: the windows before and after, or the bytes that wait for their acknowledgement.\<close>

lemma logReceiverAck_window:
  assumes "dequeue meas r = (DeqItem x upd, r')" and "unat (rcv_windowUpdate r) + charge meas r x < 2 ^ 32"
  defines "due \<equiv> rcv_windowUpdate r + word_of_nat (charge meas r x)"
  shows "drop 2 (snd (logReceiverAck name (charge meas r x) due (rcv_currentWindow r) (ack_due r due)))
    = (if ack_due r due then [AInt (uint upd), AInt (uint (rcv_currentWindow r)), AInt (uint (rcv_currentWindow r'))]
       else [AInt (uint (rcv_windowUpdate r)), AInt (uint (rcv_windowUpdate r')), AInt (uint (rcv_currentWindow r'))])"
proof -
  have "uint due - int (charge meas r x) = uint (rcv_windowUpdate r)"
    using assms(2) unfolding due_def uint_nat by (simp add: unat_add_no_wrap unat_of_nat_u32)
  then show ?thesis
    using assms(1) unfolding due_def by (auto simp: dequeue_def logReceiverAck_def Let_def split: list.splits if_splits)
qed

end
