(* ===== verification/Client_Batch.thy ===== *)
theory Client_Batch
  imports Prelude
begin

text \<open>
  The batches of RPCs of \<^verbatim>\<open>internal/client_batch.go\<close>, which drive a tunnel through the client of grpchan's test service. An action is a tree of the
  calls it makes: what each call returns is an answer from outside, the answer decides how the action goes on, and \<^verbatim>\<open>go\<close> starts
  another one beside it. The receiving loops have no bound, so the trees may be infinite. It is shown that the actions
  use streams as grpc demands of callers: nothing is sent after a stream is closed for sending, and never do two goroutines
  send, or two receive, on one stream.
\<close>

record batch_message =
  msg_Count :: int
  msg_Payload :: bytes

datatype test_call =
    CallUnary batch_message
  | CallUseExternalMessageTwice
  | OpenClientStream
  | OpenServerStream batch_message
  | OpenBidiStream
  | StreamSend batch_message
  | StreamRecv
  | StreamCloseSend
  | StreamCloseAndRecv

codatatype action =
    Return "gerror option"
  | Call test_call "gerror option \<Rightarrow> action"
  | Go action action

subsection \<open>The actions\<close>

definition bytes_Repeat :: "bytes \<Rightarrow> nat \<Rightarrow> bytes" where
  "bytes_Repeat b count = concat (replicate count b)"

definition batch_msg :: "nat \<Rightarrow> batch_message" where
  "batch_msg n = \<lparr>msg_Count = 10, msg_Payload = bytes_Repeat [0, 1, 2, 3] n\<rparr>"

definition is_EOF :: "gerror option \<Rightarrow> bool" where
  "is_EOF err = (case err of None \<Rightarrow> False | Some e \<Rightarrow> errors_Is e EOF)"

definition doUnary :: action where
  "doUnary = Call (CallUnary (batch_msg 100)) Return"

text \<open>The loop that sends: it breaks when the stream has ended, and returns other errors.\<close>

primrec send_loop :: "nat \<Rightarrow> batch_message \<Rightarrow> action \<Rightarrow> action" where
  "send_loop 0 m rest = rest"
| "send_loop (Suc n) m rest =
     Call (StreamSend m) (\<lambda>err. if is_EOF err then rest
                                else if err \<noteq> None then Return err
                                else send_loop n m rest)"

definition doClientStream :: action where
  "doClientStream =
     Call OpenClientStream (\<lambda>err. if err \<noteq> None then Return err
                                  else send_loop 10 (batch_msg 10000) (Call StreamCloseAndRecv Return))"

primcorec recv_loop :: action where
  "recv_loop =
     Call StreamRecv (\<lambda>err. if is_EOF err then Return None
                            else if err \<noteq> None then Return err
                            else recv_loop)"

definition doServerStream :: action where
  "doServerStream =
     Call (OpenServerStream (batch_msg 1000)) (\<lambda>err. if err \<noteq> None then Return err else recv_loop)"

text \<open>The goroutine of \<^verbatim>\<open>doBidiStream\<close> returns at any error, and nobody looks at what it returns.\<close>

primrec bidi_sender :: "nat \<Rightarrow> batch_message \<Rightarrow> action" where
  "bidi_sender 0 m = Call StreamCloseSend (\<lambda>_. Return None)"
| "bidi_sender (Suc n) m = Call (StreamSend m) (\<lambda>err. if err \<noteq> None then Return None else bidi_sender n m)"

definition doBidiStream :: action where
  "doBidiStream =
     Call OpenBidiStream (\<lambda>err. if err \<noteq> None then Return err else Go (bidi_sender 10 (batch_msg 1000)) recv_loop)"

primrec external_loop :: "nat \<Rightarrow> action" where
  "external_loop 0 = Return None"
| "external_loop (Suc n) = Call CallUseExternalMessageTwice (\<lambda>err. if err \<noteq> None then Return err else external_loop n)"

definition doEmpty :: action where
  "doEmpty =
     Call OpenClientStream (\<lambda>err. if err \<noteq> None then Return err
       else send_loop 100 \<lparr>msg_Count = 0, msg_Payload = []\<rparr>
         (Call StreamCloseAndRecv (\<lambda>err. if err \<noteq> None then Return err else external_loop 10)))"

definition batch_actions :: "action list" where
  "batch_actions = [doUnary, doClientStream, doServerStream, doBidiStream, doEmpty]"

subsection \<open>Running an action\<close>

text \<open>
  The goroutines of one action, the one that was called first, and the calls that have returned, each with the goroutine that made it. A step lets one
  goroutine go on.
\<close>

record batch_run =
  br_pool :: "action list"
  br_calls :: "(nat \<times> test_call \<times> gerror option) list"

definition batch_start :: "action \<Rightarrow> batch_run" where
  "batch_start a = \<lparr>br_pool = [a], br_calls = []\<rparr>"

definition batch_do :: "nat \<Rightarrow> gerror option \<Rightarrow> batch_run \<Rightarrow> batch_run option" where
  "batch_do k res x =
     (if k < length (br_pool x)
      then (case br_pool x ! k of
              Return e \<Rightarrow> None
            | Call c f \<Rightarrow> Some (x\<lparr>br_pool := (br_pool x)[k := f res], br_calls := br_calls x @ [(k, c, res)]\<rparr>)
            | Go p q \<Rightarrow> Some (x\<lparr>br_pool := (br_pool x)[k := q] @ [p]\<rparr>))
      else None)"

inductive batch_reach :: "action \<Rightarrow> batch_run \<Rightarrow> bool" for a where
  batch_begin: "batch_reach a (batch_start a)"
| batch_step: "batch_reach a x \<Longrightarrow> batch_do k res x = Some y \<Longrightarrow> batch_reach a y"

subsection \<open>SendRPCs\<close>

text \<open>
  Each goroutine of \<^verbatim>\<open>SendRPCs\<close> repeats its action until the flag is set or the action fails; a goroutine that the action has left behind goes on by itself
  and is not followed any further.
  The group of goroutines is the errgroup package's: \<open>grpWait\<close> is what its \<^verbatim>\<open>Wait\<close> makes of the errors in the order in which the functions returned them.
\<close>

datatype batch_worker = Checking | Busy batch_run | WorkerReturned "gerror option"

datatype batch_main = Sleeping | Waiting | MainReturned "gerror option"

record send_rpcs =
  sr_done :: bool
  sr_timer :: bool
  sr_cancelled :: bool
  sr_main :: batch_main
  sr_workers :: "batch_worker list"
  sr_errors :: "gerror option list"

datatype batch_act = WorkerLoop nat | WorkerCall nat nat "gerror option" | SleepOver | TimerFires | GroupWait

definition SendRPCs :: send_rpcs where
  "SendRPCs = \<lparr>sr_done = False, sr_timer = False, sr_cancelled = False, sr_main = Sleeping,
     sr_workers = map (\<lambda>_. Checking) batch_actions, sr_errors = []\<rparr>"

text \<open>The loop of a goroutine, when it looks at the flag and when its action has returned.\<close>

definition worker_loop :: "action \<Rightarrow> nat \<Rightarrow> send_rpcs \<Rightarrow> send_rpcs option" where
  "worker_loop fn i s =
     (case sr_workers s ! i of
        Checking \<Rightarrow>
          Some (if sr_done s
                then s\<lparr>sr_workers := (sr_workers s)[i := WorkerReturned None], sr_errors := sr_errors s @ [None]\<rparr>
                else s\<lparr>sr_workers := (sr_workers s)[i := Busy (batch_start fn)]\<rparr>)
      | Busy x \<Rightarrow>
          (case br_pool x ! 0 of
             Return err \<Rightarrow>
               Some (if err \<noteq> None
                     then s\<lparr>sr_workers := (sr_workers s)[i := WorkerReturned err], sr_errors := sr_errors s @ [err]\<rparr>
                     else s\<lparr>sr_workers := (sr_workers s)[i := Checking]\<rparr>)
           | _ \<Rightarrow> None)
      | WorkerReturned e \<Rightarrow> None)"

definition SendRPCs_do :: "(gerror option list \<Rightarrow> gerror option) \<Rightarrow> batch_act \<Rightarrow> send_rpcs \<Rightarrow> send_rpcs option" where
  "SendRPCs_do grpWait a s =
     (case a of
        WorkerLoop i \<Rightarrow> if i < length (sr_workers s) then worker_loop (batch_actions ! i) i s else None
      | WorkerCall i k res \<Rightarrow>
          if i < length (sr_workers s)
          then (case sr_workers s ! i of
                  Busy x \<Rightarrow> map_option (\<lambda>y. s\<lparr>sr_workers := (sr_workers s)[i := Busy y]\<rparr>) (batch_do k res x)
                | _ \<Rightarrow> None)
          else None
      | SleepOver \<Rightarrow> if sr_main s = Sleeping then Some (s\<lparr>sr_done := True, sr_timer := True, sr_main := Waiting\<rparr>) else None
      | TimerFires \<Rightarrow> if sr_timer s then Some (s\<lparr>sr_timer := False, sr_cancelled := True\<rparr>) else None
      | GroupWait \<Rightarrow>
          if sr_main s = Waiting \<and> (\<forall>w\<in>set (sr_workers s). \<exists>e. w = WorkerReturned e)
          then Some (s\<lparr>sr_main := MainReturned (grpWait (sr_errors s)), sr_cancelled := True\<rparr>) else None)"

inductive SendRPCs_reach :: "(gerror option list \<Rightarrow> gerror option) \<Rightarrow> send_rpcs \<Rightarrow> bool" for grpWait where
  SendRPCs_begin: "SendRPCs_reach grpWait SendRPCs"
| SendRPCs_step: "SendRPCs_reach grpWait s \<Longrightarrow> SendRPCs_do grpWait a s = Some s' \<Longrightarrow> SendRPCs_reach grpWait s'"

subsection \<open>The rules for callers\<close>

text \<open>What the calls so far leave open: sending, receiving.\<close>

fun after_call :: "test_call \<Rightarrow> gerror option \<Rightarrow> bool \<times> bool \<Rightarrow> bool \<times> bool" where
  "after_call OpenClientStream res sr = (res = None, res = None)"
| "after_call (OpenServerStream m) res sr = (False, res = None)"
| "after_call OpenBidiStream res sr = (res = None, res = None)"
| "after_call StreamCloseSend res (s, r) = (False, r)"
| "after_call StreamCloseAndRecv res sr = (False, False)"
| "after_call _ res sr = sr"

fun allowed :: "test_call \<Rightarrow> bool \<times> bool \<Rightarrow> bool" where
  "allowed (StreamSend m) (s, r) = s"
| "allowed StreamRecv (s, r) = r"
| "allowed StreamCloseSend (s, r) = s"
| "allowed StreamCloseAndRecv (s, r) = (s \<and> r)"
| "allowed OpenClientStream (s, r) = (\<not> s \<and> \<not> r)"
| "allowed (OpenServerStream m) (s, r) = (\<not> s \<and> \<not> r)"
| "allowed OpenBidiStream (s, r) = (\<not> s \<and> \<not> r)"
| "allowed _ sr = True"

fun opens :: "test_call \<Rightarrow> bool" where
  "opens OpenClientStream = True"
| "opens (OpenServerStream m) = True"
| "opens OpenBidiStream = True"
| "opens _ = False"

text \<open>
  An action is polite if it makes only calls that are allowed, and hands over its right to send when it starts another goroutine; from then on
  neither opens streams.
\<close>

datatype company = Alone | Accompanied

coinductive polite :: "company \<Rightarrow> bool \<times> bool \<Rightarrow> action \<Rightarrow> bool" where
  polite_return: "polite w sr (Return e)"
| polite_call: "allowed c sr \<Longrightarrow> opens c \<longrightarrow> w = Alone \<Longrightarrow> (\<And>res. polite w (after_call c res sr) (f res)) \<Longrightarrow> polite w sr (Call c f)"
| polite_go: "polite Accompanied (s, False) p \<Longrightarrow> polite Accompanied (False, r) q \<Longrightarrow> polite w (s, r) (Go p q)"

inductive_simps polite_simps [simp]: "polite w sr (Return e)" "polite w sr (Call c f)" "polite w (s, r) (Go p q)"

lemma recv_loop_polite: "polite w (False, True) recv_loop"
proof (coinduction rule: polite.coinduct)
  case polite
  show ?case by (rule disjI2, rule disjI1) (subst recv_loop.code, auto intro!: exI)
qed

lemma send_loop_polite: "polite w (True, True) rest \<Longrightarrow> polite w (True, True) (send_loop n m rest)"
  by (induction n) auto

lemma bidi_sender_polite: "polite w (True, False) (bidi_sender n m)"
  by (induction n) auto

lemma external_loop_polite: "polite w (False, False) (external_loop n)"
  by (induction n) auto

lemma batch_actions_polite: "a \<in> set batch_actions \<Longrightarrow> polite Alone (False, False) a"
  using recv_loop_polite bidi_sender_polite external_loop_polite
  by (auto simp: batch_actions_def doUnary_def doClientStream_def doServerStream_def doBidiStream_def doEmpty_def intro!: send_loop_polite)

subsection \<open>Polite actions keep the rules\<close>

text \<open>
  The right to send and the right to receive on the open stream have at most one holder each among the goroutines of an action.
\<close>

type_synonym holders = "nat option \<times> nat option"

definition holds :: "nat \<Rightarrow> holders \<Rightarrow> bool \<times> bool" where
  "holds k h = (fst h = Some k, snd h = Some k)"

definition held :: "holders \<Rightarrow> bool \<times> bool" where
  "held h = (fst h \<noteq> None, snd h \<noteq> None)"

definition hold :: "nat \<Rightarrow> bool \<Rightarrow> nat option \<Rightarrow> nat option" where
  "hold k has h = (if has then Some k else if h = Some k then None else h)"

definition open_after :: "(nat \<times> test_call \<times> gerror option) list \<Rightarrow> bool \<times> bool" where
  "open_after calls = fold (\<lambda>(k, c, res). after_call c res) calls (False, False)"

lemma open_after_simps [simp]:
  "open_after [] = (False, False)" "open_after (calls @ [(k, c, res)]) = after_call c res (open_after calls)"
  by (simp_all add: open_after_def)

definition company :: "action list \<Rightarrow> company" where
  "company ps = (if length ps = 1 then Alone else Accompanied)"

definition pool_ok :: "action list \<Rightarrow> holders \<Rightarrow> bool" where
  "pool_ok ps h \<longleftrightarrow> (\<forall>k<length ps. polite (company ps) (holds k h) (ps ! k))
     \<and> (\<forall>k. fst h = Some k \<or> snd h = Some k \<longrightarrow> k < length ps)"

text \<open>What one goroutine may do is allowed, and it changes the rights of no other.\<close>

lemma call_holders:
  fixes res :: "gerror option"
  assumes "allowed c (holds k h)" and "opens c \<longrightarrow> n = 1" and "k < n" and "\<forall>j. fst h = Some j \<or> snd h = Some j \<longrightarrow> j < n"
  defines "sr \<equiv> after_call c res (holds k h)"
  defines "h' \<equiv> (hold k (fst sr) (fst h), hold k (snd sr) (snd h))"
  shows "allowed c (held h)" and "held h' = after_call c res (held h)" and "j < n \<Longrightarrow> holds j h' = (if j = k then sr else holds j h)"
    and "fst h' = Some j \<or> snd h' = Some j \<Longrightarrow> j < n"
proof -
  have one: "fst h \<in> {None, Some k} \<and> snd h \<in> {None, Some k}" if "opens c" using that assms(2-4) by (metis insertCI less_one not_None_eq)
  show "allowed c (held h)" using assms(1) one by (cases c) (auto simp: holds_def held_def)
  show "held h' = after_call c res (held h)"
    using assms(1) one unfolding h'_def sr_def by (cases c) (auto simp: holds_def held_def hold_def)
  show "holds j h' = (if j = k then sr else holds j h)" if "j < n"
    using assms(1-3) that unfolding h'_def sr_def by (cases c) (auto simp: holds_def hold_def)
  show "fst h' = Some j \<or> snd h' = Some j \<Longrightarrow> j < n"
    using assms(3,4) unfolding h'_def hold_def by (auto split: if_splits)
qed

lemma pool_ok_call:
  assumes "pool_ok ps h" and "k < length ps" and "ps ! k = Call c f"
  shows "allowed c (held h) \<and> (\<exists>h'. pool_ok (ps[k := f res]) h' \<and> held h' = after_call c res (held h))"
proof -
  have po: "polite (company ps) (holds k h) (Call c f)" using assms unfolding pool_ok_def by metis
  then have c: "allowed c (holds k h)" "opens c \<longrightarrow> length ps = 1" by (simp_all add: company_def split: if_splits)
  let ?sr = "after_call c res (holds k h)"
  let ?h = "(hold k (fst ?sr) (fst h), hold k (snd ?sr) (snd h))"
  have dom: "\<forall>j. fst h = Some j \<or> snd h = Some j \<longrightarrow> j < length ps" using assms(1) by (auto simp: pool_ok_def)
  note al = call_holders(1) [OF c assms(2) dom] and ch = call_holders(2-4) [OF c assms(2) dom, where res = res]
  have "polite (company ps) (holds j ?h) (ps[k := f res] ! j)" if "j < length ps" for j
    using assms(1) po that ch(2) [OF that] by (auto simp: pool_ok_def nth_list_update)
  then have "pool_ok (ps[k := f res]) ?h" using ch(3) by (simp add: pool_ok_def company_def)
  then show ?thesis using al ch(1) by blast
qed

lemma pool_ok_go:
  assumes "pool_ok ps h" and "k < length ps" and "ps ! k = Go p q"
  shows "\<exists>h'. pool_ok (ps[k := q] @ [p]) h' \<and> held h' = held h"
proof -
  let ?n = "length ps"
  have po: "polite (company ps) (holds k h) (Go p q)" using assms unfolding pool_ok_def by metis
  then have pq: "polite Accompanied (fst h = Some k, False) p" "polite Accompanied (False, snd h = Some k) q" by (simp_all add: holds_def)
  let ?h = "(if fst h = Some k then Some ?n else fst h, snd h)"
  have dom: "\<And>j. fst h = Some j \<or> snd h = Some j \<Longrightarrow> j < ?n" using assms(1) by (auto simp: pool_ok_def)
  have "polite Accompanied (holds j ?h) ((ps[k := q] @ [p]) ! j)" if jn: "j < Suc ?n" for j
  proof -
    consider "j = ?n" | "j = k" | "j < ?n" "j \<noteq> k" "?n \<noteq> 1" using jn assms(2) by linarith
    then show ?thesis
    proof cases
      case 1
      then have "holds j ?h = (fst h = Some k, False)" using dom by (auto simp: holds_def)
      then show ?thesis using 1 pq(1) by (simp add: nth_append)
    next
      case 2
      then have "holds j ?h = (False, snd h = Some k)" using assms(2) by (auto simp: holds_def)
      then show ?thesis using 2 pq(2) assms(2) by (simp add: nth_append)
    next
      case 3
      then have "holds j ?h = holds j h" by (auto simp: holds_def)
      then show ?thesis using 3 assms(1) by (simp add: pool_ok_def nth_append company_def)
    qed
  qed
  then have "pool_ok (ps[k := q] @ [p]) ?h" using dom assms(2) by (auto simp: pool_ok_def less_Suc_eq company_def)
  then show ?thesis by (intro exI [of _ ?h]) (auto simp: held_def)
qed

definition batch_ok :: "batch_run \<Rightarrow> bool" where
  "batch_ok x \<longleftrightarrow> (\<exists>h. pool_ok (br_pool x) h \<and> held h = open_after (br_calls x))
     \<and> (\<forall>pre k c res post. br_calls x = pre @ (k, c, res) # post \<longrightarrow> allowed c (open_after pre))"

lemma batch_ok_start: "a \<in> set batch_actions \<Longrightarrow> batch_ok (batch_start a)"
  using batch_actions_polite [of a]
  by (auto simp: batch_ok_def batch_start_def pool_ok_def company_def holds_def held_def intro!: exI [of _ "(None, None)"])

lemma batch_ok_do:
  assumes "batch_ok x" and "batch_do k res x = Some y"
  shows "batch_ok y"
proof -
  obtain h where h: "pool_ok (br_pool x) h" "held h = open_after (br_calls x)" using assms(1) unfolding batch_ok_def by blast
  have past: "allowed c (open_after pre)" if "br_calls x = pre @ (j, c, r) # post" for pre j c r post
    using assms(1) that unfolding batch_ok_def by blast
  have k: "k < length (br_pool x)" using assms(2) by (simp add: batch_do_def split: if_splits)
  show ?thesis
  proof (cases "br_pool x ! k")
    case (Return e)
    then show ?thesis using assms(2) k by (simp add: batch_do_def)
  next
    case (Call c f)
    then have y: "y = x\<lparr>br_pool := (br_pool x)[k := f res], br_calls := br_calls x @ [(k, c, res)]\<rparr>"
      using assms(2) k by (simp add: batch_do_def)
    have "allowed c (held h)" "\<exists>h'. pool_ok (br_pool y) h' \<and> held h' = open_after (br_calls y)"
      using pool_ok_call [OF h(1) k Call, of res] h(2) by (auto simp: y)
    moreover have "allowed c' (open_after pre)" if p: "br_calls y = pre @ (j, c', r) # post" for pre j c' r post
    proof (cases post rule: rev_cases)
      case Nil
      then show ?thesis using p h(2) \<open>allowed c (held h)\<close> by (simp add: y)
    next
      case (snoc us u)
      then have "br_calls x = pre @ (j, c', r) # us" using p by (simp add: y)
      then show ?thesis by (rule past)
    qed
    ultimately show ?thesis unfolding batch_ok_def by blast
  next
    case (Go p q)
    then have "y = x\<lparr>br_pool := (br_pool x)[k := q] @ [p]\<rparr>" using assms(2) k by (simp add: batch_do_def)
    then show ?thesis using pool_ok_go [OF h(1) k Go] h(2) past unfolding batch_ok_def by auto
  qed
qed

lemma batch_ok_reach: "batch_reach a x \<Longrightarrow> a \<in> set batch_actions \<Longrightarrow> batch_ok x"
  by (induction rule: batch_reach.induct) (auto intro: batch_ok_start batch_ok_do)

text \<open>
  So every call of an action was allowed when it was made, and no two goroutines of an action are about to send, or to receive, on one stream.
\<close>

lemma batch_calls_allowed:
  assumes "batch_reach a x" and "a \<in> set batch_actions" and "br_calls x = pre @ (k, c, res) # post"
  shows "allowed c (open_after pre)"
  using batch_ok_reach [OF assms(1,2)] assms(3) unfolding batch_ok_def by blast

lemma batch_exclusive:
  assumes "batch_reach a x" and "a \<in> set batch_actions" and "j < length (br_pool x)" and "k < length (br_pool x)"
    and "br_pool x ! j = Call c f" and "br_pool x ! k = Call c' f'"
    and "c \<in> range StreamSend \<union> {StreamCloseSend, StreamCloseAndRecv} \<and> c' \<in> range StreamSend \<union> {StreamCloseSend, StreamCloseAndRecv}
       \<or> c \<in> {StreamRecv, StreamCloseAndRecv} \<and> c' \<in> {StreamRecv, StreamCloseAndRecv}"
  shows "j = k"
proof -
  obtain h where h: "pool_ok (br_pool x) h" using batch_ok_reach [OF assms(1,2)] unfolding batch_ok_def by blast
  have "allowed c (holds j h)" "allowed c' (holds k h)"
    using h assms(3-6) unfolding pool_ok_def by (metis polite_simps(2))+
  then show ?thesis using assms(7) by (auto simp: holds_def)
qed

subsection \<open>What SendRPCs returns\<close>

definition SendRPCs_ok :: "(gerror option list \<Rightarrow> gerror option) \<Rightarrow> send_rpcs \<Rightarrow> bool" where
  "SendRPCs_ok grpWait s \<longleftrightarrow> length (sr_workers s) = length batch_actions \<and> (sr_done s \<longleftrightarrow> sr_main s \<noteq> Sleeping)
     \<and> (\<forall>i x. i < length batch_actions \<and> sr_workers s ! i = Busy x \<longrightarrow> batch_reach (batch_actions ! i) x)
     \<and> (\<forall>i<length batch_actions. sr_workers s ! i = WorkerReturned None \<longrightarrow> sr_done s)
     \<and> (\<forall>e. e \<in> set (sr_errors s) \<longleftrightarrow> (\<exists>i<length batch_actions. sr_workers s ! i = WorkerReturned e))
     \<and> (\<forall>r. sr_main s = MainReturned r \<longrightarrow> r = grpWait (sr_errors s)
          \<and> (\<forall>i<length batch_actions. \<exists>e. sr_workers s ! i = WorkerReturned e))"

text \<open>A goroutine that has not returned takes a step: it goes on, or returns an error that the group notes.\<close>

lemma SendRPCs_ok_worker:
  assumes "SendRPCs_ok grpWait s" and "i < length batch_actions" and "\<nexists>e. sr_workers s ! i = WorkerReturned e"
    and "\<And>x. w = Busy x \<Longrightarrow> batch_reach (batch_actions ! i) x"
    and "if \<exists>e. w = WorkerReturned e then errs = sr_errors s @ [case w of WorkerReturned e \<Rightarrow> e] \<and> (w = WorkerReturned None \<longrightarrow> sr_done s)
         else errs = sr_errors s"
  shows "SendRPCs_ok grpWait (s\<lparr>sr_workers := (sr_workers s)[i := w], sr_errors := errs\<rparr>)"
proof -
  have len: "length (sr_workers s) = length batch_actions" using assms(1) by (simp add: SendRPCs_ok_def)
  have at: "(sr_workers s)[i := w] ! j = (if j = i then w else sr_workers s ! j)" if "j < length batch_actions" for j
    using that len by (simp add: nth_list_update)
  have "sr_main s \<noteq> MainReturned r" for r using assms(1-3) unfolding SendRPCs_ok_def by blast
  moreover have "e \<in> set errs \<longleftrightarrow> (\<exists>j<length batch_actions. (sr_workers s)[i := w] ! j = WorkerReturned e)" for e
  proof -
    have "e \<in> set errs \<longleftrightarrow> e \<in> set (sr_errors s) \<or> w = WorkerReturned e" using assms(5) by (auto split: if_splits)
    moreover have "e \<in> set (sr_errors s) \<longleftrightarrow> (\<exists>j<length batch_actions. sr_workers s ! j = WorkerReturned e)"
      using assms(1) unfolding SendRPCs_ok_def by blast
    ultimately show ?thesis using assms(2,3) at by metis
  qed
  ultimately show ?thesis
    using assms(1,2,4,5) at unfolding SendRPCs_ok_def by (auto split: if_splits)
qed

lemma SendRPCs_ok_do:
  assumes "SendRPCs_ok grpWait s" and "SendRPCs_do grpWait a s = Some s'"
  shows "SendRPCs_ok grpWait s'"
proof -
  have len: "length (sr_workers s) = length batch_actions" using assms(1) by (simp add: SendRPCs_ok_def)
  show ?thesis
  proof (cases a)
    case (WorkerLoop i)
    then have i: "i < length batch_actions" "worker_loop (batch_actions ! i) i s = Some s'"
      using assms(2) len by (auto simp: SendRPCs_do_def split: if_splits)
    then have nr: "\<nexists>e. sr_workers s ! i = WorkerReturned e" by (auto simp: worker_loop_def)
    consider "sr_done s" "s' = s\<lparr>sr_workers := (sr_workers s)[i := WorkerReturned None], sr_errors := sr_errors s @ [None]\<rparr>"
      | "s' = s\<lparr>sr_workers := (sr_workers s)[i := Busy (batch_start (batch_actions ! i))]\<rparr>"
      | err where "err \<noteq> None" "s' = s\<lparr>sr_workers := (sr_workers s)[i := WorkerReturned err], sr_errors := sr_errors s @ [err]\<rparr>"
      | "s' = s\<lparr>sr_workers := (sr_workers s)[i := Checking]\<rparr>"
      using i(2) by (auto simp: worker_loop_def split: batch_worker.splits action.splits if_splits)
    then show ?thesis
    proof cases
      case 1
      then show ?thesis using SendRPCs_ok_worker [OF assms(1) i(1) nr, where w = "WorkerReturned None"] by simp
    next
      case 2
      then show ?thesis
        using SendRPCs_ok_worker [OF assms(1) i(1) nr, where errs = "sr_errors s"] batch_reach.batch_begin by fastforce
    next
      case (3 err)
      then show ?thesis using SendRPCs_ok_worker [OF assms(1) i(1) nr, where w = "WorkerReturned err"] by auto
    next
      case 4
      then show ?thesis using SendRPCs_ok_worker [OF assms(1) i(1) nr, where errs = "sr_errors s" and w = Checking] by simp
    qed
  next
    case (WorkerCall i k res)
    then obtain x y where x: "i < length batch_actions" "sr_workers s ! i = Busy x" "batch_do k res x = Some y"
        "s' = s\<lparr>sr_workers := (sr_workers s)[i := Busy y]\<rparr>"
      using assms(2) len by (auto simp: SendRPCs_do_def split: if_splits batch_worker.splits)
    have "batch_reach (batch_actions ! i) y"
      using assms(1) x(1-3) batch_reach.batch_step unfolding SendRPCs_ok_def by blast
    then show ?thesis
      using SendRPCs_ok_worker [OF assms(1) x(1), where errs = "sr_errors s" and w = "Busy y"] x(2,4) by simp
  next
    case GroupWait
    then have w: "\<forall>w\<in>set (sr_workers s). \<exists>e. w = WorkerReturned e" "sr_main s = Waiting"
        "s' = s\<lparr>sr_main := MainReturned (grpWait (sr_errors s)), sr_cancelled := True\<rparr>"
      using assms(2) by (auto simp: SendRPCs_do_def split: if_splits)
    then have "\<exists>e. sr_workers s ! i = WorkerReturned e" if "i < length batch_actions" for i using that len nth_mem by metis
    then show ?thesis using assms(1) w(2,3) by (simp add: SendRPCs_ok_def)
  qed (use assms in \<open>auto simp: SendRPCs_do_def SendRPCs_ok_def split: if_splits\<close>)
qed

lemma SendRPCs_ok_reach: "SendRPCs_reach grpWait s \<Longrightarrow> SendRPCs_ok grpWait s"
proof (induction rule: SendRPCs_reach.induct)
  case SendRPCs_begin
  show ?case by (auto simp: SendRPCs_ok_def SendRPCs_def)
qed (rule SendRPCs_ok_do)

text \<open>
  \<^verbatim>\<open>SendRPCs\<close> returns nil only when the time was over and no action failed, and otherwise an error of one of its actions. What is relied on in the errgroup
  package: \<^verbatim>\<open>Wait\<close> returns nil if all functions did, and otherwise one of their errors.
\<close>

definition waits_for_error :: "(gerror option list \<Rightarrow> gerror option) \<Rightarrow> bool" where
  "waits_for_error grpWait \<longleftrightarrow> (\<forall>es. if set es \<subseteq> {None} then grpWait es = None else grpWait es \<in> set es - {None})"

lemma SendRPCs_result:
  assumes "SendRPCs_reach grpWait s" and "sr_main s = MainReturned r" and "waits_for_error grpWait"
  shows "if r = None then \<forall>w\<in>set (sr_workers s). w = WorkerReturned None else WorkerReturned r \<in> set (sr_workers s)"
proof -
  note ok = SendRPCs_ok_reach [OF assms(1), unfolded SendRPCs_ok_def]
  have len: "length (sr_workers s) = length batch_actions" using ok by blast
  have r: "r = grpWait (sr_errors s)" "\<And>w. w \<in> set (sr_workers s) \<Longrightarrow> \<exists>e. w = WorkerReturned e"
    using ok assms(2) unfolding in_set_conv_nth len by blast+
  have es: "e \<in> set (sr_errors s) \<longleftrightarrow> WorkerReturned e \<in> set (sr_workers s)" for e
    using ok unfolding in_set_conv_nth len by blast
  show ?thesis
  proof (cases "set (sr_errors s) \<subseteq> {None}")
    case True
    then have "r = None" using assms(3) r(1) by (simp add: waits_for_error_def)
    moreover have "w = WorkerReturned None" if "w \<in> set (sr_workers s)" for w
      using r(2) [OF that] that True es by (metis singletonD subsetD)
    ultimately show ?thesis by simp
  next
    case False
    then have "r \<noteq> None" "r \<in> set (sr_errors s)" using assms(3) r(1) unfolding waits_for_error_def by (metis DiffD1 DiffD2 singletonI)+
    then show ?thesis using es by auto
  qed
qed

end
