(* ===== verification/Test_Programs.thy ===== *)
theory Test_Programs
  imports Client_Batch Handler_Properties
begin

text \<open>
  The logic of the test programs under \<^verbatim>\<open>internal/cmd\<close>: the key by which the test client makes its reverse tunnel known, the affinity key that the test
  server derives from it, and \<^verbatim>\<open>TriggerTestRPCs\<close>, which sends a batch of RPCs to the tunnels of a key.
\<close>

subsection \<open>Keys\<close>

text \<open>\<^verbatim>\<open>hex.EncodeToString\<close>.\<close>

definition hex_digit :: "nat \<Rightarrow> char" where
  "hex_digit n = ''0123456789abcdef'' ! n"

definition hex_EncodeToString :: "bytes \<Rightarrow> string" where
  "hex_EncodeToString bs = concat (map (\<lambda>b. [hex_digit (unat b div 16), hex_digit (unat b mod 16)]) bs)"

text \<open>\<open>readRes\<close> is what \<^verbatim>\<open>rand.Read\<close> returns: an error, or the bytes it has put into the buffer.\<close>

definition makeClientKey :: "gerror + bytes \<Rightarrow> gerror + string" where
  "makeClientKey readRes = (case readRes of Inl err \<Rightarrow> Inl err | Inr b \<Rightarrow> Inr (hex_EncodeToString b))"

definition test_client_key :: string where
  "test_client_key = ''test-client-key''"

text \<open>The \<^verbatim>\<open>AffinityKey\<close> of the test server: \<open>md\<close> is the incoming metadata of the tunnel's context.\<close>

definition test_affinityKey :: "grpc_lib \<Rightarrow> MD \<Rightarrow> string" where
  "test_affinityKey L md = (let vals = md_Get L md test_client_key in if length vals = 0 then [] else vals ! 0)"

subsection \<open>TriggerTestRPCs\<close>

datatype trigger_pc = TrWaiting "string multiChannel" nat | TrSending "string multiChannel" send_rpcs | TrReturned "gerror option"

text \<open>Up to the wait for a tunnel; \<open>None\<close> is the panic of \<^verbatim>\<open>KeyAsChannel\<close>.\<close>

definition TriggerTestRPCs :: "string \<Rightarrow> string TunnelServiceHandler \<Rightarrow> (trigger_pc \<times> string TunnelServiceHandler) option" where
  "TriggerTestRPCs clientKey h =
     (case KeyAsChannel (Some clientKey) h of
        None \<Rightarrow> None
      | Some ch \<Rightarrow> (case multi_wait ch h of (avail, h') \<Rightarrow> Some (TrWaiting ch avail, h')))"

text \<open>The end of the wait, whose context has a timeout, and of \<^verbatim>\<open>SendRPCs\<close>.\<close>

definition trigger_step :: "ctx \<Rightarrow> string TunnelServiceHandler \<Rightarrow> trigger_pc \<Rightarrow> trigger_pc option" where
  "trigger_step waitCtx h pc =
     (case pc of
        TrWaiting ch avail \<Rightarrow>
          (case ch of
             MultiKey key \<Rightarrow>
               (case h_reverseByKey h key of
                  None \<Rightarrow> None
                | Some rc \<Rightarrow> map_option (\<lambda>err. if err \<noteq> None then TrReturned err else TrSending ch SendRPCs) (waitForReady_end avail waitCtx rc))
           | MultiAll \<Rightarrow> None)
      | TrSending ch s \<Rightarrow> (case sr_main s of MainReturned err \<Rightarrow> Some (TrReturned err) | _ \<Rightarrow> None)
      | TrReturned err \<Rightarrow> None)"

subsection \<open>Clients keep apart\<close>

lemma hex_digit_inj: "m < 16 \<Longrightarrow> n < 16 \<Longrightarrow> hex_digit m = hex_digit n \<Longrightarrow> m = n"
proof -
  have "distinct ''0123456789abcdef''" by simp
  then show "m < 16 \<Longrightarrow> n < 16 \<Longrightarrow> hex_digit m = hex_digit n \<Longrightarrow> m = n" unfolding hex_digit_def by (subst (asm) nth_eq_iff_index_eq) simp_all
qed

lemma hex_EncodeToString_length: "length (hex_EncodeToString bs) = 2 * length bs"
  by (induction bs) (auto simp: hex_EncodeToString_def)

lemma hex_EncodeToString_inj: "hex_EncodeToString bs = hex_EncodeToString cs \<Longrightarrow> bs = cs"
proof (induction bs arbitrary: cs)
  case Nil
  then show ?case using hex_EncodeToString_length [of cs] by (simp add: hex_EncodeToString_def)
next
  case (Cons b bs)
  then obtain c cs' where cs: "cs = c # cs'" using hex_EncodeToString_length [of cs] by (cases cs) (auto simp: hex_EncodeToString_def)
  have lt: "unat x div 16 < 16" "unat x mod 16 < 16" for x :: "8 word" using unsigned_less [of x, where ?'a = nat] by (simp_all add: div_less_iff_less_mult)
  have "unat b div 16 = unat c div 16" "unat b mod 16 = unat c mod 16" "bs = cs'"
    using Cons.prems Cons.IH [of cs'] hex_digit_inj lt by (auto simp: cs hex_EncodeToString_def)
  then show ?case using cs by (metis div_mult_mod_eq word_unat_eq_iff)
qed

text \<open>
  Different random bytes give different keys, and the test server finds the client's key again when the metadata of the tunnel has it.
\<close>

lemma client_keys_differ:
  "makeClientKey (Inr a) = Inr k \<Longrightarrow> makeClientKey (Inr b) = Inr k \<Longrightarrow> a = b"
  by (auto simp: makeClientKey_def dest: hex_EncodeToString_inj)

lemma affinity_of_client: "md_Get L md test_client_key = key # vals \<Longrightarrow> test_affinityKey L md = key"
  by (simp add: test_affinityKey_def)

text \<open>\<^verbatim>\<open>TriggerTestRPCs\<close> sends RPCs only when a tunnel of the key is or was there, and only over the channel of that key.\<close>

lemma trigger_sends:
  assumes "TriggerTestRPCs clientKey h = Some (TrWaiting ch avail, h1)" and "trigger_step cx h2 (TrWaiting ch avail) = Some (TrSending ch' s)"
  shows "ch' = MultiKey (Some clientKey) \<and> (\<exists>rc. h_reverseByKey h2 (Some clientKey) = Some rc \<and> avail \<in> rc_closed rc)"
proof -
  have "ch = MultiKey (Some clientKey)"
    using assms(1) by (auto simp: TriggerTestRPCs_def KeyAsChannel_def split: if_splits option.splits prod.splits)
  then show ?thesis
    using assms(2) by (auto simp: trigger_step_def waitForReady_end_def split: option.splits if_splits)
qed

text \<open>
  So the RPCs of \<^verbatim>\<open>TriggerTestRPCs\<close> go to the client that asked for them: a tunnel that is picked for a key is one whose metadata has that key. \<open>md_of\<close> is the
  incoming metadata of a tunnel's context.
\<close>

lemma trigger_routes:
  assumes "handler_reach (NewTunnelServiceHandler options) h" and "AffinityKey options = Some (\<lambda>ch. Some (test_affinityKey L (md_of ch)))"
    and "multi_route (MultiKey (Some clientKey)) h = (Inr ch, h')"
  shows "test_affinityKey L (md_of ch) = clientKey"
proof -
  have "fst (pickKey (Some clientKey) h) = Some ch" using assms(3) by (auto simp: multi_route_def split: prod.splits option.splits)
  then have "in_key (h_calls h ch) = Some (Some clientKey)"
    by (rule pickKey_registered [OF handler_inv_reach [OF assms(1) handler_inv_new]])
  from affinity_reach [OF assms(1) this] show ?thesis using assms(2) by simp
qed

end
