(* ===== verification/Spec2Isabelle.thy ===== *)
theory Spec2Isabelle
  imports Flow_Properties Handler_Properties Ending_Properties Safe_Streams Context_Values Blocking_Dial
    Services Debug_Log Test_Programs
begin

text \<open>
  \<^bold>\<open>grpctunnel\<close>: gRPC streams carried over one gRPC stream, in either direction of a connection. This development models
  the Go package of \<^verbatim>\<open>src/\<close> and proves what makes it correct.

  \<^bold>\<open>The program.\<close> A \<^emph>\<open>tunnel\<close> is one bidirectional gRPC stream of frames. Its client end (\<^verbatim>\<open>tunnel_client.go\<close>) negotiates a protocol
  revision, numbers the RPCs it starts and runs a receive loop that hands the frames of the peer to the streams; its server end
  (\<^verbatim>\<open>tunnel_server.go\<close>) announces its settings, creates a stream for each RPC, runs the registered handler on it and has a
  receive loop of its own. Messages are cut into chunks, and every stream has flow control in both directions
  (\<^verbatim>\<open>flow_control.go\<close>): a sender that waits for window, and a receiver that queues frames and acknowledges them. A tunnel
  may be a reverse one, where the roles are swapped: the network server holds the client ends and balances RPCs over them
  (\<^verbatim>\<open>handler.go\<close>), and the network client runs the server end (\<^verbatim>\<open>reverse_server.go\<close>). Establishing a tunnel is limited by a
  timeout (\<^verbatim>\<open>establish.go\<close>).

  \<^bold>\<open>The theories.\<close>
  \<^item> \<open>Prelude\<close>: machine integers, errors and statuses, contexts. \<open>Contracts\<close>: the interfaces that several components meet, as locales
    (\<open>latch\<close>, \<open>stream_registry\<close>, \<open>shutdown_gate\<close>), interpreted where the components are.
  \<^item> \<open>Wire\<close>: the messages of \<^verbatim>\<open>tunnel.proto\<close>, revisions, metadata, and how chunks become frames (locale \<open>framing\<close>). \<open>Options\<close>:
    \<^verbatim>\<open>options.go\<close>.
  \<^item> \<open>Sender\<close> and \<open>Receiver\<close>: the two halves of \<^verbatim>\<open>flow_control.go\<close>. \<^verbatim>\<open>send\<close> and \<^verbatim>\<open>updateWindow\<close> run concurrently without a common lock, so they
    are cut at their atomic operations and \<open>send_reach\<close> is every interleaving; the receiver's operations run under its mutex and are one
    step each (locale \<open>credit_queue\<close>). \<open>Flow_Link\<close> puts a sender, the tunnel and a receiver together.
  \<^item> \<open>Reassembly\<close>: the loops of \<^verbatim>\<open>readMsgLocked\<close> of both ends (locales \<open>frame_loop\<close> and \<open>chunk_reader\<close>).
  \<^item> \<open>Client_Stream\<close>, \<open>Client_Channel\<close>: \<^verbatim>\<open>tunnelClientStream\<close> and \<^verbatim>\<open>tunnelChannel\<close>; \<open>Channel_Invariant\<close>: the invariant of the channel
    and its preservation by every operation.
  \<^item> \<open>Server_Stream\<close>, \<open>Tunnel_Server\<close>: \<^verbatim>\<open>tunnelServerStream\<close> and \<^verbatim>\<open>tunnelServer\<close>; \<open>Server_Invariant\<close>: the same for the server.
  \<^item> \<open>Reverse_Channels\<close>, \<open>Handler\<close>: \<^verbatim>\<open>reverseChannels\<close> and \<^verbatim>\<open>TunnelServiceHandler\<close>, with \<^verbatim>\<open>openReverseTunnel\<close> cut at its locks.
  \<^item> \<open>Establish\<close>: \<^verbatim>\<open>establish.go\<close>, \<^verbatim>\<open>Start\<close> and \<^verbatim>\<open>newReverseChannel\<close>. \<open>Reverse_Server\<close>: \<^verbatim>\<open>reverse_server.go\<close>.
  \<^item> \<open>Safe_Streams\<close>: the four wrappers that make a stream of gRPC safe for concurrent use, statement by statement under any number of goroutines
    (locale \<open>safe_stream\<close>). \<open>Context_Values\<close>: \<^verbatim>\<open>tunnel_metadata.go\<close>. \<open>Blocking_Dial\<close>: \<^verbatim>\<open>internal/blocking_dial.go\<close>, a state machine of
    the caller, the collector of errors and the dials. \<open>Services\<close>: registration of services, the service of the handler, the transport stream of unary
    handlers. \<open>Debug_Log\<close>: \<^verbatim>\<open>debug.go\<close>.
  \<^item> \<open>Client_Batch\<close>: \<^verbatim>\<open>internal/client_batch.go\<close>: its actions as trees of the calls they make (a codatatype, as the receiving loops have no bound), which are
    shown to use streams as grpc demands of callers, and \<^verbatim>\<open>SendRPCs\<close>. \<open>Test_Programs\<close>: keys and \<^verbatim>\<open>TriggerTestRPCs\<close> of the programs under \<^verbatim>\<open>internal/cmd\<close>.
  \<^item> \<open>Tunnel_System\<close>: both ends of a tunnel at once, with the frames on their way between them, and which frames each end can send
    (\<open>ts_reach\<close>, \<open>ts_inv\<close>). \<open>Credit_Steps\<close>, \<open>Tunnel_Credit\<close>: the account of the windows of every stream of such a tunnel.
    \<open>Message_Flow\<close>: what the frames of one direction mean as messages (locale \<open>framed\<close>). \<open>Delivery_Client\<close>, \<open>Delivery_Server\<close>,
    \<open>Tunnel_Delivery\<close>: the account of the messages of every stream: sent, in the queue of the sender's transport, on their way, in the
    receiver's queue, read. \<open>Delivery_Ends\<close>, \<open>Closing_Order\<close>, \<open>Closing_Requests\<close>, \<open>Request_Ends\<close>, \<open>Tunnel_Ends\<close>: what the end of a stream means
    in such a tunnel: the order in which each end sends its last frames, and what a reader has when it sees \<^verbatim>\<open>io.EOF\<close>.
  \<^item> \<open>Flow_Properties\<close>, \<open>Client_Properties\<close>, \<open>Server_Properties\<close>, \<open>Handler_Properties\<close>, \<open>Tunnel_Properties\<close>,
    \<open>Ending_Properties\<close> and this theory: the properties.

  \<^bold>\<open>How state and operations correspond.\<close> A struct is a record with the source's fields behind a prefix (\<open>snd_\<close>, \<open>rcv_\<close>, \<open>cs_\<close>, \<open>ch_\<close>, \<open>ss_\<close>, \<open>sv_\<close>,
  \<open>h_\<close>, \<open>rs_\<close>), less mutexes and closures; a Go channel that is only closed is a flag, a context is its error. Streams outlive
  their table entry, so channel and server have a heap of all streams beside the set of registered ones. An operation is what runs under a
  mutex, or between two points where it may wait: one that waits returns \<open>None\<close> or a value that says where it is resumed.
  Goroutines are steps of their own (a frame yet to be sent is a job), so \<open>chan_do\<close>, \<open>srv_do\<close>, \<open>handler_do\<close>, \<open>rs_do\<close>, \<open>link_do\<close> and \<open>sys_do\<close> perform one
  step, and \<open>chan_reach\<close> and its like hold in every state any schedule can lead to. What the transport, a codec, a handler or
  credentials return is an argument of the step; the functions of the grpc library that are called are the record \<open>grpc_lib\<close>. Errors are
  values of \<open>gerror\<close> with the code, the format and the arguments of the source; panics are values too.

  \<^bold>\<open>What is shown.\<close> Flow control: the window is never exceeded and never leaks, frames arrive in order, there is no lost wake-up and no deadlock,
  and every transfer ends (C1 to C4, C8, C22); messages survive chunking (C5 to C7). Both ends together, for every interleaving of
  everything that may happen at the two ends, streams that end at any moment included: no protocol error arises (C9), what a handler or a caller reads on
  a stream are the messages that were sent on it, whole, in order and from the first on (C10, C11), they are all of them once it has read the
  end (C16), and no window is exceeded (C12); a new stream starts in the states of C1 to C4 (C34). Client: negotiation and parameters (C13,
  C14), stream IDs (C15, C23), outcomes and closing (C17 to C19), a misbehaving server (C21). The transport's streams are not used
  concurrently (C20). Establishing (C24, C40), dialing (C32). Server: one end per stream (C25), refusals and protocol errors (C26,
  C27), accepted streams (C28), progress of the receive loop (C29), timeouts (C30, C31), reading (C33). Shutdown (C35, C39), reverse
  tunnels (C36 to C38). C23, C31, C33 and C40 state behaviour at the edges that is not what the code means to do.

  \<^bold>\<open>Bounds.\<close> No function has fuel: the read loops end because each step takes a frame from the queue, and runs of a transfer because
  \<open>link_work\<close> decreases. Windows and sizes are 32-bit words, stream IDs and durations int64 with their wrap-around; lengths of slices are natural
  numbers, as they stay below \<open>2 ^ 63\<close>. On the client, \<^verbatim>\<open>finishStream\<close> and the operations that hold one mutex after another within it are
  one step.

  \<^bold>\<open>Not modelled.\<close> The wire encoding and the generated stubs (\<^verbatim>\<open>tunnelpb\<close>, \<^verbatim>\<open>internal/gen\<close>); the table of services, which is the
  grpchan library's (\<open>Services\<close> has what is relied on); the \<^verbatim>\<open>main\<close> functions under \<^verbatim>\<open>internal/cmd\<close>, which parse flags, listen, dial and log; the
  settings of sockets. In the theories of the tunnel a call of \<^verbatim>\<open>Send\<close> or \<^verbatim>\<open>Recv\<close> of the transport is one step, which is what the wrappers of
  \<open>Safe_Streams\<close> make of it. Real time does not occur: a timer or deadline may fire at any moment.
\<close>

lemma trim_split_method:
  "CHR ''/'' \<notin> set svc \<Longrightarrow> trim_slash (''/'' @ svc @ ''/'' @ mth) = svc @ ''/'' @ mth \<and> split_slash (svc @ ''/'' @ mth) = [svc, mth]"
  by (simp add: trim_slash_def split_slash_def takeWhile_append dropWhile_append)

text \<open>The client's side of opening a stream: its state and the frame it sends.\<close>

lemma newStream_opens:
  assumes "newStream L a None c = (NewOk i, c')" and "ch_settings c = Some stg"
  obtains cst md where "ch_heap c' i = Some cst"
    "cs_sender cst = newSender (Settings_InitialWindowSize stg) (maxChunkSize (ch_tunnelOpts c)) (messageOverhead (ch_useRevision c))"
    "cs_receiver cst = newReceiver (initialWindowSize (ch_tunnelOpts c)) (minWindowUpdateSize (ch_tunnelOpts c)) (messageOverhead (ch_useRevision c))"
    "last (ch_sent c') = c2s i (newStream_frame a md c)"
proof -
  obtain md c1 where al: "allocateStream L a c = (AllocOk i md, c1)"
    and c': "c' = c1\<lparr>ch_sent := ch_sent c1 @ [c2s i (newStream_frame a md c1)], ch_watched := insert i (ch_watched c1)\<rparr>"
    using assms(1) by (auto simp: newStream_def split: prod.splits alloc_res.splits option.splits)
  obtain cst where "ch_heap c1 i = Some cst"
      "cs_sender cst = newSender (Settings_InitialWindowSize stg) (maxChunkSize (ch_tunnelOpts c)) (messageOverhead (ch_useRevision c))"
      "cs_receiver cst = newReceiver (initialWindowSize (ch_tunnelOpts c)) (minWindowUpdateSize (ch_tunnelOpts c)) (messageOverhead (ch_useRevision c))"
    and "ch_useRevision c1 = ch_useRevision c" "ch_tunnelOpts c1 = ch_tunnelOpts c"
    by (rule allocateStream_ok [OF al]) (use assms(2) in \<open>simp add: newClientStream_def\<close>)
  then show ?thesis using that [of cst md] c' by (simp add: newStream_frame_def)
qed

text \<open>The server's side: what it makes of such a frame.\<close>

lemma serve_step_opens_method:
  assumes "srv_inv s" and "sv_loop s = SrvRunning" and "sv_lastSeen s < i" and "ch_useRevision c \<in> set supportedRevisions"
    and "opts_wf (ch_tunnelOpts c)" and "nc_method a = ''/'' @ svc @ ''/'' @ mth" and "CHR ''/'' \<notin> set svc" and "svcs svc = Some sd"
    and "findMethod sd mth = Some m"
  obtains s' sst where "serve_step L svcs False (Inr (c2s i (newStream_frame a md c))) s = Some s'"
    "sv_serving s' i = Some (Serving m)" "sv_heap s' i = Some sst"
    "ss_sender sst = newSender (initialWindowSize (ch_tunnelOpts c)) (maxChunkSize (sv_tunnelOpts s)) (messageOverhead (ch_useRevision c))"
    "ss_receiver sst = newReceiver (initialWindowSize (sv_tunnelOpts s)) (minWindowUpdateSize (sv_tunnelOpts s)) (messageOverhead (ch_useRevision c))"
proof -
  let ?o = "ch_tunnelOpts c" and ?rv = "ch_useRevision c"
  let ?f = "\<lparr>MethodName = nc_method a, RequestHeaders = Some (toProto md),
      NewStream_InitialWindowSize = initialWindowSize ?o, NewStream_ProtocolRevision = ?rv\<rparr>"
  have "?rv \<noteq> REVISION_ZERO" using assms(4) by (auto simp: supportedRevisions_def revision_defs)
  moreover have "\<not> initialWindowSize ?o < minWindowSize ?rv"
    using assms(5) [THEN opts_wf_minWindowSize, of ?rv] by (simp add: not_less)
  ultimately have ck: "check_stream svcs False s ?f = Inr (svc @ ''/'' @ mth, m)"
    using assms(4,6-9) trim_split_method [OF assms(7), of mth]
    by (simp add: check_stream_def Let_def split: prod.splits)
  have "i \<notin> sv_streams s" using assms(1,3) by (fastforce simp: srv_inv_def srv_streams_ok_def)
  then show ?thesis
    using that assms(2,3) ck by (simp add: newStream_frame_def serve_step_def createStream_def Let_def newServerStream_def)
qed

text \<open>
  C34. The two ends of a stream fit together: when a client whose settings came from the server opens a stream for a method that the
  server has, the frame it sends makes the server create the stream, and each direction then is a sender and a receiver
  made for the same window and overhead, with room for a message and chunks that are not empty. These are the initial
  states of the theorems on one direction (C1 to C4), so they hold for both directions of every stream.
\<close>

theorem new_stream_linked:
  assumes "chan_reach L (newTunnelChannel x pr md b r opts mem) c" and "opts_wf opts"
    and "ch_settings c = Some stg" and "settings_frame (sv_tunnelOpts s) = s2c (-1) (ServerToClient_Settings stg)"
    and "srv_inv s" and "sv_loop s = SrvRunning" and "sv_lastSeen s < i"
    and "newStream L a None c = (NewOk i, c')"
    and "nc_method a = ''/'' @ svc @ ''/'' @ mth" and "CHR ''/'' \<notin> set svc" and "svcs svc = Some sd"
    and "findMethod sd mth = Some m"
  shows "\<exists>s' cst sst wq mxq muq wp mxp mup v. serve_step L svcs False (Inr (last (ch_sent c'))) s = Some s'
    \<and> sv_serving s' i = Some (Serving m) \<and> ch_heap c' i = Some cst \<and> sv_heap s' i = Some sst
    \<and> sys_init (cs_sender cst) = lk_snd (link_init wq mxq muq v :: ClientToServerFrame link)
    \<and> ss_receiver sst = lk_rcv (link_init wq mxq muq v)
    \<and> sys_init (ss_sender sst) = lk_snd (link_init wp mxp mup v :: ServerToClientFrame link)
    \<and> cs_receiver cst = lk_rcv (link_init wp mxp mup v)
    \<and> v < wq \<and> v < wp \<and> 0 < mxq \<and> 0 < mxp"
proof -
  let ?o = "ch_tunnelOpts c" and ?so = "sv_tunnelOpts s" and ?rv = "ch_useRevision c"
  let ?v = "messageOverhead ?rv"
  let ?q = "link_init (initialWindowSize ?so) (maxChunkSize ?o) (minWindowUpdateSize ?so) ?v"
  let ?p = "link_init (initialWindowSize ?o) (maxChunkSize ?so) (minWindowUpdateSize ?o) ?v"
  have inv: "chan_inv c" by (rule chan_inv_reach [OF assms(1) chan_inv_newTunnelChannel [OF assms(2)]])
  have rv: "?rv \<in> set supportedRevisions" and wf: "opts_wf ?o" "opts_wf ?so"
    using inv assms(3,5) by (auto simp: chan_inv_def settings_ok_def srv_inv_def)
  have stg: "Settings_InitialWindowSize stg = initialWindowSize ?so" using assms(4) by (auto simp: settings_frame_def)
  have v: "?v < initialWindowSize ?o" "?v < initialWindowSize ?so"
    using wf [THEN opts_wf_minWindowSize, of ?rv] by (simp_all add: minWindowSize_le_iff word_less_nat_alt)
  have mx: "0 < maxChunkSize ?o" "0 < maxChunkSize ?so" using wf by (simp_all add: opts_wf_def)
  obtain cst md' where cst: "ch_heap c' i = Some cst" "cs_sender cst = newSender (initialWindowSize ?so) (maxChunkSize ?o) ?v"
      "cs_receiver cst = newReceiver (initialWindowSize ?o) (minWindowUpdateSize ?o) ?v" "last (ch_sent c') = c2s i (newStream_frame a md' c)"
    by (rule newStream_opens [OF assms(8,3)]) (simp add: stg)
  obtain s' sst where s': "serve_step L svcs False (Inr (last (ch_sent c'))) s = Some s'"
      "sv_serving s' i = Some (Serving m)" "sv_heap s' i = Some sst" "ss_sender sst = newSender (initialWindowSize ?o) (maxChunkSize ?so) ?v"
      "ss_receiver sst = newReceiver (initialWindowSize ?so) (minWindowUpdateSize ?so) ?v"
    unfolding cst(4) by (rule serve_step_opens_method [where svcs = svcs and svc = svc, OF assms(5-7) rv wf(1) assms(9-12)])
  have q: "sys_init (cs_sender cst) = lk_snd (?q :: ClientToServerFrame link)" "ss_receiver sst = lk_rcv ?q"
    by (simp_all add: link_init_def cst(2) s'(5))
  have p: "sys_init (ss_sender sst) = lk_snd (?p :: ServerToClientFrame link)" "cs_receiver cst = lk_rcv ?p"
    by (simp_all add: link_init_def cst(3) s'(4))
  show ?thesis
    by (intro exI conjI, rule s'(1), rule s'(2), rule cst(1), rule s'(3), rule q(1), rule q(2), rule p(1), rule p(2), rule v(2), rule v(1),
        rule mx(1), rule mx(2))
qed

theorem new_stream_linked_witness:
  "\<exists>c c' s' cst sst. chan_do demo_lib (ActRecv (Inr (settings_frame demo_opts))) demo_new = Some c
     \<and> newStream demo_lib demo_call None c = (NewOk 1, c')
     \<and> serve_step demo_lib demo_svcs False (Inr (last (ch_sent c'))) demo_srv = Some s'
     \<and> ch_heap c' 1 = Some cst \<and> sv_heap s' 1 = Some sst"
proof -
  let ?stg = "\<lparr>SupportedProtocolRevisions = supportedRevisions, Settings_InitialWindowSize = initialWindowSize demo_opts\<rparr>"
  have "\<exists>c c'. chan_do demo_lib (ActRecv (Inr (settings_frame demo_opts))) demo_new = Some c \<and> ch_settings c = Some ?stg
      \<and> newStream demo_lib demo_call None c = (NewOk 1, c')"
    by (simp add: settings_frame_def demo_new_def newTunnelChannel_def recvLoop_def recvLoop_start_def accept_settings_def
        negotiate_step_def supportedRevisions_def revision_defs Let_def minWindowSize_def demo_opts_def messageOverhead_def
        revisionTwoMessageOverhead_def word_less_nat_alt newStream_def allocateStream_def demo_call_def i64_wrap_def live_streams_def)
  then obtain c c' where c: "chan_do demo_lib (ActRecv (Inr (settings_frame demo_opts))) demo_new = Some c"
      "ch_settings c = Some ?stg" "newStream demo_lib demo_call None c = (NewOk 1, c')" by blast
  have reach: "chan_reach demo_lib demo_new c"
    by (rule chan_reach.chan_step [OF chan_reach.chan_start c(1)])
  have srv: "settings_frame (sv_tunnelOpts demo_srv) = s2c (-1) (ServerToClient_Settings ?stg)"
      "sv_loop demo_srv = SrvRunning" "sv_lastSeen demo_srv < 1"
    by (simp_all add: settings_frame_def demo_srv_def serveTunnel_def)
  have mth: "nc_method demo_call = ''/'' @ ''svc'' @ ''/'' @ ''m''" "CHR ''/'' \<notin> set ''svc''"
      "demo_svcs ''svc'' = Some \<lparr>Methods = [''m''], Streams = [(''s'', True, True)]\<rparr>"
      "findMethod \<lparr>Methods = [''m''], Streams = [(''s'', True, True)]\<rparr> ''m'' = Some (MethodDesc ''m'')"
    by (simp_all add: demo_call_def demo_svcs_def findMethod_def)
  from new_stream_linked [where svcs = demo_svcs and svc = "''svc''" and mth = "''m''", OF reach [unfolded demo_new_def] demo_opts_wf c(2) srv(1) demo_srv_inv srv(2,3) c(3) mth] c(1,3)
  show ?thesis by blast
qed

end
